(* ===== verification/Prelude.thy ===== *)
theory Prelude
  imports Main "HOL-Library.Word" "HOL-Library.Monad_Syntax"
begin

text \<open>
  Shared vocabulary of the development: the machine types of the Rust sources, panics and
  results as values, integer operations with their overflow checks, slicing and indexing with
  Rust's bounds checks, and lemmas on matches over small discriminants.
\<close>

section \<open>Automation collections\<close>

named_theorems slice_simps \<open>reads of slices and arrays that are in range\<close>
named_theorems codec_simps \<open>lengths and round trips of byte encodings\<close>

section \<open>Machine types, panics and results\<close>

type_synonym u8 = "8 word"
type_synonym u16 = "16 word"
type_synonym u32 = "32 word"
type_synonym u64 = "64 word"

text \<open>
  A Rust computation that may panic (a failed \<open>assert!\<close>, an index or a slice out of
  range, a checked overflow) is a value of type \<open>'a exec\<close>: \<open>None\<close> is the panic,
  \<open>Some x\<close> the normal return of \<open>x\<close>.  Where the Rust function itself returns an
  \<open>Option\<close>, the model's type is \<open>'a option exec\<close>.
\<close>

type_synonym 'a exec = "'a option"

abbreviation (input) panic :: "'a exec" where
  "panic \<equiv> None"

abbreviation (input) ret :: "'a \<Rightarrow> 'a exec" where
  "ret \<equiv> Some"

definition assert_that :: "bool \<Rightarrow> unit exec" where
  "assert_that b = (if b then ret () else panic)"

lemma assert_that_simps [simp]:
  "assert_that True = Some ()" "assert_that False = None"
  by (simp_all add: assert_that_def)

lemma assert_that_eq_Some [simp]: "assert_that b = Some u \<longleftrightarrow> b"
  by (simp add: assert_that_def)

text \<open>
  The two build profiles of cargo differ in what integer overflow and
  \<open>debug_assert!\<close> do: a panic under \<open>Debug\<close>; wrapping and nothing under \<open>Release\<close>.
\<close>

datatype profile = Debug | Release

definition debug_assert :: "profile \<Rightarrow> bool \<Rightarrow> unit exec" where
  "debug_assert p b = (if p = Debug then assert_that b else ret ())"

definition add_checked :: "profile \<Rightarrow> 'w::len word \<Rightarrow> 'w word \<Rightarrow> 'w word exec" where
  "add_checked p a b =
     (if p = Debug \<and> 2 ^ LENGTH('w) \<le> unat a + unat b then panic else ret (a + b))"

lemma debug_assert_simps [simp]:
  "debug_assert Release b = Some ()" "debug_assert p True = Some ()"
  "debug_assert Debug b = assert_that b"
  by (simp_all add: debug_assert_def)

lemma add_checked_Release [simp]: "add_checked Release a b = Some (a + b)"
  by (simp add: add_checked_def)

lemma add_checked_no_overflow:
  "unat a + unat (b :: 'w::len word) < 2 ^ LENGTH('w) \<Longrightarrow> add_checked p a b = Some (a + b)"
  by (simp add: add_checked_def)

text \<open>The \<open>?\<close> operator on \<open>Result\<close>: \<open>Inl\<close> is \<open>Err\<close>, \<open>Inr\<close> is \<open>Ok\<close>.\<close>

definition rbind :: "'e + 'a \<Rightarrow> ('a \<Rightarrow> 'e + 'b) \<Rightarrow> 'e + 'b" where
  "rbind r f = (case r of Inl e \<Rightarrow> Inl e | Inr x \<Rightarrow> f x)"

lemma rbind_simps [simp]: "rbind (Inl e) f = Inl e" "rbind (Inr x) f = f x"
  by (simp_all add: rbind_def)

text \<open>\<open>unwrap\<close>, \<open>expect\<close> and the explicit \<open>panic!\<close> on a result.\<close>

definition unwrap :: "'e + 'a \<Rightarrow> 'a exec" where
  "unwrap r = (case r of Inl e \<Rightarrow> panic | Inr x \<Rightarrow> ret x)"

lemma unwrap_eq_Some [simp]: "unwrap r = Some x \<longleftrightarrow> r = Inr x"
  by (simp add: unwrap_def split: sum.splits)

lemma unwrap_Inr [simp]: "unwrap (Inr x) = Some x"
  by (simp add: unwrap_def)

lemma rbind_eq_Inr: "rbind r f = Inr y \<longleftrightarrow> (\<exists>x. r = Inr x \<and> f x = Inr y)"
  by (cases r) auto

lemma rbind_eq_Inl: "rbind r f = Inl e \<longleftrightarrow> r = Inl e \<or> (\<exists>x. r = Inr x \<and> f x = Inl e)"
  by (cases r) auto

text \<open>\<open>usize\<close> arithmetic of the 64-bit targets: \<open>checked_add\<close> and \<open>checked_mul\<close>.\<close>

definition usize_checked_add :: "nat \<Rightarrow> nat \<Rightarrow> nat option" where
  "usize_checked_add a b = (if a + b < 2 ^ 64 then Some (a + b) else None)"

definition usize_checked_mul :: "nat \<Rightarrow> nat \<Rightarrow> nat option" where
  "usize_checked_mul a b = (if a * b < 2 ^ 64 then Some (a * b) else None)"

definition ok_or :: "'a option \<Rightarrow> 'e \<Rightarrow> 'e + 'a" where
  "ok_or x e = (case x of None \<Rightarrow> Inl e | Some y \<Rightarrow> Inr y)"

lemma ok_or_simps [simp]: "ok_or None e = Inl e" "ok_or (Some y) e = Inr y"
  by (simp_all add: ok_or_def)

section \<open>Indexing and slicing\<close>

text \<open>\<open>xs[i]\<close>, \<open>xs[i] = v\<close> and \<open>&xs[a..b]\<close>, each panicking out of range.\<close>

definition index :: "'a list \<Rightarrow> nat \<Rightarrow> 'a exec" where
  "index xs i = (if i < length xs then ret (xs ! i) else panic)"

definition store_at :: "'a list \<Rightarrow> nat \<Rightarrow> 'a \<Rightarrow> 'a list exec" where
  "store_at xs i v = (if i < length xs then ret (xs[i := v]) else panic)"

definition slice :: "'a list \<Rightarrow> nat \<Rightarrow> nat \<Rightarrow> 'a list exec" where
  "slice xs a b = (if a \<le> b \<and> b \<le> length xs then ret (take (b - a) (drop a xs)) else panic)"

text \<open>\<open>xs[a..b].copy_from_slice(vs)\<close>.\<close>

definition copy_into :: "'a list \<Rightarrow> nat \<Rightarrow> nat \<Rightarrow> 'a list \<Rightarrow> 'a list exec" where
  "copy_into xs a b vs =
     (if a \<le> b \<and> b \<le> length xs \<and> length vs = b - a
      then ret (take a xs @ vs @ drop b xs) else panic)"

lemma index_in [slice_simps]: "i < length xs \<Longrightarrow> index xs i = Some (xs ! i)"
  by (simp add: index_def)

lemma index_eq_Some [simp]: "index xs i = Some x \<longleftrightarrow> i < length xs \<and> x = xs ! i"
  by (auto simp: index_def)

lemma index_eq_None [simp]: "index xs i = None \<longleftrightarrow> length xs \<le> i"
  by (auto simp: index_def)

lemma store_at_in [slice_simps]: "i < length xs \<Longrightarrow> store_at xs i v = Some (xs[i := v])"
  by (simp add: store_at_def)

lemma store_at_eq_Some [simp]:
  "store_at xs i v = Some ys \<longleftrightarrow> i < length xs \<and> ys = xs[i := v]"
  by (auto simp: store_at_def)

lemma slice_in [slice_simps]:
  "a \<le> b \<Longrightarrow> b \<le> length xs \<Longrightarrow> slice xs a b = Some (take (b - a) (drop a xs))"
  by (simp add: slice_def)

lemma slice_eq_Some:
  "slice xs a b = Some ys \<longleftrightarrow> a \<le> b \<and> b \<le> length xs \<and> ys = take (b - a) (drop a xs)"
  by (auto simp: slice_def)

lemma slice_prefix [slice_simps]: "slice (xs @ ys) 0 (length xs) = Some xs"
  by (simp add: slice_def)

lemma slice_suffix [slice_simps]:
  "slice (xs @ ys) (length xs) (length xs + length ys) = Some ys"
  by (simp add: slice_def)

lemma copy_into_suffix [slice_simps]:
  "length zs = length ys \<Longrightarrow>
   copy_into (xs @ zs) (length xs) (length xs + length ys) ys = Some (xs @ ys)"
  by (simp add: copy_into_def)

section \<open>Matches on small discriminants\<close>

text \<open>A match whose arms are the discriminants \<open>0, 1, \<dots>, n - 1\<close> has an arm for exactly those.\<close>

lemma word_of_nat_below:
  assumes "n \<le> 256"
  shows "(\<exists>k<n. (d :: u8) = word_of_nat k) \<longleftrightarrow> unat d < n"
proof
  assume "\<exists>k<n. d = word_of_nat k"
  then obtain k where "k < n" and d: "d = word_of_nat k" by blast
  with assms have "k mod 256 = k" by simp
  then show "unat d < n" using \<open>k < n\<close> by (simp add: d unat_of_nat)
next
  assume "unat d < n"
  moreover have "d = word_of_nat (unat d)" by simp
  ultimately show "\<exists>k<n. d = word_of_nat k" by blast
qed

text \<open>A \<open>for\<close> loop whose body may panic.\<close>

primrec for_each :: "('a \<Rightarrow> unit exec) \<Rightarrow> 'a list \<Rightarrow> unit exec" where
  "for_each body [] = ret ()"
| "for_each body (x # xs) = do { body x; for_each body xs }"

lemma for_each_ok: "for_each body xs = Some () \<longleftrightarrow> (\<forall>x \<in> set xs. body x = Some ())"
  by (induction xs) (auto simp: Option.bind_eq_Some_conv)

lemma update_members: "x \<in> set (xs[i := y]) \<Longrightarrow> x = y \<or> x \<in> set xs"
  using set_update_subset_insert [of xs i y] by blast

lemma map_of_upt_dom:
  assumes "map fst arms = map word_of_nat [0..<n]" and "n \<le> 256"
  shows "map_of arms (d :: u8) = None \<longleftrightarrow> n \<le> unat d"
proof -
  have "map_of arms d = None \<longleftrightarrow> d \<notin> set (map fst arms)"
    by (simp add: map_of_eq_None_iff)
  also have "\<dots> \<longleftrightarrow> \<not> (\<exists>k<n. d = word_of_nat k)"
    unfolding assms(1) by auto
  finally show ?thesis by (simp only: word_of_nat_below [OF assms(2)] not_less)
qed

end
