(* ===== verification/Errors.thy ===== *)
theory Errors
  imports Prelude
begin

text \<open>
  \<open>src/err.rs\<close>: the error type of the crate and its one-byte code on the forwarder's
  shared-memory protocol.
\<close>

section \<open>The error type\<close>

text \<open>
  \<open>TransactionFailure\<close> boxes a foreign error; the model keeps the text that error
  displays, which is all the crate reads of it.
\<close>

datatype zerohop_error =
    Unknown string
  | NotImplemented
  | UnalignedMemory
  | TransactionFailure string
  | OutofRange
  | ConfigError string
  | ConnectionError string
  | ConnectionCanceled
  | BufferFull

type_synonym 'a result = "zerohop_error + 'a"

section \<open>Error codes\<close>

fun error_code :: "zerohop_error \<Rightarrow> u8" where
  "error_code (Unknown _) = 1"
| "error_code NotImplemented = 2"
| "error_code UnalignedMemory = 3"
| "error_code (TransactionFailure _) = 4"
| "error_code OutofRange = 5"
| "error_code (ConfigError _) = 6"
| "error_code (ConnectionError _) = 7"
| "error_code ConnectionCanceled = 8"
| "error_code BufferFull = 9"

text \<open>Foreign errors enter the crate as their display text (\<open>From<Box<dyn Error>>\<close>).\<close>

definition from_boxed_error :: "string \<Rightarrow> zerohop_error" where
  "from_boxed_error text_of_e = Unknown text_of_e"

text \<open>The variant of an error with its payload erased.\<close>

fun same_variant :: "zerohop_error \<Rightarrow> zerohop_error \<Rightarrow> bool" where
  "same_variant (Unknown _) (Unknown _) = True"
| "same_variant (TransactionFailure _) (TransactionFailure _) = True"
| "same_variant (ConfigError _) (ConfigError _) = True"
| "same_variant (ConnectionError _) (ConnectionError _) = True"
| "same_variant a b = (a = b)"

text \<open>
  The one-byte code of an error identifies its variant: two errors share a code exactly
  when they are the same variant, and no error has the code 0.
\<close>

lemma error_code_identifies_variant:
  "(error_code a = error_code b \<longleftrightarrow> same_variant a b) \<and> error_code a \<noteq> 0"
  by (cases a; cases b; simp)

section \<open>Discriminants\<close>

text \<open>
  The contract of a pair of discriminant functions: every listed value decodes to itself,
  and what decodes is a listed value.
\<close>

locale discriminant_codec =
  fixes enc :: "'a \<Rightarrow> 'c"
    and dec :: "'c \<Rightarrow> zerohop_error + 'a"
    and listed :: "'a \<Rightarrow> bool"
  assumes dec_enc: "listed x \<Longrightarrow> dec (enc x) = Inr x"
    and dec_listed: "dec c = Inr x \<Longrightarrow> listed x"
begin

lemma enc_inject: "listed x \<Longrightarrow> listed y \<Longrightarrow> enc x = enc y \<longleftrightarrow> x = y"
  by (metis dec_enc sum.inject(2))

lemma dec_canonical: "dec c = Inr x \<Longrightarrow> dec (enc x) = dec c"
  by (simp add: dec_enc dec_listed)

end

end
