(* ===== verification/Bytes.thy ===== *)
theory Bytes
  imports Prelude
begin

text \<open>
  Little-endian encodings (\<open>to_le_bytes\<close>, \<open>from_le_bytes\<close>), the raw memory image of
  slices of plain data (\<open>src/util.rs\<close>: \<open>as_bytes_slice\<close>, \<open>bytes_to_struct\<close>) and
  the contract of a fixed-width codec, on which the wire formats rest.
\<close>

section \<open>Little-endian numbers\<close>

primrec le_nat :: "u8 list \<Rightarrow> nat" where
  "le_nat [] = 0"
| "le_nat (b # bs) = unat b + 256 * le_nat bs"

primrec nat_le :: "nat \<Rightarrow> nat \<Rightarrow> u8 list" where
  "nat_le 0 n = []"
| "nat_le (Suc k) n = of_nat n # nat_le k (n div 256)"

definition to_le_bytes :: "'w::len word \<Rightarrow> u8 list" where
  "to_le_bytes w = nat_le (LENGTH('w) div 8) (unat w)"

definition from_le_bytes :: "u8 list \<Rightarrow> 'w::len word" where
  "from_le_bytes bs = of_nat (le_nat bs)"

lemma length_nat_le [codec_simps]: "length (nat_le k n) = k"
  by (induction k arbitrary: n) simp_all

lemma le_nat_nat_le: "le_nat (nat_le k n) = n mod 256 ^ k"
proof (induction k arbitrary: n)
  case (Suc k)
  have "le_nat (nat_le (Suc k) n) = n mod 256 + 256 * (n div 256 mod 256 ^ k)"
    by (simp add: Suc.IH unat_of_nat)
  also have "\<dots> = n mod 256 ^ Suc k"
    by (simp add: mod_mult2_eq)
  finally show ?case .
qed simp

lemma le_nat_less: "le_nat bs < 256 ^ length bs"
proof (induction bs)
  case (Cons b bs)
  have "unat b < 256" using unsigned_less [of b, where ?'a = nat] by simp
  with Cons.IH show ?case by simp
qed simp

lemma nat_le_le_nat: "nat_le (length bs) (le_nat bs) = bs"
proof (induction bs)
  case (Cons b bs)
  have b: "unat b < 256" using unsigned_less [of b, where ?'a = nat] by simp
  have "(of_nat (unat b + 256 * le_nat bs) :: u8) = of_nat (unat b) + of_nat 256 * of_nat (le_nat bs)"
    by (simp only: of_nat_add of_nat_mult)
  also have "(of_nat 256 :: u8) = 0" by simp
  finally have "(of_nat (unat b + 256 * le_nat bs) :: u8) = b" by simp
  moreover have "(unat b + 256 * le_nat bs) div 256 = le_nat bs" using b by simp
  ultimately show ?case by (simp add: Cons.IH del: of_nat_add of_nat_mult)
qed simp

lemma length_to_le_bytes [codec_simps]:
  "length (to_le_bytes (w :: 'w::len word)) = LENGTH('w) div 8"
  by (simp add: to_le_bytes_def length_nat_le)

lemma from_to_le_bytes [codec_simps]:
  assumes "8 dvd LENGTH('w)"
  shows "from_le_bytes (to_le_bytes (w :: 'w::len word)) = w"
proof -
  have "(256::nat) ^ (LENGTH('w) div 8) = 2 ^ (8 * (LENGTH('w) div 8))"
    by (simp add: power_mult)
  also have "\<dots> = 2 ^ LENGTH('w)" using assms by simp
  finally have "unat w mod 256 ^ (LENGTH('w) div 8) = unat w"
    by (simp add: unsigned_less)
  then show ?thesis
    by (simp add: to_le_bytes_def from_le_bytes_def le_nat_nat_le)
qed

lemma to_from_le_bytes [codec_simps]:
  assumes "8 dvd LENGTH('w)" and "length bs = LENGTH('w) div 8"
  shows "to_le_bytes (from_le_bytes bs :: 'w::len word) = bs"
proof -
  have "(256::nat) ^ length bs = 2 ^ (8 * (LENGTH('w) div 8))"
    using assms(2) by (simp add: power_mult)
  also have "\<dots> = 2 ^ LENGTH('w)" using assms(1) by simp
  finally have "le_nat bs < 2 ^ LENGTH('w)" using le_nat_less [of bs] by simp
  then have "unat (of_nat (le_nat bs) :: 'w word) = le_nat bs"
    by (simp add: unat_of_nat)
  then show ?thesis
    by (simp add: to_le_bytes_def from_le_bytes_def assms(2) [symmetric] nat_le_le_nat)
qed

section \<open>Arrays of plain data\<close>

text \<open>
  \<open>as_bytes_slice(s)\<close> is the memory of a slice: its elements' bytes one after the other.
  Reading it back as a slice of \<open>n\<close> elements of \<open>w\<close> bytes
  (\<open>slice::from_raw_parts\<close>) decodes each run of \<open>w\<close> bytes.
\<close>

definition as_bytes_slice :: "('a \<Rightarrow> u8 list) \<Rightarrow> 'a list \<Rightarrow> u8 list" where
  "as_bytes_slice enc xs = concat (map enc xs)"

text \<open>
  \<open>as_bytes(val)\<close> is the memory of one value; \<open>as_bytes_mut(val)\<close> the same memory to write to: its
  bytes, and the value that new bytes leave.
\<close>

definition as_bytes :: "('a \<Rightarrow> u8 list) \<Rightarrow> 'a \<Rightarrow> u8 list" where
  "as_bytes enc val = enc val"

definition as_bytes_mut :: "('a \<Rightarrow> u8 list) \<Rightarrow> (u8 list \<Rightarrow> 'a) \<Rightarrow> 'a \<Rightarrow> u8 list \<times> (u8 list \<Rightarrow> 'a)" where
  "as_bytes_mut enc dec val = (enc val, dec)"

fun raw_parts :: "(u8 list \<Rightarrow> 'a) \<Rightarrow> nat \<Rightarrow> u8 list \<Rightarrow> nat \<Rightarrow> 'a list" where
  "raw_parts dec w bs 0 = []"
| "raw_parts dec w bs (Suc n) = dec (take w bs) # raw_parts dec w (drop w bs) n"

lemma length_raw_parts [simp]: "length (raw_parts dec w bs n) = n"
  by (induction n arbitrary: bs) simp_all

lemma nth_raw_parts:
  "i < n \<Longrightarrow> raw_parts dec w bs n ! i = dec (take w (drop (i * w) bs))"
proof (induction n arbitrary: bs i)
  case (Suc n)
  then show ?case by (cases i) (simp_all add: add.commute)
qed simp

text \<open>The contract of an element codec of constant width, and what it gives for arrays.\<close>

locale fixed_codec =
  fixes enc :: "'a \<Rightarrow> u8 list"
    and dec :: "u8 list \<Rightarrow> 'a"
    and width :: nat
  assumes enc_width: "length (enc x) = width"
    and dec_enc: "dec (enc x) = x"
begin

lemma array_length: "length (as_bytes_slice enc xs) = length xs * width"
  by (induction xs) (simp_all add: as_bytes_slice_def enc_width)

lemma array_roundtrip: "raw_parts dec width (as_bytes_slice enc xs @ rest) (length xs) = xs"
  by (induction xs) (simp_all add: as_bytes_slice_def enc_width dec_enc)

lemma array_exact:
  "n = length xs \<Longrightarrow> raw_parts dec width (as_bytes_slice enc xs) n = xs"
  using array_roundtrip [of xs "[]"] by simp

lemma mut_view: "as_bytes_mut enc dec x = (bs, write) \<Longrightarrow> bs = as_bytes enc x \<and> write bs = x \<and> write (as_bytes enc y) = y"
  using dec_enc [of x] dec_enc [of y] by (auto simp: as_bytes_mut_def as_bytes_def)

lemma enc_inject: "enc x = enc y \<longleftrightarrow> x = y"
  using dec_enc by metis

end

definition u8_bytes :: "u8 \<Rightarrow> u8 list" where
  "u8_bytes b = [b]"

interpretation u8_codec: fixed_codec u8_bytes hd 1
  by unfold_locales (simp_all add: u8_bytes_def)

interpretation u16_codec: fixed_codec "to_le_bytes :: u16 \<Rightarrow> u8 list" from_le_bytes 2
  by unfold_locales (simp_all add: codec_simps)

interpretation u32_codec: fixed_codec "to_le_bytes :: u32 \<Rightarrow> u8 list" from_le_bytes 4
  by unfold_locales (simp_all add: codec_simps)

interpretation u64_codec: fixed_codec "to_le_bytes :: u64 \<Rightarrow> u8 list" from_le_bytes 8
  by unfold_locales (simp_all add: codec_simps)

lemma as_bytes_slice_u8: "as_bytes_slice u8_bytes bs = bs"
  by (induction bs) (simp_all add: as_bytes_slice_def u8_bytes_def)

section \<open>Viewing bytes as a struct\<close>

text \<open>
  \<open>bytes_to_struct::<T>(data)\<close> for a type of size \<open>sz\<close> and alignment \<open>align\<close>:
  it panics unless the slice has exactly that size and starts at an aligned address.  A slice
  is its bytes with the address \<open>addr\<close> of the first.
\<close>

definition bytes_to_struct :: "nat \<Rightarrow> nat \<Rightarrow> (u8 list \<Rightarrow> 'a) \<Rightarrow> nat \<Rightarrow> u8 list \<Rightarrow> 'a exec" where
  "bytes_to_struct sz align dec addr data = do {
     assert_that (sz = length data);
     assert_that (addr mod align = 0);
     ret (dec data)
   }"

section \<open>Fields of a layout\<close>

text \<open>The \<open>n\<close> bytes at offset \<open>off\<close>.\<close>

definition field :: "nat \<Rightarrow> nat \<Rightarrow> u8 list \<Rightarrow> u8 list" where
  "field off n bs = take n (drop off bs)"

lemma field_skip [codec_simps]: "length xs \<le> off \<Longrightarrow> field off n (xs @ ys) = field (off - length xs) n ys"
  by (simp add: field_def)

lemma field_here [codec_simps]: "length xs = n \<Longrightarrow> field 0 n (xs @ ys) = xs"
  by (simp add: field_def)

lemma field_last [codec_simps]: "length xs = n \<Longrightarrow> field 0 n xs = xs"
  by (simp add: field_def)

end
