(* ===== verification/Tx_Result.thy ===== *)
theory Tx_Result
  imports Errors Bytes
begin

text \<open>
  \<open>src/store.rs\<close>, "Result<Slot, TransactionError> - 16-byte encoding": the fixed-size
  encoding of a transaction's outcome (\<open>result_to_bytes\<close>, \<open>result_from_bytes\<close>) and
  the error discriminants below it.
\<close>

section \<open>The errors the encoding names\<close>

text \<open>
  The two enums belong to the Solana SDK.  The model has the variants the arms of
  \<open>encode_instruction_error\<close> (an exhaustive match) and \<open>encode_tx_error\<close> name, prefixed
  \<open>IE_\<close> and \<open>TE_\<close>; \<open>TE_Other\<close> carries, at a type the model leaves open, whatever
  variant falls to the wildcard arm of \<open>encode_tx_error\<close>.
\<close>

datatype instruction_error =
    IE_GenericError
  | IE_InvalidArgument
  | IE_InvalidInstructionData
  | IE_InvalidAccountData
  | IE_AccountDataTooSmall
  | IE_InsufficientFunds
  | IE_IncorrectProgramId
  | IE_MissingRequiredSignature
  | IE_AccountAlreadyInitialized
  | IE_UninitializedAccount
  | IE_UnbalancedInstruction
  | IE_ModifiedProgramId
  | IE_ExternalAccountLamportSpend
  | IE_ExternalAccountDataModified
  | IE_ReadonlyLamportChange
  | IE_ReadonlyDataModified
  | IE_DuplicateAccountIndex
  | IE_ExecutableModified
  | IE_RentEpochModified
  | IE_NotEnoughAccountKeys
  | IE_AccountDataSizeChanged
  | IE_AccountNotExecutable
  | IE_AccountBorrowFailed
  | IE_AccountBorrowOutstanding
  | IE_DuplicateAccountOutOfSync
  | IE_Custom u32
  | IE_InvalidError
  | IE_ExecutableDataModified
  | IE_ExecutableLamportChange
  | IE_ExecutableAccountNotRentExempt
  | IE_UnsupportedProgramId
  | IE_CallDepth
  | IE_MissingAccount
  | IE_ReentrancyNotAllowed
  | IE_MaxSeedLengthExceeded
  | IE_InvalidSeeds
  | IE_InvalidRealloc
  | IE_ComputationalBudgetExceeded
  | IE_PrivilegeEscalation
  | IE_ProgramEnvironmentSetupFailure
  | IE_ProgramFailedToComplete
  | IE_ProgramFailedToCompile
  | IE_Immutable
  | IE_IncorrectAuthority
  | IE_BorshIoError
  | IE_AccountNotRentExempt
  | IE_InvalidAccountOwner
  | IE_ArithmeticOverflow
  | IE_UnsupportedSysvar
  | IE_IllegalOwner
  | IE_MaxAccountsDataAllocationsExceeded
  | IE_MaxAccountsExceeded
  | IE_MaxInstructionTraceLengthExceeded
  | IE_BuiltinProgramsMustConsumeComputeUnits

datatype 'o transaction_error =
    TE_AccountInUse
  | TE_AccountLoadedTwice
  | TE_AccountNotFound
  | TE_ProgramAccountNotFound
  | TE_InsufficientFundsForFee
  | TE_InvalidAccountForFee
  | TE_AlreadyProcessed
  | TE_BlockhashNotFound
  | TE_InstructionError u8 instruction_error
  | TE_CallChainTooDeep
  | TE_MissingSignatureForFee
  | TE_InvalidAccountIndex
  | TE_SignatureFailure
  | TE_InvalidProgramForExecution
  | TE_SanitizeFailure
  | TE_ClusterMaintenance
  | TE_AccountBorrowOutstanding
  | TE_WouldExceedMaxBlockCostLimit
  | TE_UnsupportedVersion
  | TE_InvalidWritableAccount
  | TE_WouldExceedMaxAccountCostLimit
  | TE_WouldExceedAccountDataBlockLimit
  | TE_TooManyAccountLocks
  | TE_AddressLookupTableNotFound
  | TE_InvalidAddressLookupTableOwner
  | TE_InvalidAddressLookupTableData
  | TE_InvalidAddressLookupTableIndex
  | TE_InvalidRentPayingAccount
  | TE_WouldExceedMaxVoteCostLimit
  | TE_WouldExceedAccountDataTotalLimit
  | TE_DuplicateInstruction u8
  | TE_InsufficientFundsForRent u8
  | TE_MaxLoadedAccountsDataSizeExceeded
  | TE_InvalidLoadedAccountsDataSizeLimit
  | TE_ResanitizationNeeded
  | TE_ProgramExecutionTemporarilyRestricted u8
  | TE_UnbalancedTransaction
  | TE_ProgramCacheHitMaxLimit
  | TE_CommitCancelled
  | TE_Other 'o

section \<open>Encoding\<close>

primrec encode_instruction_error :: "instruction_error \<Rightarrow> u8 \<times> u32" where
  "encode_instruction_error IE_GenericError = (0, 0)"
| "encode_instruction_error IE_InvalidArgument = (1, 0)"
| "encode_instruction_error IE_InvalidInstructionData = (2, 0)"
| "encode_instruction_error IE_InvalidAccountData = (3, 0)"
| "encode_instruction_error IE_AccountDataTooSmall = (4, 0)"
| "encode_instruction_error IE_InsufficientFunds = (5, 0)"
| "encode_instruction_error IE_IncorrectProgramId = (6, 0)"
| "encode_instruction_error IE_MissingRequiredSignature = (7, 0)"
| "encode_instruction_error IE_AccountAlreadyInitialized = (8, 0)"
| "encode_instruction_error IE_UninitializedAccount = (9, 0)"
| "encode_instruction_error IE_UnbalancedInstruction = (10, 0)"
| "encode_instruction_error IE_ModifiedProgramId = (11, 0)"
| "encode_instruction_error IE_ExternalAccountLamportSpend = (12, 0)"
| "encode_instruction_error IE_ExternalAccountDataModified = (13, 0)"
| "encode_instruction_error IE_ReadonlyLamportChange = (14, 0)"
| "encode_instruction_error IE_ReadonlyDataModified = (15, 0)"
| "encode_instruction_error IE_DuplicateAccountIndex = (16, 0)"
| "encode_instruction_error IE_ExecutableModified = (17, 0)"
| "encode_instruction_error IE_RentEpochModified = (18, 0)"
| "encode_instruction_error IE_NotEnoughAccountKeys = (19, 0)"
| "encode_instruction_error IE_AccountDataSizeChanged = (20, 0)"
| "encode_instruction_error IE_AccountNotExecutable = (21, 0)"
| "encode_instruction_error IE_AccountBorrowFailed = (22, 0)"
| "encode_instruction_error IE_AccountBorrowOutstanding = (23, 0)"
| "encode_instruction_error IE_DuplicateAccountOutOfSync = (24, 0)"
| "encode_instruction_error (IE_Custom code) = (25, code)"
| "encode_instruction_error IE_InvalidError = (26, 0)"
| "encode_instruction_error IE_ExecutableDataModified = (27, 0)"
| "encode_instruction_error IE_ExecutableLamportChange = (28, 0)"
| "encode_instruction_error IE_ExecutableAccountNotRentExempt = (29, 0)"
| "encode_instruction_error IE_UnsupportedProgramId = (30, 0)"
| "encode_instruction_error IE_CallDepth = (31, 0)"
| "encode_instruction_error IE_MissingAccount = (32, 0)"
| "encode_instruction_error IE_ReentrancyNotAllowed = (33, 0)"
| "encode_instruction_error IE_MaxSeedLengthExceeded = (34, 0)"
| "encode_instruction_error IE_InvalidSeeds = (35, 0)"
| "encode_instruction_error IE_InvalidRealloc = (36, 0)"
| "encode_instruction_error IE_ComputationalBudgetExceeded = (37, 0)"
| "encode_instruction_error IE_PrivilegeEscalation = (38, 0)"
| "encode_instruction_error IE_ProgramEnvironmentSetupFailure = (39, 0)"
| "encode_instruction_error IE_ProgramFailedToComplete = (40, 0)"
| "encode_instruction_error IE_ProgramFailedToCompile = (41, 0)"
| "encode_instruction_error IE_Immutable = (42, 0)"
| "encode_instruction_error IE_IncorrectAuthority = (43, 0)"
| "encode_instruction_error IE_BorshIoError = (44, 0)"
| "encode_instruction_error IE_AccountNotRentExempt = (45, 0)"
| "encode_instruction_error IE_InvalidAccountOwner = (46, 0)"
| "encode_instruction_error IE_ArithmeticOverflow = (47, 0)"
| "encode_instruction_error IE_UnsupportedSysvar = (48, 0)"
| "encode_instruction_error IE_IllegalOwner = (49, 0)"
| "encode_instruction_error IE_MaxAccountsDataAllocationsExceeded = (50, 0)"
| "encode_instruction_error IE_MaxAccountsExceeded = (51, 0)"
| "encode_instruction_error IE_MaxInstructionTraceLengthExceeded = (52, 0)"
| "encode_instruction_error IE_BuiltinProgramsMustConsumeComputeUnits = (53, 0)"

primrec encode_tx_error :: "'o transaction_error \<Rightarrow> u8 \<times> u8 \<times> u8 \<times> u32" where
  "encode_tx_error TE_AccountInUse = (0, 0, 0, 0)"
| "encode_tx_error TE_AccountLoadedTwice = (1, 0, 0, 0)"
| "encode_tx_error TE_AccountNotFound = (2, 0, 0, 0)"
| "encode_tx_error TE_ProgramAccountNotFound = (3, 0, 0, 0)"
| "encode_tx_error TE_InsufficientFundsForFee = (4, 0, 0, 0)"
| "encode_tx_error TE_InvalidAccountForFee = (5, 0, 0, 0)"
| "encode_tx_error TE_AlreadyProcessed = (6, 0, 0, 0)"
| "encode_tx_error TE_BlockhashNotFound = (7, 0, 0, 0)"
| "encode_tx_error (TE_InstructionError ix ie) =
     (let (ie_disc, custom) = encode_instruction_error ie in (8, ix, ie_disc, custom))"
| "encode_tx_error TE_CallChainTooDeep = (9, 0, 0, 0)"
| "encode_tx_error TE_MissingSignatureForFee = (10, 0, 0, 0)"
| "encode_tx_error TE_InvalidAccountIndex = (11, 0, 0, 0)"
| "encode_tx_error TE_SignatureFailure = (12, 0, 0, 0)"
| "encode_tx_error TE_InvalidProgramForExecution = (13, 0, 0, 0)"
| "encode_tx_error TE_SanitizeFailure = (14, 0, 0, 0)"
| "encode_tx_error TE_ClusterMaintenance = (15, 0, 0, 0)"
| "encode_tx_error TE_AccountBorrowOutstanding = (16, 0, 0, 0)"
| "encode_tx_error TE_WouldExceedMaxBlockCostLimit = (17, 0, 0, 0)"
| "encode_tx_error TE_UnsupportedVersion = (18, 0, 0, 0)"
| "encode_tx_error TE_InvalidWritableAccount = (19, 0, 0, 0)"
| "encode_tx_error TE_WouldExceedMaxAccountCostLimit = (20, 0, 0, 0)"
| "encode_tx_error TE_WouldExceedAccountDataBlockLimit = (21, 0, 0, 0)"
| "encode_tx_error TE_TooManyAccountLocks = (22, 0, 0, 0)"
| "encode_tx_error TE_AddressLookupTableNotFound = (23, 0, 0, 0)"
| "encode_tx_error TE_InvalidAddressLookupTableOwner = (24, 0, 0, 0)"
| "encode_tx_error TE_InvalidAddressLookupTableData = (25, 0, 0, 0)"
| "encode_tx_error TE_InvalidAddressLookupTableIndex = (26, 0, 0, 0)"
| "encode_tx_error TE_InvalidRentPayingAccount = (27, 0, 0, 0)"
| "encode_tx_error TE_WouldExceedMaxVoteCostLimit = (28, 0, 0, 0)"
| "encode_tx_error TE_WouldExceedAccountDataTotalLimit = (29, 0, 0, 0)"
| "encode_tx_error (TE_DuplicateInstruction ix) = (30, ix, 0, 0)"
| "encode_tx_error (TE_InsufficientFundsForRent ix) = (31, ix, 0, 0)"
| "encode_tx_error TE_MaxLoadedAccountsDataSizeExceeded = (32, 0, 0, 0)"
| "encode_tx_error TE_InvalidLoadedAccountsDataSizeLimit = (33, 0, 0, 0)"
| "encode_tx_error TE_ResanitizationNeeded = (34, 0, 0, 0)"
| "encode_tx_error (TE_ProgramExecutionTemporarilyRestricted ix) = (35, ix, 0, 0)"
| "encode_tx_error TE_UnbalancedTransaction = (36, 0, 0, 0)"
| "encode_tx_error TE_ProgramCacheHitMaxLimit = (37, 0, 0, 0)"
| "encode_tx_error TE_CommitCancelled = (38, 0, 0, 0)"
| "encode_tx_error (TE_Other x) = (255, 0, 0, 0)"

section \<open>Decoding\<close>

text \<open>
  A Rust \<open>match\<close> on a discriminant is its arms in order; a discriminant with no arm
  falls to the wildcard, which returns \<open>OutofRange\<close>.
\<close>

definition instruction_error_arms :: "u32 \<Rightarrow> (u8 \<times> instruction_error) list" where
  "instruction_error_arms custom =
    [(0, IE_GenericError),
     (1, IE_InvalidArgument),
     (2, IE_InvalidInstructionData),
     (3, IE_InvalidAccountData),
     (4, IE_AccountDataTooSmall),
     (5, IE_InsufficientFunds),
     (6, IE_IncorrectProgramId),
     (7, IE_MissingRequiredSignature),
     (8, IE_AccountAlreadyInitialized),
     (9, IE_UninitializedAccount),
     (10, IE_UnbalancedInstruction),
     (11, IE_ModifiedProgramId),
     (12, IE_ExternalAccountLamportSpend),
     (13, IE_ExternalAccountDataModified),
     (14, IE_ReadonlyLamportChange),
     (15, IE_ReadonlyDataModified),
     (16, IE_DuplicateAccountIndex),
     (17, IE_ExecutableModified),
     (18, IE_RentEpochModified),
     (19, IE_NotEnoughAccountKeys),
     (20, IE_AccountDataSizeChanged),
     (21, IE_AccountNotExecutable),
     (22, IE_AccountBorrowFailed),
     (23, IE_AccountBorrowOutstanding),
     (24, IE_DuplicateAccountOutOfSync),
     (25, IE_Custom custom),
     (26, IE_InvalidError),
     (27, IE_ExecutableDataModified),
     (28, IE_ExecutableLamportChange),
     (29, IE_ExecutableAccountNotRentExempt),
     (30, IE_UnsupportedProgramId),
     (31, IE_CallDepth),
     (32, IE_MissingAccount),
     (33, IE_ReentrancyNotAllowed),
     (34, IE_MaxSeedLengthExceeded),
     (35, IE_InvalidSeeds),
     (36, IE_InvalidRealloc),
     (37, IE_ComputationalBudgetExceeded),
     (38, IE_PrivilegeEscalation),
     (39, IE_ProgramEnvironmentSetupFailure),
     (40, IE_ProgramFailedToComplete),
     (41, IE_ProgramFailedToCompile),
     (42, IE_Immutable),
     (43, IE_IncorrectAuthority),
     (44, IE_BorshIoError),
     (45, IE_AccountNotRentExempt),
     (46, IE_InvalidAccountOwner),
     (47, IE_ArithmeticOverflow),
     (48, IE_UnsupportedSysvar),
     (49, IE_IllegalOwner),
     (50, IE_MaxAccountsDataAllocationsExceeded),
     (51, IE_MaxAccountsExceeded),
     (52, IE_MaxInstructionTraceLengthExceeded),
     (53, IE_BuiltinProgramsMustConsumeComputeUnits)]"

definition decode_instruction_error :: "u8 \<Rightarrow> u32 \<Rightarrow> instruction_error result" where
  "decode_instruction_error ie_disc custom =
     ok_or (map_of (instruction_error_arms custom) ie_disc) OutofRange"

definition tx_error_arms :: "u8 \<Rightarrow> u8 \<Rightarrow> u32 \<Rightarrow> (u8 \<times> 'o transaction_error result) list" where
  "tx_error_arms aux ie_disc custom =
    [(0, Inr TE_AccountInUse),
     (1, Inr TE_AccountLoadedTwice),
     (2, Inr TE_AccountNotFound),
     (3, Inr TE_ProgramAccountNotFound),
     (4, Inr TE_InsufficientFundsForFee),
     (5, Inr TE_InvalidAccountForFee),
     (6, Inr TE_AlreadyProcessed),
     (7, Inr TE_BlockhashNotFound),
     (8, rbind (decode_instruction_error ie_disc custom)
            (\<lambda>ie. Inr (TE_InstructionError aux ie))),
     (9, Inr TE_CallChainTooDeep),
     (10, Inr TE_MissingSignatureForFee),
     (11, Inr TE_InvalidAccountIndex),
     (12, Inr TE_SignatureFailure),
     (13, Inr TE_InvalidProgramForExecution),
     (14, Inr TE_SanitizeFailure),
     (15, Inr TE_ClusterMaintenance),
     (16, Inr TE_AccountBorrowOutstanding),
     (17, Inr TE_WouldExceedMaxBlockCostLimit),
     (18, Inr TE_UnsupportedVersion),
     (19, Inr TE_InvalidWritableAccount),
     (20, Inr TE_WouldExceedMaxAccountCostLimit),
     (21, Inr TE_WouldExceedAccountDataBlockLimit),
     (22, Inr TE_TooManyAccountLocks),
     (23, Inr TE_AddressLookupTableNotFound),
     (24, Inr TE_InvalidAddressLookupTableOwner),
     (25, Inr TE_InvalidAddressLookupTableData),
     (26, Inr TE_InvalidAddressLookupTableIndex),
     (27, Inr TE_InvalidRentPayingAccount),
     (28, Inr TE_WouldExceedMaxVoteCostLimit),
     (29, Inr TE_WouldExceedAccountDataTotalLimit),
     (30, Inr (TE_DuplicateInstruction aux)),
     (31, Inr (TE_InsufficientFundsForRent aux)),
     (32, Inr TE_MaxLoadedAccountsDataSizeExceeded),
     (33, Inr TE_InvalidLoadedAccountsDataSizeLimit),
     (34, Inr TE_ResanitizationNeeded),
     (35, Inr (TE_ProgramExecutionTemporarilyRestricted aux)),
     (36, Inr TE_UnbalancedTransaction),
     (37, Inr TE_ProgramCacheHitMaxLimit),
     (38, Inr TE_CommitCancelled)]"

definition decode_tx_error ::
    "u8 \<Rightarrow> u8 \<Rightarrow> u8 \<Rightarrow> u32 \<Rightarrow> 'o transaction_error result" where
  "decode_tx_error tx_disc aux ie_disc custom =
     (case map_of (tx_error_arms aux ie_disc custom) tx_disc of
        None \<Rightarrow> Inl OutofRange
      | Some r \<Rightarrow> r)"

section \<open>The 16-byte buffer\<close>

type_synonym slot = u64

text \<open>\<open>Result<Slot, TransactionError>\<close>: \<open>Inl\<close> is \<open>Err\<close>.\<close>

type_synonym 'o tx_outcome = "'o transaction_error + slot"

definition result_to_bytes :: "'o tx_outcome \<Rightarrow> u8 list exec" where
  "result_to_bytes result = (case result of
     Inr slot \<Rightarrow> do {
       buf \<leftarrow> store_at (replicate 16 0) 0 0;
       copy_into buf 8 16 (to_le_bytes slot)
     }
   | Inl e \<Rightarrow> do {
       buf \<leftarrow> store_at (replicate 16 0) 0 1;
       let (tx_disc, aux, ie_disc, custom) = encode_tx_error e;
       buf \<leftarrow> store_at buf 1 tx_disc;
       buf \<leftarrow> store_at buf 2 ie_disc;
       buf \<leftarrow> store_at buf 3 aux;
       copy_into buf 4 8 (to_le_bytes custom)
     })"

definition result_from_bytes :: "u8 list \<Rightarrow> 'o tx_outcome result exec" where
  "result_from_bytes buf = do {
     tag \<leftarrow> index buf 0;
     if tag = 0 then do {
       s \<leftarrow> slice buf 8 16;
       ret (Inr (Inr (from_le_bytes s)))
     } else if tag = 1 then do {
       tx_disc \<leftarrow> index buf 1;
       ie_disc \<leftarrow> index buf 2;
       aux \<leftarrow> index buf 3;
       c \<leftarrow> slice buf 4 8;
       ret (rbind (decode_tx_error tx_disc aux ie_disc (from_le_bytes c)) (\<lambda>e. Inr (Inl e)))
     } else ret (Inl OutofRange)
   }"

section \<open>Discriminants\<close>

lemma instruction_error_arms_fst:
  "map fst (instruction_error_arms custom) = map word_of_nat [0..<54]"
  by (simp add: instruction_error_arms_def upt_rec [of 0] upt_rec [of "Suc 0"] flip: numeral_2_eq_2)

lemma tx_error_arms_fst:
  "map fst (tx_error_arms aux ie_disc custom) = map word_of_nat [0..<39]"
  by (simp add: tx_error_arms_def upt_rec [of 0] upt_rec [of "Suc 0"] flip: numeral_2_eq_2)

lemma decode_instruction_error_Inr:
  "(\<exists>ie. decode_instruction_error ie_disc custom = Inr ie) \<longleftrightarrow> unat ie_disc < 54"
  using map_of_upt_dom [OF instruction_error_arms_fst [of custom], of ie_disc]
  by (cases "map_of (instruction_error_arms custom) ie_disc")
     (auto simp: decode_instruction_error_def)

lemma decode_instruction_error_encode:
  "decode_instruction_error (fst (encode_instruction_error ie)) (snd (encode_instruction_error ie)) = Inr ie"
  by (cases ie) (simp_all add: decode_instruction_error_def instruction_error_arms_def)

interpretation ie_codec: discriminant_codec encode_instruction_error
    "\<lambda>(ie_disc, custom). decode_instruction_error ie_disc custom" "\<lambda>_. True"
  by unfold_locales (simp_all add: case_prod_unfold decode_instruction_error_encode)

text \<open>The errors with a discriminant of their own, which the encoding can carry.\<close>

primrec listed_outcome :: "'o tx_outcome \<Rightarrow> bool" where
  "listed_outcome (Inl e) = (case e of TE_Other _ \<Rightarrow> False | _ \<Rightarrow> True)"
| "listed_outcome (Inr slot) = True"

lemma decode_tx_error_encode:
  assumes "encode_tx_error e = (tx_disc, aux, ie_disc, custom)" and "listed_outcome (Inl e)"
  shows "decode_tx_error tx_disc aux ie_disc custom = Inr e"
proof -
  have ie: "decode_instruction_error d c = Inr x" if "encode_instruction_error x = (d, c)" for x d c
    using decode_instruction_error_encode [of x] that by simp
  show ?thesis
    using assms by (cases e) (auto simp: decode_tx_error_def tx_error_arms_def split_beta ie)
qed

lemma tx_error_arms_Inr:
  "\<forall>(d, r) \<in> set (tx_error_arms aux ie_disc custom). d \<noteq> 8 \<longrightarrow> (\<exists>e. r = Inr e)"
  by (simp add: tx_error_arms_def)

lemma decode_tx_error_Inr:
  "(\<exists>e. decode_tx_error tx_disc aux ie_disc custom = Inr (e :: 'o transaction_error)) \<longleftrightarrow>
   unat tx_disc < 39 \<and> (tx_disc = 8 \<longrightarrow> unat ie_disc < 54)"
proof (cases "tx_disc = 8")
  case True
  have "map_of (tx_error_arms aux ie_disc custom :: (u8 \<times> 'o transaction_error result) list) 8 =
      Some (rbind (decode_instruction_error ie_disc custom) (\<lambda>ie. Inr (TE_InstructionError aux ie)))"
    by (simp add: tx_error_arms_def)
  with True decode_instruction_error_Inr [of ie_disc custom] show ?thesis
    by (auto simp: decode_tx_error_def rbind_eq_Inr)
next
  case False
  let ?arms = "tx_error_arms aux ie_disc custom :: (u8 \<times> 'o transaction_error result) list"
  have dom: "map_of ?arms tx_disc = None \<longleftrightarrow> 39 \<le> unat tx_disc"
    by (rule map_of_upt_dom [OF tx_error_arms_fst]) simp
  show ?thesis
  proof (cases "map_of ?arms tx_disc")
    case None
    with dom show ?thesis by (simp add: decode_tx_error_def)
  next
    case (Some r)
    then have "(tx_disc, r) \<in> set ?arms" by (rule map_of_SomeD)
    with False tx_error_arms_Inr [of aux ie_disc custom] obtain e where "r = Inr e" by blast
    with Some dom False show ?thesis by (simp add: decode_tx_error_def)
  qed
qed

lemma decode_tx_error_Inl: "decode_tx_error tx_disc aux ie_disc custom = Inl e \<Longrightarrow> e = OutofRange"
proof -
  have arms: "\<forall>(d, r) \<in> set (tx_error_arms aux ie_disc custom). r = Inl e \<longrightarrow> e = OutofRange"
    by (simp add: tx_error_arms_def rbind_eq_Inl decode_instruction_error_def ok_or_def
        split: option.split)
  show "decode_tx_error tx_disc aux ie_disc custom = Inl e \<Longrightarrow> e = OutofRange"
    using arms by (auto simp: decode_tx_error_def split: option.splits dest!: map_of_SomeD)
qed

lemma decode_tx_error_listed:
  "decode_tx_error tx_disc aux ie_disc custom = Inr e \<Longrightarrow> listed_outcome (Inl e)"
proof -
  have arms: "\<forall>(d, r) \<in> set (tx_error_arms aux ie_disc custom). r = Inr e \<longrightarrow> listed_outcome (Inl e)"
    by (auto simp: tx_error_arms_def rbind_eq_Inr)
  show "decode_tx_error tx_disc aux ie_disc custom = Inr e \<Longrightarrow> listed_outcome (Inl e)"
    using arms by (auto simp: decode_tx_error_def split: option.splits dest!: map_of_SomeD)
qed

interpretation te_codec: discriminant_codec encode_tx_error
    "\<lambda>(tx_disc, aux, ie_disc, custom). decode_tx_error tx_disc aux ie_disc custom"
    "\<lambda>e. listed_outcome (Inl e)"
proof unfold_locales
  fix e :: "'o transaction_error"
  assume "listed_outcome (Inl e)"
  then show "(case encode_tx_error e of (tx_disc, aux, ie_disc, custom) \<Rightarrow>
      decode_tx_error tx_disc aux ie_disc custom) = Inr e"
    using decode_tx_error_encode by (auto split: prod.split)
qed (auto dest: decode_tx_error_listed split: prod.splits)

section \<open>Properties of the encoding\<close>

lemma replicate_zeros:
  "replicate 16 (0::u8) = [0, 0, 0, 0, 0, 0, 0, 0, 0, 0, 0, 0, 0, 0, 0, 0]"
  "replicate 8 (0::u8) = [0, 0, 0, 0, 0, 0, 0, 0]"
  by (simp_all add: numeral_eq_Suc)

lemma result_to_bytes_Inr:
  "result_to_bytes (Inr slot) = Some (replicate 8 0 @ to_le_bytes slot)"
  by (simp add: result_to_bytes_def copy_into_def codec_simps store_at_def replicate_zeros)

lemma result_to_bytes_Inl:
  assumes "encode_tx_error e = (tx_disc, aux, ie_disc, custom)"
  shows "result_to_bytes (Inl e) =
    Some ([1, tx_disc, ie_disc, aux] @ to_le_bytes custom @ replicate 8 0)"
  by (simp add: result_to_bytes_def assms copy_into_def codec_simps store_at_def replicate_zeros)

lemma result_bytes_roundtrip_aux:
  assumes "listed_outcome r"
  shows "\<exists>buf. result_to_bytes r = Some buf \<and> length buf = 16 \<and>
    result_from_bytes buf = Some (Inr r)"
proof (cases r)
  case (Inr slot)
  then show ?thesis
    by (simp add: result_to_bytes_Inr result_from_bytes_def index_def slice_def codec_simps
        replicate_zeros)
next
  case (Inl e)
  obtain tx_disc aux ie_disc custom where enc: "encode_tx_error e = (tx_disc, aux, ie_disc, custom)"
    by (metis prod_cases4)
  have "decode_tx_error tx_disc aux ie_disc custom = Inr e"
    using decode_tx_error_encode [OF enc] assms Inl by simp
  then show ?thesis
    using Inl by (simp add: result_to_bytes_Inl [OF enc] result_from_bytes_def index_def slice_def
        codec_simps replicate_zeros)
qed

text \<open>
  C24: Every outcome with a discriminant of its own survives the 16-byte encoding: encoding
  never panics, yields 16 bytes, and decoding those bytes returns the same outcome.
\<close>

theorem result_bytes_roundtrip:
  assumes "listed_outcome r"
  shows "\<exists>buf. result_to_bytes r = Some buf \<and> length buf = 16 \<and>
    result_from_bytes buf = Some (Inr r)"
  using assms by (rule result_bytes_roundtrip_aux)

theorem result_bytes_roundtrip_witness:
  "listed_outcome (Inl (TE_InstructionError 3 (IE_Custom 6001)) :: unit tx_outcome) \<and>
   (\<exists>buf. result_to_bytes (Inl (TE_InstructionError 3 (IE_Custom 6001)) :: unit tx_outcome) = Some buf \<and>
      length buf = 16 \<and>
      result_from_bytes buf = Some (Inr (Inl (TE_InstructionError 3 (IE_Custom 6001)) :: unit tx_outcome)))"
  using result_bytes_roundtrip [of "Inl (TE_InstructionError 3 (IE_Custom 6001)) :: unit tx_outcome"]
  by simp

text \<open>
  An outcome whose error has no discriminant of its own is written as one that no reader
  accepts: decoding what was encoded is \<open>OutofRange\<close>, never another outcome.
\<close>

lemma unlisted_outcome_rejected:
  "\<exists>buf. result_to_bytes (Inl (TE_Other x)) = Some buf \<and> length buf = 16 \<and>
     result_from_bytes buf = Some (Inl OutofRange :: 'o tx_outcome result)"
  by (simp add: result_to_bytes_Inl [where tx_disc = 255] result_from_bytes_def index_def slice_def
      codec_simps replicate_zeros decode_tx_error_def tx_error_arms_def)

text \<open>
  C39: Decoding 16 arbitrary bytes never panics, and it accepts exactly the buffers with tag
  0, or tag 1 and a transaction discriminant below 39 whose instruction discriminant (when the
  first is 8) is below 54; every other buffer is \<open>OutofRange\<close>.
\<close>

theorem result_from_bytes_accepts:
  assumes "length buf = 16"
  shows "\<exists>r :: 'o tx_outcome result. result_from_bytes buf = Some r \<and>
    ((\<exists>x. r = Inr x) \<or> r = Inl OutofRange) \<and>
    ((\<exists>x. r = Inr x) \<longleftrightarrow>
      buf ! 0 = 0 \<or> buf ! 0 = 1 \<and> unat (buf ! 1) < 39 \<and> (buf ! 1 = 8 \<longrightarrow> unat (buf ! 2) < 54))"
proof -
  define d :: "'o transaction_error result" where
    "d = decode_tx_error (buf ! 1) (buf ! 3) (buf ! 2) (from_le_bytes (take 4 (drop 4 buf)))"
  let ?accepts = "unat (buf ! 1) < 39 \<and> (buf ! 1 = 8 \<longrightarrow> unat (buf ! 2) < 54)"
  have val: "result_from_bytes buf = Some
      (if buf ! 0 = 0 then Inr (Inr (from_le_bytes (take 8 (drop 8 buf))))
       else if buf ! 0 = 1 then rbind d (\<lambda>e. Inr (Inl e)) else Inl OutofRange)"
    using assms by (simp add: result_from_bytes_def index_def slice_def d_def)
  have acc: "(\<exists>e. d = Inr e) \<longleftrightarrow> ?accepts"
    unfolding d_def by (rule decode_tx_error_Inr)
  have err: "d = Inl e \<Longrightarrow> e = OutofRange" for e
    unfolding d_def by (rule decode_tx_error_Inl)
  show ?thesis
    unfolding val acc [symmetric] using err by (cases d) (auto simp del: unsigned_less)
qed

theorem result_from_bytes_accepts_witness:
  "length (1 # 38 # replicate 14 0 :: u8 list) = 16 \<and>
   (\<exists>r :: unit tx_outcome result. result_from_bytes (1 # 38 # replicate 14 0) = Some r \<and> (\<exists>x. r = Inr x))"
  using result_from_bytes_accepts [of "1 # 38 # replicate 14 0", where 'o = unit] by auto

text \<open>
  What decodes is an outcome the encoding can carry, so encoding it again gives bytes that
  decode to it: no reader is ever handed an outcome that a forwarder would corrupt.
\<close>

lemma decoded_outcome_reencodes:
  assumes "result_from_bytes buf = Some (Inr r)"
  shows "listed_outcome r \<and>
    (\<exists>buf'. result_to_bytes r = Some buf' \<and> result_from_bytes buf' = Some (Inr r))"
proof -
  have "listed_outcome r"
    using assms by (auto simp: result_from_bytes_def Option.bind_eq_Some_conv rbind_eq_Inr
        dest: decode_tx_error_listed split: if_splits)
  then show ?thesis using result_bytes_roundtrip_aux by blast
qed

lemma decoded_outcome_reencodes_witness:
  "result_from_bytes [1, 8, 25, 3, 113, 23, 0, 0, 9, 9, 9, 9, 9, 9, 9, 9] =
     Some (Inr (Inl (TE_InstructionError 3 (IE_Custom 6001)) :: unit tx_outcome)) \<and>
   (\<exists>buf'. result_to_bytes (Inl (TE_InstructionError 3 (IE_Custom 6001)) :: unit tx_outcome) = Some buf' \<and>
      result_from_bytes buf' = Some (Inr (Inl (TE_InstructionError 3 (IE_Custom 6001)) :: unit tx_outcome)))"
proof -
  have "result_from_bytes [1, 8, 25, 3, 113, 23, 0, 0, 9, 9, 9, 9, 9, 9, 9, 9] =
     Some (Inr (Inl (TE_InstructionError 3 (IE_Custom 6001)) :: unit tx_outcome))"
    by (simp add: result_from_bytes_def index_def slice_def from_le_bytes_def decode_tx_error_def
        tx_error_arms_def decode_instruction_error_def instruction_error_arms_def)
  with decoded_outcome_reencodes [OF this] show ?thesis by simp
qed

end
