(* ===== verification/Slot_Status.thy ===== *)
theory Slot_Status
  imports Errors
begin

text \<open>
  \<open>src/store.rs\<close>: the one-byte wire value of a slot's status
  (\<open>convert_slot_status_from\<close>, \<open>convert_slot_status_to\<close>).  The variants are those the
  exhaustive match of \<open>convert_slot_status_from\<close> names; the enum itself is the Geyser
  plugin interface's.
\<close>

datatype slot_status =
    Processed
  | Rooted
  | Confirmed
  | FirstShredReceived
  | Completed
  | CreatedBank
  | Dead string

fun convert_slot_status_from :: "slot_status \<Rightarrow> u8" where
  "convert_slot_status_from Processed = 1"
| "convert_slot_status_from Rooted = 2"
| "convert_slot_status_from Confirmed = 3"
| "convert_slot_status_from FirstShredReceived = 4"
| "convert_slot_status_from Completed = 5"
| "convert_slot_status_from CreatedBank = 6"
| "convert_slot_status_from (Dead _) = 7"

definition slot_status_arms :: "(u8 \<times> slot_status) list" where
  "slot_status_arms =
    [(1, Processed),
     (2, Rooted),
     (3, Confirmed),
     (4, FirstShredReceived),
     (5, Completed),
     (6, CreatedBank),
     (7, Dead ''blank'')]"

definition convert_slot_status_to :: "u8 \<Rightarrow> slot_status result" where
  "convert_slot_status_to statusu8 = ok_or (map_of slot_status_arms statusu8) OutofRange"

text \<open>The wire value does not carry the reason a slot died: it comes back as \<open>''blank''\<close>.\<close>

fun forget_reason :: "slot_status \<Rightarrow> slot_status" where
  "forget_reason (Dead _) = Dead ''blank''"
| "forget_reason s = s"

lemma convert_slot_status_to_from:
  "convert_slot_status_to (convert_slot_status_from s) = Inr (forget_reason s)"
  by (cases s) (simp_all add: convert_slot_status_to_def slot_status_arms_def)

lemma convert_slot_status_to_Inr:
  "convert_slot_status_to b = Inr s \<Longrightarrow> convert_slot_status_from s = b \<and> forget_reason s = s"
  by (auto simp: convert_slot_status_to_def slot_status_arms_def ok_or_def split: if_splits)

interpretation slot_status_codec: discriminant_codec
    convert_slot_status_from convert_slot_status_to "\<lambda>s. forget_reason s = s"
  by unfold_locales (auto simp: convert_slot_status_to_from dest: convert_slot_status_to_Inr)

lemma convert_slot_status_to_total:
  "(\<exists>s. convert_slot_status_to b = Inr s) \<longleftrightarrow> 1 \<le> b \<and> b \<le> 7"
proof -
  have "map_of ((0, Dead ''blank'') # slot_status_arms) b = None \<longleftrightarrow> 8 \<le> unat b"
    by (rule map_of_upt_dom) (simp_all add: slot_status_arms_def upt_rec [of 0] upt_rec [of "Suc 0"]
        flip: numeral_2_eq_2)
  moreover have "map_of slot_status_arms 0 = None"
    by (simp add: slot_status_arms_def)
  moreover have "b \<le> 7 \<longleftrightarrow> \<not> 8 \<le> unat b" "1 \<le> b \<longleftrightarrow> b \<noteq> 0"
    by (auto simp: word_le_nat_alt Suc_le_eq unat_gt_0)
  ultimately show ?thesis
    by (cases "map_of slot_status_arms b") (auto simp: convert_slot_status_to_def split: if_splits)
qed

text \<open>
  A slot status read back from its wire byte is the status written, up to the reason of a
  dead slot, which is always read as \<open>''blank''\<close>; exactly the bytes 1 to 7 are accepted, every
  other is \<open>OutofRange\<close>, and what is accepted is written back to the same byte.
\<close>

lemma slot_status_roundtrip:
  "convert_slot_status_to (convert_slot_status_from s) = Inr (forget_reason s) \<and>
   (convert_slot_status_to b = Inl OutofRange \<longleftrightarrow> \<not> (1 \<le> b \<and> b \<le> 7)) \<and>
   (\<forall>s'. convert_slot_status_to b = Inr s' \<longrightarrow> convert_slot_status_from s' = b)"
proof -
  have "convert_slot_status_to b = Inl e \<Longrightarrow> e = OutofRange" for e
    by (simp add: convert_slot_status_to_def ok_or_def split: option.splits)
  then show ?thesis
    using convert_slot_status_to_total [of b]
    by (cases "convert_slot_status_to b")
       (auto simp: convert_slot_status_to_from dest: convert_slot_status_to_Inr)
qed

lemma slot_status_roundtrip_witness:
  "convert_slot_status_to 6 = Inr CreatedBank \<and> convert_slot_status_from CreatedBank = 6 \<and>
   convert_slot_status_to (convert_slot_status_from (Dead ''fork'')) = Inr (Dead ''blank'')"
  using slot_status_roundtrip [of "Dead ''fork''" 6]
  by (simp add: convert_slot_status_to_def slot_status_arms_def)

end
