(* ===== verification/Sorted_Insert.thy ===== *)
theory Sorted_Insert
  imports Prelude
begin

text \<open>
  The standard library's \<open>binary_search\<close> and \<open>Vec::insert\<close>, as \<open>src/store.rs\<close> uses
  them to keep a transaction's account list sorted and free of duplicates, with the contract
  that makes them a set insertion.
\<close>

section \<open>Binary search\<close>

text \<open>
  The loop halves a window \<open>[base, base + n)\<close> until one element is left.
  \<open>Result<usize, usize>\<close>: \<open>Inr i\<close> is \<open>Ok(i)\<close>, found at \<open>i\<close>; \<open>Inl i\<close> is
  \<open>Err(i)\<close>, absent, to be inserted at \<open>i\<close>.
\<close>

function bs_window :: "'a::linorder list \<Rightarrow> 'a \<Rightarrow> nat \<Rightarrow> nat \<Rightarrow> nat" where
  "bs_window xs x base n =
     (if n \<le> 1 then base
      else let half = n div 2; mid = base + half
           in bs_window xs x (if x < xs ! mid then base else mid) (n - half))"
  by pat_completeness auto
termination
  by (relation "measure (\<lambda>(xs, x, base, n). n)") auto

declare bs_window.simps [simp del]

definition binary_search :: "'a::linorder list \<Rightarrow> 'a \<Rightarrow> nat + nat" where
  "binary_search xs x =
     (if xs = [] then Inl 0
      else let base = bs_window xs x 0 (length xs)
           in if xs ! base = x then Inr base
              else Inl (if xs ! base < x then base + 1 else base))"

lemma bs_window_invariant:
  assumes "sorted xs" and "base + n \<le> length xs" and "0 < n"
    and "base = 0 \<or> xs ! base \<le> x"
    and "\<forall>i. base + n \<le> i \<and> i < length xs \<longrightarrow> x < xs ! i"
  shows "bs_window xs x base n < length xs \<and>
    (bs_window xs x base n = 0 \<or> xs ! bs_window xs x base n \<le> x) \<and>
    (\<forall>i. bs_window xs x base n < i \<and> i < length xs \<longrightarrow> x < xs ! i)"
  using assms
proof (induction xs x base n rule: bs_window.induct)
  case (1 xs x base n)
  show ?case
  proof (cases "n \<le> 1")
    case True
    with "1.prems" show ?thesis by (auto simp: bs_window.simps [of xs x base n] Suc_le_eq)
  next
    case False
    let ?half = "n div 2"
    let ?base = "if x < xs ! (base + ?half) then base else base + ?half"
    have rec: "bs_window xs x base n = bs_window xs x ?base (n - ?half)"
      using False by (simp add: bs_window.simps [of xs x base n] Let_def)
    have above: "\<forall>i. ?base + (n - ?half) \<le> i \<and> i < length xs \<longrightarrow> x < xs ! i"
    proof (intro allI impI)
      fix i assume i: "?base + (n - ?half) \<le> i \<and> i < length xs"
      show "x < xs ! i"
      proof (cases "x < xs ! (base + ?half)")
        case True
        with i have "base + (n - ?half) \<le> i" by simp
        then have "base + ?half \<le> i" by presburger
        with i "1.prems"(1) have "xs ! (base + ?half) \<le> xs ! i" by (auto intro: sorted_nth_mono)
        with True show ?thesis by simp
      next
        case False
        with i "1.prems" show ?thesis by auto
      qed
    qed
    have "?base + (n - ?half) \<le> length xs" and "0 < n - ?half"
      and "?base = 0 \<or> xs ! ?base \<le> x"
      using "1.prems"(2,4) False by auto
    then show ?thesis
      unfolding rec using "1.IH" [OF False refl refl] "1.prems"(1) above by blast
  qed
qed

lemma bs_window_all:
  assumes "sorted xs" and "xs \<noteq> []"
  shows "bs_window xs x 0 (length xs) < length xs"
    and "bs_window xs x 0 (length xs) = 0 \<or> xs ! bs_window xs x 0 (length xs) \<le> x"
    and "bs_window xs x 0 (length xs) < j \<Longrightarrow> j < length xs \<Longrightarrow> x < xs ! j"
proof -
  let ?b = "bs_window xs x 0 (length xs)"
  have "?b < length xs \<and> (?b = 0 \<or> xs ! ?b \<le> x) \<and> (\<forall>i. ?b < i \<and> i < length xs \<longrightarrow> x < xs ! i)"
    by (rule bs_window_invariant) (use assms in auto)
  then show "?b < length xs" and "?b = 0 \<or> xs ! ?b \<le> x"
    and "?b < j \<Longrightarrow> j < length xs \<Longrightarrow> x < xs ! j"
    by blast+
qed

lemma binary_search_Inr: "binary_search xs x = Inr i \<Longrightarrow> sorted xs \<Longrightarrow> i < length xs \<and> xs ! i = x"
  using bs_window_all(1) [of xs x] by (auto simp: binary_search_def Let_def split: if_splits)

lemma binary_search_Inl:
  assumes "binary_search xs x = Inl i" and "sorted xs"
  shows "i \<le> length xs \<and> (\<forall>y \<in> set (take i xs). y < x) \<and> (\<forall>y \<in> set (drop i xs). x < y)"
proof (cases "xs = []")
  case True
  with assms(1) show ?thesis by (simp add: binary_search_def)
next
  case False
  let ?b = "bs_window xs x 0 (length xs)"
  note b = bs_window_all(1,2) [OF assms(2) False, of x]
    and above = bs_window_all(3) [OF assms(2) False]
  have i: "i = (if xs ! ?b < x then ?b + 1 else ?b)" and ne: "xs ! ?b \<noteq> x"
    using assms(1) False by (auto simp: binary_search_def Let_def split: if_splits)
  have below: "xs ! ?b < x \<and> i = ?b + 1 \<or> x < xs ! ?b \<and> i = 0 \<and> ?b = 0"
    using i ne b(2) by (metis le_less linorder_neqE)
  have "y < x" if y: "y \<in> set (take i xs)" for y
  proof -
    obtain j where j: "j < i" "y = xs ! j"
      using y by (auto simp: in_set_conv_nth)
    then have "xs ! ?b < x" and "j \<le> ?b" using below by auto
    moreover have "xs ! j \<le> xs ! ?b"
      using assms(2) \<open>j \<le> ?b\<close> b(1) by (rule sorted_nth_mono)
    ultimately show ?thesis using j(2) by simp
  qed
  moreover have "x < y" if y: "y \<in> set (drop i xs)" for y
  proof -
    obtain k where k: "k < length xs - i" "y = xs ! (i + k)"
      using y by (auto simp: in_set_conv_nth)
    show ?thesis
    proof (cases "?b < i + k")
      case True
      with k show ?thesis using above [of x "i + k"] by simp
    next
      case False
      with below have "x < xs ! ?b" and "i + k = ?b" by auto
      with k show ?thesis by simp
    qed
  qed
  ultimately show ?thesis using below b(1) by auto
qed

section \<open>Inserting where the search points\<close>

definition vec_insert :: "'a list \<Rightarrow> nat \<Rightarrow> 'a \<Rightarrow> 'a list exec" where
  "vec_insert xs i x = (if i \<le> length xs then ret (take i xs @ x # drop i xs) else panic)"

definition insert_sorted :: "'a::linorder list \<Rightarrow> 'a \<Rightarrow> 'a list exec" where
  "insert_sorted xs x = (case binary_search xs x of
     Inr _ \<Rightarrow> ret xs
   | Inl i \<Rightarrow> vec_insert xs i x)"

text \<open>On a strictly sorted list the insertion never panics and is insertion into its set.\<close>

lemma insert_sorted_set:
  assumes "sorted_wrt (<) xs"
  shows "insert_sorted xs x = Some (sorted_list_of_set (insert x (set xs)))"
proof -
  have srt: "sorted xs" and dist: "distinct xs"
    using assms by (simp_all add: strict_sorted_iff)
  show ?thesis
  proof (cases "binary_search xs x")
    case (Inr i)
    with binary_search_Inr [OF this srt] have "x \<in> set xs" by auto
    with Inr srt dist show ?thesis
      by (simp add: insert_sorted_def insert_absorb sorted_list_of_set.idem_if_sorted_distinct)
  next
    case (Inl i)
    note spec = binary_search_Inl [OF Inl srt]
    let ?ys = "take i xs @ x # drop i xs"
    have "sorted_wrt (<) (take i xs @ drop i xs)" using assms by simp
    then have "sorted_wrt (<) ?ys" using spec by (simp only: sorted_wrt_append) auto
    moreover have "set ?ys = insert x (set xs)"
      by (metis Un_insert_right append_take_drop_id list.simps(15) set_append)
    ultimately have "?ys = sorted_list_of_set (insert x (set xs))"
      by (metis sorted_list_of_set.idem_if_sorted_distinct strict_sorted_iff)
    with Inl spec show ?thesis by (simp add: insert_sorted_def vec_insert_def)
  qed
qed

end
