(* ===== verification/Transaction.thy ===== *)
theory Transaction
  imports Bytes Transitions Sorted_Insert
begin

text \<open>
  \<open>src/store.rs\<close>: the in-memory transaction \<open>CatscopeTransaction\<close>, the write handle
  through which instructions are appended to it, the list of touched accounts that handle
  maintains when it is dropped, and the read accessors.
\<close>

section \<open>Data\<close>

type_synonym account_id = u64

record catscope_instruction =
  ix_program :: account_id
  ix_data_chunk_i :: u16
  ix_account_chunk_i :: u16

definition default_instruction :: catscope_instruction where
  "default_instruction = \<lparr>ix_program = 0, ix_data_chunk_i = 0, ix_account_chunk_i = 0\<rparr>"

text \<open>\<open>SIGNATURE_BYTES\<close> of the Solana SDK is 64; \<open>signature\<close> is an array of that length.\<close>

definition SIGNATURE_BYTES :: nat where
  "SIGNATURE_BYTES = 64"

record catscope_transaction =
  signature :: "u8 list"
  tx_index :: u64
  data_chunk_last :: "u16 list"
  data_chunk :: "u8 list"
  account_chunk_last :: "u16 list"
  account_chunk :: "account_id list"
  outer :: "catscope_instruction list"
  l1_inner :: "u8 list"
  inner :: "catscope_instruction list"
  account :: "account_id list"

definition default_transaction :: catscope_transaction where
  "default_transaction =
     \<lparr>signature = replicate SIGNATURE_BYTES 0, tx_index = 0,
      data_chunk_last = [], data_chunk = [], account_chunk_last = [], account_chunk = [],
      outer = [], l1_inner = [], inner = [], account = []\<rparr>"

datatype ix_index = Outer nat | Inner nat

text \<open>
  The write handle borrows the transaction mutably: the model passes the transaction beside it.
\<close>

record instruction_write =
  iw_i :: ix_index
  iw_data_chunk_i :: nat
  iw_account_chunk_i :: nat
  iw_account_set :: bool
  iw_data_set :: bool

section \<open>Appending instructions\<close>

definition append_outer ::
    "catscope_transaction \<Rightarrow> instruction_write \<times> catscope_transaction" where
  "append_outer tx =
     (\<lparr>iw_i = Outer (length (outer tx)),
       iw_data_chunk_i = length (data_chunk_last tx),
       iw_account_chunk_i = length (account_chunk_last tx),
       iw_account_set = False, iw_data_set = False\<rparr>,
      tx\<lparr>outer := outer tx @ [default_instruction],
         l1_inner := l1_inner tx @ [0],
         account_chunk_last := account_chunk_last tx @ [0],
         data_chunk_last := data_chunk_last tx @ [0]\<rparr>)"

definition append_inner ::
    "profile \<Rightarrow> nat \<Rightarrow> catscope_transaction \<Rightarrow> (instruction_write \<times> catscope_transaction) exec" where
  "append_inner p outer_idx tx = do {
     n \<leftarrow> index (l1_inner tx) outer_idx;
     n \<leftarrow> add_checked p n 1;
     l1 \<leftarrow> store_at (l1_inner tx) outer_idx n;
     ret (\<lparr>iw_i = Inner (length (inner tx)),
           iw_data_chunk_i = length (data_chunk_last tx),
           iw_account_chunk_i = length (account_chunk_last tx),
           iw_account_set = False, iw_data_set = False\<rparr>,
          tx\<lparr>l1_inner := l1,
             inner := inner tx @ [default_instruction],
             account_chunk_last := account_chunk_last tx @ [0],
             data_chunk_last := data_chunk_last tx @ [0]\<rparr>)
   }"

section \<open>The write handle\<close>

definition get_instruction :: "catscope_transaction \<Rightarrow> ix_index \<Rightarrow> catscope_instruction exec" where
  "get_instruction tx i = (case i of
     Outer k \<Rightarrow> index (outer tx) k
   | Inner k \<Rightarrow> index (inner tx) k)"

definition iw_program ::
    "account_id \<Rightarrow> instruction_write \<Rightarrow> catscope_transaction \<Rightarrow> catscope_transaction exec" where
  "iw_program program_id w tx = (case iw_i w of
     Outer i \<Rightarrow> do {
       ix \<leftarrow> index (outer tx) i;
       l \<leftarrow> store_at (outer tx) i (ix\<lparr>ix_program := program_id\<rparr>);
       ret (tx\<lparr>outer := l\<rparr>)
     }
   | Inner i \<Rightarrow> do {
       ix \<leftarrow> index (inner tx) i;
       l \<leftarrow> store_at (inner tx) i (ix\<lparr>ix_program := program_id\<rparr>);
       ret (tx\<lparr>inner := l\<rparr>)
     })"

text \<open>
  \<open>account(size)\<close> and \<open>data(size)\<close> return the mutable slice \<open>[start, finish)\<close> of the
  chunk for the caller to fill: the model returns its bounds, and the caller's
  \<open>copy_from_slice\<close> is \<open>fill_account\<close> and \<open>fill_data\<close>.  \<open>finish as u16\<close> truncates.
\<close>

definition iw_account ::
    "nat \<Rightarrow> instruction_write \<Rightarrow> catscope_transaction \<Rightarrow>
     ((nat \<times> nat) \<times> instruction_write \<times> catscope_transaction) exec" where
  "iw_account sz w tx = do {
     assert_that (\<not> iw_account_set w);
     let w = w\<lparr>iw_account_set := True\<rparr>;
     let start = length (account_chunk tx);
     let finish = start + sz;
     let tx = tx\<lparr>account_chunk := account_chunk tx @ replicate sz 0\<rparr>;
     lasts \<leftarrow> store_at (account_chunk_last tx) (iw_account_chunk_i w) (word_of_nat finish);
     ret ((start, finish), w, tx\<lparr>account_chunk_last := lasts\<rparr>)
   }"

definition iw_data ::
    "nat \<Rightarrow> instruction_write \<Rightarrow> catscope_transaction \<Rightarrow>
     ((nat \<times> nat) \<times> instruction_write \<times> catscope_transaction) exec" where
  "iw_data sz w tx = do {
     assert_that (\<not> iw_data_set w);
     let w = w\<lparr>iw_data_set := True\<rparr>;
     let start = length (data_chunk tx);
     let finish = start + sz;
     let tx = tx\<lparr>data_chunk := data_chunk tx @ replicate sz 0\<rparr>;
     lasts \<leftarrow> store_at (data_chunk_last tx) (iw_data_chunk_i w) (word_of_nat finish);
     ret ((start, finish), w, tx\<lparr>data_chunk_last := lasts\<rparr>)
   }"

definition fill_account ::
    "nat \<times> nat \<Rightarrow> account_id list \<Rightarrow> catscope_transaction \<Rightarrow> catscope_transaction exec" where
  "fill_account r vs tx = do {
     c \<leftarrow> copy_into (account_chunk tx) (fst r) (snd r) vs;
     ret (tx\<lparr>account_chunk := c\<rparr>)
   }"

definition fill_data ::
    "nat \<times> nat \<Rightarrow> u8 list \<Rightarrow> catscope_transaction \<Rightarrow> catscope_transaction exec" where
  "fill_data r vs tx = do {
     c \<leftarrow> copy_into (data_chunk tx) (fst r) (snd r) vs;
     ret (tx\<lparr>data_chunk := c\<rparr>)
   }"

section \<open>Chunk bounds and the drop of the handle\<close>

text \<open>
  The bounds of chunk \<open>i\<close> are the end of the chunk before it (0 for the first) and its own
  end; the same lines stand in both readers and in the drop of the write handle.
\<close>

definition chunk_bounds :: "u16 list \<Rightarrow> u16 \<Rightarrow> (u16 \<times> u16) exec" where
  "chunk_bounds lasts c = (let chunk_i = unat c in
     if chunk_i = 0 then do {
       f \<leftarrow> index lasts chunk_i;
       ret (0, f)
     } else do {
       s \<leftarrow> index lasts (chunk_i - 1);
       f \<leftarrow> index lasts chunk_i;
       ret (s, f)
     })"

fun touch_accounts :: "account_id list \<Rightarrow> nat list \<Rightarrow> account_id list \<Rightarrow> account_id list exec" where
  "touch_accounts chunk [] acc = ret acc"
| "touch_accounts chunk (i # is) acc = do {
     account_id \<leftarrow> index chunk i;
     acc \<leftarrow> insert_sorted acc account_id;
     touch_accounts chunk is acc
   }"

definition iw_drop :: "instruction_write \<Rightarrow> catscope_transaction \<Rightarrow> catscope_transaction exec" where
  "iw_drop w tx = do {
     assert_that (iw_account_set w);
     assert_that (iw_data_set w);
     ix \<leftarrow> get_instruction tx (iw_i w);
     (start, finish) \<leftarrow> chunk_bounds (account_chunk_last tx) (ix_account_chunk_i ix);
     assert_that ((start = 0 \<and> finish = 0) \<or> 0 < finish);
     acc \<leftarrow> touch_accounts (account_chunk tx) [unat start..<unat finish] (account tx);
     ret (tx\<lparr>account := acc\<rparr>)
   }"

section \<open>Reading\<close>

definition read_program :: "catscope_transaction \<Rightarrow> ix_index \<Rightarrow> account_id exec" where
  "read_program tx i = do { ix \<leftarrow> get_instruction tx i; ret (ix_program ix) }"

definition read_data :: "catscope_transaction \<Rightarrow> ix_index \<Rightarrow> u8 list exec" where
  "read_data tx i = do {
     ix \<leftarrow> get_instruction tx i;
     (start, finish) \<leftarrow> chunk_bounds (data_chunk_last tx) (ix_data_chunk_i ix);
     slice (data_chunk tx) (unat start) (unat finish)
   }"

definition read_account :: "catscope_transaction \<Rightarrow> ix_index \<Rightarrow> account_id list exec" where
  "read_account tx i = do {
     ix \<leftarrow> get_instruction tx i;
     (start, finish) \<leftarrow> chunk_bounds (account_chunk_last tx) (ix_account_chunk_i ix);
     slice (account_chunk tx) (unat start) (unat finish)
   }"

text \<open>The iterators over the instructions: a position, advanced by each \<open>next\<close>.\<close>

definition outer_next :: "catscope_transaction \<Rightarrow> nat \<Rightarrow> ix_index option \<times> nat" where
  "outer_next tx i =
     (if length (outer tx) \<le> i then (None, i) else (Some (Outer i), i + 1))"

definition inner_next :: "catscope_transaction \<Rightarrow> nat \<Rightarrow> ix_index option \<times> nat" where
  "inner_next tx i =
     (if length (inner tx) \<le> i then (None, i) else (Some (Inner i), i + 1))"

section \<open>The client's protocol\<close>

text \<open>
  How a client writes one instruction: set the program, allocate and fill the accounts,
  allocate and fill the data, drop the handle.
\<close>

definition write_instruction ::
    "account_id \<Rightarrow> account_id list \<Rightarrow> u8 list \<Rightarrow> instruction_write \<Rightarrow> catscope_transaction \<Rightarrow>
     catscope_transaction exec" where
  "write_instruction prog accs dat w tx = do {
     tx \<leftarrow> iw_program prog w tx;
     (r, w, tx) \<leftarrow> iw_account (length accs) w tx;
     tx \<leftarrow> fill_account r accs tx;
     (r, w, tx) \<leftarrow> iw_data (length dat) w tx;
     tx \<leftarrow> fill_data r dat tx;
     iw_drop w tx
   }"

definition push_outer ::
    "account_id \<Rightarrow> account_id list \<Rightarrow> u8 list \<Rightarrow> catscope_transaction \<Rightarrow> catscope_transaction exec" where
  "push_outer prog accs dat tx = (let (w, tx) = append_outer tx in write_instruction prog accs dat w tx)"

definition push_inner ::
    "profile \<Rightarrow> nat \<Rightarrow> account_id \<Rightarrow> account_id list \<Rightarrow> u8 list \<Rightarrow> catscope_transaction \<Rightarrow>
     catscope_transaction exec" where
  "push_inner p outer_idx prog accs dat tx = do {
     (w, tx) \<leftarrow> append_inner p outer_idx tx;
     write_instruction prog accs dat w tx
   }"

section \<open>What one push does\<close>

text \<open>
  A push appends the instruction and its two chunks; the chunk indices of the instruction keep
  their default 0.  \<open>tx_appended\<close> is the transaction before the handle is dropped.
\<close>

definition new_instruction :: "account_id \<Rightarrow> catscope_instruction" where
  "new_instruction prog = default_instruction\<lparr>ix_program := prog\<rparr>"

definition add_chunks :: "account_id list \<Rightarrow> u8 list \<Rightarrow> catscope_transaction \<Rightarrow> catscope_transaction" where
  "add_chunks accs dat tx = tx\<lparr>
     account_chunk := account_chunk tx @ accs,
     account_chunk_last := account_chunk_last tx @ [word_of_nat (length (account_chunk tx) + length accs)],
     data_chunk := data_chunk tx @ dat,
     data_chunk_last := data_chunk_last tx @ [word_of_nat (length (data_chunk tx) + length dat)]\<rparr>"

definition done_handle :: "ix_index \<Rightarrow> catscope_transaction \<Rightarrow> instruction_write" where
  "done_handle i tx = \<lparr>iw_i = i, iw_data_chunk_i = length (data_chunk_last tx),
     iw_account_chunk_i = length (account_chunk_last tx), iw_account_set = True, iw_data_set = True\<rparr>"

lemma push_outer_eq:
  "push_outer prog accs dat tx =
     iw_drop (done_handle (Outer (length (outer tx))) tx)
       (add_chunks accs dat (tx\<lparr>outer := outer tx @ [new_instruction prog], l1_inner := l1_inner tx @ [0]\<rparr>))"
  by (cases tx) (simp add: push_outer_def append_outer_def write_instruction_def iw_program_def iw_account_def
      iw_data_def fill_account_def fill_data_def add_chunks_def done_handle_def new_instruction_def
      slice_simps index_def store_at_def Let_def)

lemma push_inner_eq:
  "push_inner p k prog accs dat tx = do {
     n \<leftarrow> index (l1_inner tx) k;
     n \<leftarrow> add_checked p n 1;
     iw_drop (done_handle (Inner (length (inner tx))) tx)
       (add_chunks accs dat (tx\<lparr>inner := inner tx @ [new_instruction prog], l1_inner := (l1_inner tx)[k := n]\<rparr>))
   }"
  by (cases tx) (auto simp: push_inner_def append_inner_def write_instruction_def iw_program_def iw_account_def
      iw_data_def fill_account_def fill_data_def add_chunks_def done_handle_def new_instruction_def
      slice_simps index_def store_at_def Let_def intro!: bind_option_cong)

section \<open>The invariant of a transaction under construction\<close>

text \<open>The chunk every instruction points at: the first one, as far as its stored end reaches.\<close>

definition first_data :: "catscope_transaction \<Rightarrow> u8 list" where
  "first_data tx = take (unat (hd (data_chunk_last tx))) (data_chunk tx)"

definition first_account :: "catscope_transaction \<Rightarrow> account_id list" where
  "first_account tx = take (unat (hd (account_chunk_last tx))) (account_chunk tx)"

definition all_instructions :: "catscope_transaction \<Rightarrow> catscope_instruction list" where
  "all_instructions tx = outer tx @ inner tx"

definition tx_inv :: "catscope_transaction \<Rightarrow> bool" where
  "tx_inv tx \<longleftrightarrow>
     length (signature tx) = SIGNATURE_BYTES \<and>
     length (data_chunk_last tx) = length (all_instructions tx) \<and>
     length (account_chunk_last tx) = length (all_instructions tx) \<and>
     length (l1_inner tx) = length (outer tx) \<and>
     (\<forall>ix \<in> set (all_instructions tx). ix_data_chunk_i ix = 0 \<and> ix_account_chunk_i ix = 0) \<and>
     (all_instructions tx \<noteq> [] \<longrightarrow>
        unat (hd (data_chunk_last tx)) \<le> length (data_chunk tx) \<and>
        unat (hd (account_chunk_last tx)) \<le> length (account_chunk tx)) \<and>
     account tx = (if all_instructions tx = [] then [] else sorted_list_of_set (set (first_account tx)))"

lemma tx_inv_default: "tx_inv default_transaction"
  by (simp add: tx_inv_def default_transaction_def all_instructions_def)

lemma touch_accounts_all:
  assumes "sorted_wrt (<) acc" and "\<forall>i \<in> set is. i < length chunk"
  shows "touch_accounts chunk is acc =
    Some (sorted_list_of_set (set acc \<union> (\<lambda>i. chunk ! i) ` set is))"
  using assms
proof (induction "is" arbitrary: acc)
  case Nil
  then show ?case
    by (simp add: sorted_list_of_set.idem_if_sorted_distinct strict_sorted_iff)
next
  case (Cons i "is")
  then show ?case
    by (simp add: index_def insert_sorted_set del: sorted_list_of_set_insert_remove)
qed

lemma nth_image_upt: "n \<le> length xs \<Longrightarrow> (\<lambda>i. xs ! i) ` {0..<n} = set (take n xs)"
  by (simp add: nth_image)

lemma touch_accounts_outside:
  assumes "sorted_wrt (<) acc" and "\<exists>i \<in> set is. length chunk \<le> i"
  shows "touch_accounts chunk is acc = None"
  using assms
proof (induction "is" arbitrary: acc)
  case (Cons i "is")
  then show ?case
    by (cases "length chunk \<le> i")
       (auto simp: index_def insert_sorted_set simp del: sorted_list_of_set_insert_remove)
qed simp

text \<open>
  C40: The loop over a chunk that keeps the touched accounts by binary search and insertion is a
  union of sets: on accounts in strictly ascending order it leaves, in strictly ascending order, those
  and the ones of the chunk from \<open>start\<close> to \<open>finish\<close>, each once; it panics exactly when the range
  runs past the chunks, and the insertion itself never does.
\<close>

theorem touched_accounts_as_set:
  assumes "sorted_wrt (<) acc"
  shows "touch_accounts chunk [start..<finish] acc =
    (if finish \<le> length chunk \<or> finish \<le> start
     then Some (sorted_list_of_set (set acc \<union> set (take (finish - start) (drop start chunk)))) else None)"
proof (cases "finish \<le> length chunk \<or> finish \<le> start")
  case True
  have "map ((!) chunk) [start..<finish] = take (finish - start) (drop start chunk)"
    using True by (intro nth_equalityI) auto
  then have "(!) chunk ` {start..<finish} = set (take (finish - start) (drop start chunk))"
    by (metis image_set set_upt)
  then have "touch_accounts chunk [start..<finish] acc =
      Some (sorted_list_of_set (set acc \<union> set (take (finish - start) (drop start chunk))))"
    using True by (subst touch_accounts_all [OF assms]) auto
  with True show ?thesis by simp
next
  case False
  then have "touch_accounts chunk [start..<finish] acc = None"
    by (intro touch_accounts_outside [OF assms] bexI [of _ "max start (length chunk)"]) auto
  with False show ?thesis by simp
qed

theorem touched_accounts_as_set_witness:
  "touch_accounts [9, 4, 7, 4, 2] [1..<4] [3, 7] = Some [3, 4, 7]"
proof -
  have "sorted_list_of_set (set [3, 7] \<union> set (take (4 - 1) (drop 1 [9, 4, 7, 4, 2]))) = [3, 4, 7 :: account_id]"
    by (intro sorted_list_of_set.idem_if_sorted_distinct [of "[3, 4, 7]", THEN trans [rotated]] arg_cong [of _ _ sorted_list_of_set]) auto
  moreover have "sorted_wrt (<) [3, 7 :: account_id]" by simp
  ultimately show ?thesis using touched_accounts_as_set [of "[3, 7]" "[9, 4, 7, 4, 2]" 1 4] by simp
qed

lemma iw_drop_first_chunk:
  assumes w: "iw_account_set w" "iw_data_set w"
    and ix: "get_instruction tx (iw_i w) = Some ix" "ix_account_chunk_i ix = 0"
    and bound: "account_chunk_last tx \<noteq> []" "unat (hd (account_chunk_last tx)) \<le> length (account_chunk tx)"
    and acc: "sorted_wrt (<) (account tx)"
  shows "iw_drop w tx =
    Some (tx\<lparr>account := sorted_list_of_set (set (account tx) \<union> set (first_account tx))\<rparr>)"
proof -
  let ?f = "account_chunk_last tx ! 0"
  have f: "hd (account_chunk_last tx) = ?f" using bound(1) by (simp add: hd_conv_nth)
  have "touch_accounts (account_chunk tx) [0..<unat ?f] (account tx) =
      Some (sorted_list_of_set (set (account tx) \<union> set (take (unat ?f) (account_chunk tx))))"
    using acc bound(2) by (simp add: f touch_accounts_all nth_image_upt)
  then show ?thesis
    using w ix bound(1)
    by (cases "?f = 0")
       (simp_all add: iw_drop_def chunk_bounds_def index_def first_account_def f word_neq_0_conv)
qed

lemma word_nat_bound: "unat (word_of_nat n :: u16) \<le> n"
  by (simp add: unat_of_nat)

text \<open>
  Dropping the handle of a transaction with one more instruction: it never panics, and the
  first chunk, the account list and the lengths are as the invariant wants them.
\<close>

lemma push_preserves:
  assumes inv: "tx_inv tx"
    and tx1: "tx1 = add_chunks accs dat tx0"
    and same: "signature tx0 = signature tx" "data_chunk tx0 = data_chunk tx"
      "data_chunk_last tx0 = data_chunk_last tx" "account_chunk tx0 = account_chunk tx"
      "account_chunk_last tx0 = account_chunk_last tx" "account tx0 = account tx"
    and more: "length (l1_inner tx0) = length (outer tx0)"
      "length (all_instructions tx0) = Suc (length (all_instructions tx))"
      "set (all_instructions tx0) = insert (new_instruction prog) (set (all_instructions tx))"
    and i: "get_instruction tx0 i = Some (new_instruction prog)"
  shows "iw_drop (done_handle i tx) tx1 =
      Some (tx1\<lparr>account := sorted_list_of_set (set (first_account tx1))\<rparr>)" (is ?drop)
    and "tx_inv (tx1\<lparr>account := sorted_list_of_set (set (first_account tx1))\<rparr>)" (is ?inv)
    and "all_instructions tx \<noteq> [] \<Longrightarrow> first_data tx1 = first_data tx \<and> first_account tx1 = first_account tx"
proof -
  have ne0: "all_instructions tx0 \<noteq> []" using more(2) by auto
  have zero: "ix_data_chunk_i (new_instruction prog) = 0" "ix_account_chunk_i (new_instruction prog) = 0"
    by (simp_all add: new_instruction_def default_instruction_def)
  have keep: "hd (data_chunk_last tx1) = hd (data_chunk_last tx) \<and>
      hd (account_chunk_last tx1) = hd (account_chunk_last tx) \<and>
      first_data tx1 = first_data tx \<and> first_account tx1 = first_account tx"
    if "all_instructions tx \<noteq> []"
    using inv that by (auto simp: tx_inv_def tx1 add_chunks_def same first_data_def first_account_def
        hd_append)
  then show "all_instructions tx \<noteq> [] \<Longrightarrow> first_data tx1 = first_data tx \<and> first_account tx1 = first_account tx"
    by blast
  have bounds: "unat (hd (data_chunk_last tx1)) \<le> length (data_chunk tx1) \<and>
      unat (hd (account_chunk_last tx1)) \<le> length (account_chunk tx1)"
  proof (cases "all_instructions tx = []")
    case True
    with inv have "data_chunk_last tx = []" "account_chunk_last tx = []"
      by (auto simp: tx_inv_def)
    then show ?thesis
      using word_nat_bound [of "length (data_chunk tx) + length dat"]
        word_nat_bound [of "length (account_chunk tx) + length accs"]
      by (simp add: tx1 add_chunks_def same)
  next
    case False
    with keep inv show ?thesis by (auto simp: tx_inv_def tx1 add_chunks_def same)
  qed
  have sub: "set (account tx1) \<subseteq> set (first_account tx1)" and srt: "sorted_wrt (<) (account tx1)"
    using inv keep by (auto simp: tx_inv_def tx1 add_chunks_def same split: if_splits)
  have gi: "get_instruction tx1 i = Some (new_instruction prog)"
    using i by (simp add: tx1 add_chunks_def get_instruction_def split: ix_index.splits)
  show ?drop
    using iw_drop_first_chunk [of "done_handle i tx" tx1, OF _ _ _ _ _ _ srt] gi zero bounds sub
    by (simp add: done_handle_def Un_absorb1 tx1 add_chunks_def)
  show ?inv
    using inv bounds more zero by (auto simp: tx_inv_def tx1 add_chunks_def same all_instructions_def
        first_account_def)
qed
section \<open>Building a transaction push by push\<close>

inductive push_step :: "profile \<Rightarrow> catscope_transaction \<Rightarrow> catscope_transaction \<Rightarrow> bool" for p where
  push_outer_step: "push_outer prog accs dat tx = Some tx' \<Longrightarrow> push_step p tx tx'"
| push_inner_step: "push_inner p k prog accs dat tx = Some tx' \<Longrightarrow> push_step p tx tx'"

inductive_cases push_stepE: "push_step p tx tx'"

abbreviation built :: "profile \<Rightarrow> catscope_transaction \<Rightarrow> bool" where
  "built p \<equiv> reach (\<lambda>tx. tx = default_transaction) (push_step p)"

text \<open>The transaction a push leaves, up to the account list.\<close>

definition outer_pushed ::
    "account_id \<Rightarrow> account_id list \<Rightarrow> u8 list \<Rightarrow> catscope_transaction \<Rightarrow> catscope_transaction" where
  "outer_pushed prog accs dat tx = add_chunks accs dat
     (tx\<lparr>outer := outer tx @ [new_instruction prog], l1_inner := l1_inner tx @ [0]\<rparr>)"

definition inner_pushed ::
    "nat \<Rightarrow> account_id \<Rightarrow> account_id list \<Rightarrow> u8 list \<Rightarrow> catscope_transaction \<Rightarrow> catscope_transaction" where
  "inner_pushed k prog accs dat tx = add_chunks accs dat
     (tx\<lparr>inner := inner tx @ [new_instruction prog], l1_inner := (l1_inner tx)[k := l1_inner tx ! k + 1]\<rparr>)"

definition with_touched :: "catscope_transaction \<Rightarrow> catscope_transaction" where
  "with_touched tx = tx\<lparr>account := sorted_list_of_set (set (first_account tx))\<rparr>"

lemma push_outer_inv:
  assumes "tx_inv tx"
  shows "push_outer prog accs dat tx = Some (with_touched (outer_pushed prog accs dat tx))"
    and "tx_inv (with_touched (outer_pushed prog accs dat tx))"
    and "all_instructions tx \<noteq> [] \<Longrightarrow>
      first_data (outer_pushed prog accs dat tx) = first_data tx \<and>
      first_account (outer_pushed prog accs dat tx) = first_account tx"
proof -
  let ?tx0 = "tx\<lparr>outer := outer tx @ [new_instruction prog], l1_inner := l1_inner tx @ [0]\<rparr>"
  have more: "length (l1_inner ?tx0) = length (outer ?tx0)"
      "length (all_instructions ?tx0) = Suc (length (all_instructions tx))"
      "set (all_instructions ?tx0) = insert (new_instruction prog) (set (all_instructions tx))"
      "get_instruction ?tx0 (Outer (length (outer tx))) = Some (new_instruction prog)"
    using assms by (simp_all add: tx_inv_def all_instructions_def get_instruction_def index_def)
  note P = push_preserves [OF assms refl _ _ _ _ _ _ more]
  show "push_outer prog accs dat tx = Some (with_touched (outer_pushed prog accs dat tx))"
    unfolding push_outer_eq outer_pushed_def with_touched_def by (rule P(1)) simp_all
  show "tx_inv (with_touched (outer_pushed prog accs dat tx))"
    unfolding outer_pushed_def with_touched_def by (rule P(2)) simp_all
  show "all_instructions tx \<noteq> [] \<Longrightarrow>
      first_data (outer_pushed prog accs dat tx) = first_data tx \<and>
      first_account (outer_pushed prog accs dat tx) = first_account tx"
    unfolding outer_pushed_def by (rule P(3)) simp_all
qed

lemma add_checked_ret: "add_checked p a b = Some c \<Longrightarrow> c = a + b"
  by (simp add: add_checked_def split: if_splits)

lemma push_inner_Some:
  assumes "push_inner p k prog accs dat tx = Some tx'"
  shows "k < length (l1_inner tx)" and "add_checked p (l1_inner tx ! k) 1 = Some (l1_inner tx ! k + 1)"
    and "iw_drop (done_handle (Inner (length (inner tx))) tx) (inner_pushed k prog accs dat tx) = Some tx'"
  using assms
  by (auto simp: push_inner_eq inner_pushed_def Option.bind_eq_Some_conv dest: add_checked_ret)

lemma push_inner_inv:
  assumes "tx_inv tx" and k: "k < length (outer tx)"
    and "add_checked p (l1_inner tx ! k) 1 = Some (l1_inner tx ! k + 1)"
  shows "push_inner p k prog accs dat tx = Some (with_touched (inner_pushed k prog accs dat tx))"
    and "tx_inv (with_touched (inner_pushed k prog accs dat tx))"
    and "all_instructions tx \<noteq> [] \<Longrightarrow>
      first_data (inner_pushed k prog accs dat tx) = first_data tx \<and>
      first_account (inner_pushed k prog accs dat tx) = first_account tx"
proof -
  have len: "k < length (l1_inner tx)" using assms by (simp add: tx_inv_def)
  have eq: "push_inner p k prog accs dat tx =
      iw_drop (done_handle (Inner (length (inner tx))) tx) (inner_pushed k prog accs dat tx)"
    using len assms(3) by (simp add: push_inner_eq inner_pushed_def slice_simps)
  let ?tx0 = "tx\<lparr>inner := inner tx @ [new_instruction prog],
      l1_inner := (l1_inner tx)[k := l1_inner tx ! k + 1]\<rparr>"
  have more: "length (l1_inner ?tx0) = length (outer ?tx0)"
      "length (all_instructions ?tx0) = Suc (length (all_instructions tx))"
      "set (all_instructions ?tx0) = insert (new_instruction prog) (set (all_instructions tx))"
      "get_instruction ?tx0 (Inner (length (inner tx))) = Some (new_instruction prog)"
    using assms(1) by (simp_all add: tx_inv_def all_instructions_def get_instruction_def index_def)
  note P = push_preserves [OF assms(1) refl _ _ _ _ _ _ more]
  show "push_inner p k prog accs dat tx = Some (with_touched (inner_pushed k prog accs dat tx))"
    unfolding eq inner_pushed_def with_touched_def by (rule P(1)) simp_all
  show "tx_inv (with_touched (inner_pushed k prog accs dat tx))"
    unfolding inner_pushed_def with_touched_def by (rule P(2)) simp_all
  show "all_instructions tx \<noteq> [] \<Longrightarrow>
      first_data (inner_pushed k prog accs dat tx) = first_data tx \<and>
      first_account (inner_pushed k prog accs dat tx) = first_account tx"
    unfolding inner_pushed_def by (rule P(3)) simp_all
qed

lemma pushed_instructions [simp]:
  "all_instructions (with_touched (outer_pushed prog accs dat tx)) \<noteq> []"
  "all_instructions (with_touched (inner_pushed k prog accs dat tx)) \<noteq> []"
  by (simp_all add: all_instructions_def with_touched_def outer_pushed_def inner_pushed_def add_chunks_def)

lemma first_with_touched [simp]:
  "first_data (with_touched tx) = first_data tx" "first_account (with_touched tx) = first_account tx"
  by (simp_all add: with_touched_def first_data_def first_account_def)

text \<open>A push's result, from any state of the invariant.\<close>

lemma push_step_pushed:
  assumes "push_step p tx tx'" and "tx_inv tx"
  obtains prog accs dat where "tx' = with_touched (outer_pushed prog accs dat tx)"
  | k prog accs dat where "tx' = with_touched (inner_pushed k prog accs dat tx)"
      and "k < length (outer tx)" and "add_checked p (l1_inner tx ! k) 1 = Some (l1_inner tx ! k + 1)"
  using assms(1)
proof (rule push_stepE)
  fix prog accs dat
  assume "push_outer prog accs dat tx = Some tx'"
  then have "tx' = with_touched (outer_pushed prog accs dat tx)"
    using push_outer_inv(1) [OF assms(2), of prog accs dat] by simp
  then show thesis by (rule that(1))
next
  fix k prog accs dat
  assume push: "push_inner p k prog accs dat tx = Some tx'"
  note k = push_inner_Some(1,2) [OF push]
  have lt: "k < length (outer tx)" using k(1) assms(2) by (simp add: tx_inv_def)
  have "tx' = with_touched (inner_pushed k prog accs dat tx)"
    using push_inner_inv(1) [OF assms(2) lt k(2), of prog accs dat] push by simp
  then show thesis using lt k(2) by (rule that(2))
qed

lemma push_step_inv:
  assumes "tx_inv tx" and "push_step p tx tx'"
  shows "tx_inv tx'" and "all_instructions tx' \<noteq> []"
    and "all_instructions tx \<noteq> [] \<Longrightarrow> first_data tx' = first_data tx \<and> first_account tx' = first_account tx"
  using assms(2,1)
  by (cases rule: push_step_pushed; simp add: push_outer_inv push_inner_inv assms(1))+

interpretation building: invariant_system "\<lambda>tx. tx = default_transaction" "push_step p" tx_inv for p
  by unfold_locales (auto simp: tx_inv_default dest: push_step_inv(1))

lemma get_instruction_set: "get_instruction tx i = Some ix \<Longrightarrow> ix \<in> set (all_instructions tx)"
  by (auto simp: get_instruction_def all_instructions_def split: ix_index.splits)

text \<open>Whatever instruction is read under the invariant, it is the first chunk that comes back.\<close>

lemma tx_inv_read:
  assumes inv: "tx_inv tx" and i: "get_instruction tx i = Some ix"
  shows "read_data tx i = Some (first_data tx)" and "read_account tx i = Some (first_account tx)"
proof -
  have ix: "ix \<in> set (all_instructions tx)" using i by (rule get_instruction_set)
  then have ne: "all_instructions tx \<noteq> []" by auto
  then have lasts: "data_chunk_last tx \<noteq> []" "account_chunk_last tx \<noteq> []"
    using inv by (auto simp: tx_inv_def)
  show "read_data tx i = Some (first_data tx)" and "read_account tx i = Some (first_account tx)"
    using inv i ix ne lasts
    by (auto simp: tx_inv_def read_data_def read_account_def first_data_def first_account_def
        chunk_bounds_def index_def slice_def hd_conv_nth)
qed

lemma first_of_first:
  "first_data (outer_pushed prog accs dat default_transaction) = take (length dat mod 65536) dat"
  "first_account (outer_pushed prog accs dat default_transaction) = take (length accs mod 65536) accs"
  by (simp_all add: first_data_def first_account_def outer_pushed_def add_chunks_def
      default_transaction_def unat_of_nat)

interpretation after_first: invariant_system
    "\<lambda>tx. tx = with_touched (outer_pushed prog accs dat default_transaction)" "push_step p"
    "\<lambda>tx. tx_inv tx \<and> all_instructions tx \<noteq> [] \<and>
       first_data tx = take (length dat mod 65536) dat \<and>
       first_account tx = take (length accs mod 65536) accs"
  for p prog accs dat
proof unfold_locales
  fix s assume "s = with_touched (outer_pushed prog accs dat default_transaction)"
  then show "tx_inv s \<and> all_instructions s \<noteq> [] \<and> first_data s = take (length dat mod 65536) dat \<and>
      first_account s = take (length accs mod 65536) accs"
    using push_outer_inv(2) [OF tx_inv_default, of prog accs dat] by (simp add: first_of_first)
qed (auto dest: push_step_inv)

section \<open>Properties\<close>

text \<open>
  A transaction whose first instruction is written with fewer than 65536 accounts and bytes
  reads back as written: its program, its accounts in order, its data; the touched accounts are
  the accounts of the instruction, sorted and without duplicates; nothing panics.
\<close>

lemma first_instruction_roundtrip:
  assumes "length accs < 65536" and "length dat < 65536"
  shows "\<exists>tx. push_outer prog accs dat default_transaction = Some tx \<and>
    read_program tx (Outer 0) = Some prog \<and>
    read_account tx (Outer 0) = Some accs \<and>
    read_data tx (Outer 0) = Some dat \<and>
    account tx = sorted_list_of_set (set accs)"
proof -
  let ?tx = "with_touched (outer_pushed prog accs dat default_transaction)"
  have push: "push_outer prog accs dat default_transaction = Some ?tx" and inv: "tx_inv ?tx"
    by (rule push_outer_inv [OF tx_inv_default])+
  have get: "get_instruction ?tx (Outer 0) = Some (new_instruction prog)"
    by (simp add: get_instruction_def with_touched_def outer_pushed_def add_chunks_def
        default_transaction_def index_def)
  have "read_program ?tx (Outer 0) = Some prog"
    by (simp add: read_program_def get new_instruction_def)
  moreover have "account ?tx = sorted_list_of_set (set accs)"
    using assms(1) first_of_first(2) [of prog accs dat] by (simp add: with_touched_def)
  ultimately show ?thesis
    using push tx_inv_read [OF inv get] assms by (simp add: first_of_first)
qed

lemma first_instruction_roundtrip_witness:
  "length [5, 3, 5 :: account_id] < 65536 \<and> length [1, 2 :: u8] < 65536 \<and>
   (\<exists>tx. push_outer 7 [5, 3, 5] [1, 2] default_transaction = Some tx \<and>
     read_account tx (Outer 0) = Some [5, 3, 5] \<and> read_data tx (Outer 0) = Some [1, 2] \<and>
     account tx = [3, 5])"
proof -
  have "set [5, 3, 5 :: account_id] = set [3, 5]" by auto
  then have "sorted_list_of_set (set [5, 3, 5 :: account_id]) = [3, 5]"
    using sorted_list_of_set.idem_if_sorted_distinct [of "[3, 5 :: account_id]"] by simp
  then show ?thesis using first_instruction_roundtrip [of "[5, 3, 5]" "[1, 2]" 7] by fastforce
qed

text \<open>
  C10: However many instructions follow, every instruction of the transaction reads back the
  accounts and the data of the first one, cut to their lengths modulo 65536, and the touched
  accounts are those of the first instruction alone: the chunk indices of an instruction are
  never assigned, and the end of a chunk is kept in 16 bits.
\<close>

theorem every_instruction_reads_first:
  assumes first: "push_outer prog accs dat default_transaction = Some tx1"
    and more: "reach (\<lambda>s. s = tx1) (push_step p) tx"
    and i: "get_instruction tx i = Some ix"
  shows "read_data tx i = Some (take (length dat mod 65536) dat) \<and>
    read_account tx i = Some (take (length accs mod 65536) accs) \<and>
    account tx = sorted_list_of_set (set (take (length accs mod 65536) accs))"
proof -
  have "tx1 = with_touched (outer_pushed prog accs dat default_transaction)"
    using first push_outer_inv(1) [OF tx_inv_default, of prog accs dat] by simp
  with more after_first.inv_reach have inv: "tx_inv tx" and "all_instructions tx \<noteq> []"
    and fd: "first_data tx = take (length dat mod 65536) dat"
    and fa: "first_account tx = take (length accs mod 65536) accs"
    by blast+
  with tx_inv_read [OF inv i] show ?thesis
    by (simp add: tx_inv_def)
qed

theorem every_instruction_reads_first_witness:
  "\<exists>tx1 tx ix. push_outer 7 [5] [1, 2] default_transaction = Some tx1 \<and>
     reach (\<lambda>s. s = tx1) (push_step Debug) tx \<and> push_inner Debug 0 8 [9] [4, 4, 4] tx1 = Some tx \<and>
     get_instruction tx (Inner 0) = Some ix \<and> ix_program ix = 8 \<and>
     read_data tx (Inner 0) = Some [1, 2] \<and> read_account tx (Inner 0) = Some [5]"
proof -
  let ?tx1 = "with_touched (outer_pushed 7 [5] [1, 2] default_transaction)"
  let ?tx = "with_touched (inner_pushed 0 8 [9] [4, 4, 4] ?tx1)"
  note pushed = with_touched_def outer_pushed_def inner_pushed_def add_chunks_def
    default_transaction_def
  have tx1: "push_outer 7 [5] [1, 2] default_transaction = Some ?tx1" and inv: "tx_inv ?tx1"
    by (rule push_outer_inv [OF tx_inv_default])+
  have tx: "push_inner Debug 0 8 [9] [4, 4, 4] ?tx1 = Some ?tx"
    by (rule push_inner_inv [OF inv]) (simp_all add: pushed add_checked_def)
  have get: "get_instruction ?tx (Inner 0) = Some (new_instruction 8)"
    by (simp add: get_instruction_def pushed index_def)
  have run: "reach (\<lambda>s. s = ?tx1) (push_step Debug) ?tx"
    by (rule reach_step [OF reach_init]) (use push_inner_step [OF tx] in simp_all)
  show ?thesis
  proof (intro exI conjI)
    show "read_data ?tx (Inner 0) = Some [1, 2]" "read_account ?tx (Inner 0) = Some [5]"
      using every_instruction_reads_first [OF tx1 run get] by simp_all
    show "ix_program (new_instruction 8) = 8"
      by (simp add: new_instruction_def default_instruction_def)
  qed (use tx1 tx get run in simp_all)
qed


text \<open>
  C33: Writing an instruction never panics on a transaction built by writing instructions: an
  outer one always, an inner one exactly when its outer instruction exists and, under overflow
  checks, has fewer than 255 inner ones.
\<close>

theorem push_never_panics:
  assumes "built p tx"
  shows "(\<exists>tx'. push_outer prog accs dat tx = Some tx') \<and>
    ((\<exists>tx'. push_inner p k prog accs dat tx = Some tx') \<longleftrightarrow>
      k < length (outer tx) \<and> (p = Release \<or> l1_inner tx ! k \<noteq> 255))"
proof -
  have inv: "tx_inv tx" using assms by (rule building.inv_reach)
  have count: "(\<exists>n. add_checked p (l1_inner tx ! k) 1 = Some n) \<longleftrightarrow> p = Release \<or> l1_inner tx ! k \<noteq> 255"
  proof -
    have "256 \<le> unat (l1_inner tx ! k) + 1 \<longleftrightarrow> l1_inner tx ! k = 255"
      using unsigned_less [of "l1_inner tx ! k", where ?'a = nat] by (auto simp: word_unat_eq_iff)
    then show ?thesis by (cases p) (auto simp: add_checked_def)
  qed
  have "(\<exists>tx'. push_inner p k prog accs dat tx = Some tx') \<longleftrightarrow>
      k < length (outer tx) \<and> (\<exists>n. add_checked p (l1_inner tx ! k) 1 = Some n)"
  proof
    assume "\<exists>tx'. push_inner p k prog accs dat tx = Some tx'"
    with inv show "k < length (outer tx) \<and> (\<exists>n. add_checked p (l1_inner tx ! k) 1 = Some n)"
      by (auto dest: push_inner_Some simp: tx_inv_def)
  next
    assume "k < length (outer tx) \<and> (\<exists>n. add_checked p (l1_inner tx ! k) 1 = Some n)"
    with push_inner_inv(1) [OF inv] show "\<exists>tx'. push_inner p k prog accs dat tx = Some tx'"
      by (blast dest: add_checked_ret)
  qed
  with count push_outer_inv(1) [OF inv] show ?thesis by blast
qed
theorem push_never_panics_witness:
  "built Debug default_transaction \<and>
   (\<exists>tx'. push_outer 7 [5] [1, 2] default_transaction = Some tx') \<and>
   push_inner Debug 0 7 [5] [1, 2] default_transaction = None"
proof -
  have b: "built Debug default_transaction" by (simp add: reach_init)
  have "push_inner Debug 0 7 [5] [1, 2] default_transaction = None"
    using push_never_panics [OF b, of 7 "[5]" "[1, 2]" 0]
    by (simp add: default_transaction_def)
  then show ?thesis using b push_never_panics [OF b] by blast
qed

lemma unat_inc: "unat (a + 1 :: u8) = (if a = 255 then 0 else unat a + 1)"
  by (simp add: word_unat_eq_iff unat_word_ariths) (use unsigned_less [of a, where ?'a = nat] in auto)

lemma sum_list_update_nat:
  "k < length xs \<Longrightarrow> sum_list (xs[k := v]) + xs ! k = sum_list xs + (v :: nat)"
  by (simp add: sum_list_update elem_le_sum_list trans_le_add1)

interpretation counting: invariant_system "\<lambda>tx. tx = default_transaction" "push_step p"
    "\<lambda>tx. tx_inv tx \<and> (\<exists>w. length (inner tx) = sum_list (map unat (l1_inner tx)) + 256 * w \<and> (p = Debug \<longrightarrow> w = 0))"
  for p
proof unfold_locales
  fix tx assume "tx = default_transaction"
  then show "tx_inv tx \<and> (\<exists>w. length (inner tx) = sum_list (map unat (l1_inner tx)) + 256 * w \<and> (p = Debug \<longrightarrow> w = 0))"
    using tx_inv_default by (simp add: default_transaction_def)
next
  fix tx tx'
  assume "tx_inv tx \<and> (\<exists>w. length (inner tx) = sum_list (map unat (l1_inner tx)) + 256 * w \<and> (p = Debug \<longrightarrow> w = 0))"
  then obtain w where inv: "tx_inv tx" and w: "length (inner tx) = sum_list (map unat (l1_inner tx)) + 256 * w"
    "p = Debug \<longrightarrow> w = 0" by blast
  assume step: "push_step p tx tx'"
  from step inv have "\<exists>w. length (inner tx') = sum_list (map unat (l1_inner tx')) + 256 * w \<and> (p = Debug \<longrightarrow> w = 0)"
  proof (cases rule: push_step_pushed)
    case (1 prog accs dat)
    then show ?thesis using w by (simp add: with_touched_def outer_pushed_def add_chunks_def)
  next
    case (2 k prog accs dat)
    let ?n = "l1_inner tx ! k"
    have len: "k < length (map unat (l1_inner tx))" using 2(2) inv by (simp add: tx_inv_def)
    have sum: "sum_list (map unat (l1_inner tx')) + unat ?n = sum_list (map unat (l1_inner tx)) + unat (?n + 1)"
      using sum_list_update_nat [OF len, of "unat (?n + 1)"] len
      by (simp add: 2(1) with_touched_def inner_pushed_def add_chunks_def map_update)
    have inner: "length (inner tx') = Suc (length (inner tx))"
      by (simp add: 2(1) with_touched_def inner_pushed_def add_chunks_def)
    show ?thesis
    proof (cases "?n = 255")
      case True
      then have "p \<noteq> Debug" using 2(3) by (auto simp: add_checked_def)
      moreover have "length (inner tx') = sum_list (map unat (l1_inner tx')) + 256 * (w + 1)"
        using True sum inner w(1) by (simp add: unat_inc)
      ultimately show ?thesis by blast
    next
      case False
      then have "length (inner tx') = sum_list (map unat (l1_inner tx')) + 256 * w"
        using sum inner w(1) by (simp add: unat_inc)
      with w(2) show ?thesis by blast
    qed
  qed
  with step inv show "tx_inv tx' \<and> (\<exists>w. length (inner tx') = sum_list (map unat (l1_inner tx')) + 256 * w \<and> (p = Debug \<longrightarrow> w = 0))"
    by (auto dest: push_step_inv(1))
qed

text \<open>
  C27: In every transaction built by writing instructions the tables agree: one chunk end per
  instruction in both chunk tables, one inner count per outer instruction, the touched accounts
  strictly sorted and all among the written ones; and the inner counts add up to the number of
  inner instructions, under wrapping arithmetic up to a multiple of 256.
\<close>

theorem built_tables_agree:
  assumes "built p tx"
  shows "length (data_chunk_last tx) = length (outer tx) + length (inner tx) \<and>
    length (account_chunk_last tx) = length (outer tx) + length (inner tx) \<and>
    length (l1_inner tx) = length (outer tx) \<and>
    sorted_wrt (<) (account tx) \<and> set (account tx) \<subseteq> set (account_chunk tx) \<and>
    (\<exists>w. length (inner tx) = sum_list (map unat (l1_inner tx)) + 256 * w \<and> (p = Debug \<longrightarrow> w = 0))"
proof -
  have inv: "tx_inv tx" using assms by (rule building.inv_reach)
  moreover have "sorted_wrt (<) (account tx) \<and> set (account tx) \<subseteq> set (account_chunk tx)"
    using inv by (auto simp: tx_inv_def first_account_def dest: in_set_takeD)
  ultimately show ?thesis
    using counting.inv_reach [OF assms] by (simp add: tx_inv_def all_instructions_def)
qed

theorem built_tables_agree_witness:
  "\<exists>tx. built Debug tx \<and> length (outer tx) = 1 \<and>
    length (data_chunk_last tx) = length (outer tx) + length (inner tx) \<and> sorted_wrt (<) (account tx)"
proof -
  let ?tx = "with_touched (outer_pushed 7 [5, 3, 5] [1, 2] default_transaction)"
  have b: "built Debug ?tx"
    by (rule reach_step [OF reach_init])
       (use push_outer_step [OF push_outer_inv(1) [OF tx_inv_default]] in simp_all)
  then show ?thesis
    using built_tables_agree [OF b]
    by (intro exI [of _ ?tx]) (simp add: with_touched_def outer_pushed_def add_chunks_def default_transaction_def)
qed
text \<open>
  The write handle enforces its protocol by panicking: allocating the accounts or the data
  a second time panics, and so does dropping a handle whose accounts or data were never
  allocated, as in an \<open>append_outer\<close> whose handle is dropped at once.
\<close>

lemma handle_protocol_enforced:
  "(iw_account_set w \<longrightarrow> iw_account n w tx = None) \<and>
   (iw_data_set w \<longrightarrow> iw_data n w tx = None) \<and>
   (\<not> (iw_account_set w \<and> iw_data_set w) \<longrightarrow> iw_drop w tx = None) \<and>
   (case append_outer tx of (w', tx') \<Rightarrow> iw_drop w' tx' = None)"
  by (auto simp: iw_account_def iw_data_def iw_drop_def append_outer_def assert_that_def)

lemma outer_pushed_view:
  "outer (with_touched (outer_pushed prog accs dat tx)) = outer tx @ [new_instruction prog]"
  "inner (with_touched (outer_pushed prog accs dat tx)) = inner tx"
  by (simp_all add: with_touched_def outer_pushed_def add_chunks_def)

lemma inner_pushed_view:
  "outer (with_touched (inner_pushed k prog accs dat tx)) = outer tx"
  "inner (with_touched (inner_pushed k prog accs dat tx)) = inner tx @ [new_instruction prog]"
  by (simp_all add: with_touched_def inner_pushed_def add_chunks_def)

lemma index_append: "index xs i = Some x \<Longrightarrow> index (xs @ ys) i = Some x"
  by (auto simp: index_def nth_append split: if_splits)

lemma index_snoc: "index (xs @ [x]) (length xs) = Some x"
  by (simp add: index_def)

lemma get_kept:
  assumes "get_instruction tx i = Some ix"
    and "outer tx' = outer tx @ us" and "inner tx' = inner tx @ vs"
  shows "get_instruction tx' i = Some ix"
  using assms by (cases i) (simp_all add: get_instruction_def index_append)

lemma new_instruction_program [simp]: "ix_program (new_instruction prog) = prog"
  by (simp add: new_instruction_def)

text \<open>
  Writing an instruction appends it after the instructions of its kind with the program it
  was given, and changes no instruction already there.
\<close>

lemma push_appends_instruction:
  assumes "built p tx"
  shows "(push_outer prog accs dat tx = Some tx' \<longrightarrow>
      read_program tx' (Outer (length (outer tx))) = Some prog \<and>
      length (outer tx') = Suc (length (outer tx)) \<and> inner tx' = inner tx \<and>
      (\<forall>i ix. get_instruction tx i = Some ix \<longrightarrow> get_instruction tx' i = Some ix)) \<and>
    (push_inner p k prog accs dat tx = Some tx' \<longrightarrow>
      read_program tx' (Inner (length (inner tx))) = Some prog \<and>
      length (inner tx') = Suc (length (inner tx)) \<and> outer tx' = outer tx \<and>
      (\<forall>i ix. get_instruction tx i = Some ix \<longrightarrow> get_instruction tx' i = Some ix))"
proof -
  have inv: "tx_inv tx" using assms by (rule building.inv_reach)
  have inner_res: "outer tx' = outer tx" "inner tx' = inner tx @ [new_instruction prog]"
    if push: "push_inner p k prog accs dat tx = Some tx'"
  proof -
    note k = push_inner_Some(1,2) [OF push]
    have "k < length (outer tx)" using k(1) inv by (simp add: tx_inv_def)
    then have "tx' = with_touched (inner_pushed k prog accs dat tx)"
      using push_inner_inv(1) [OF inv _ k(2)] push by simp
    then show "outer tx' = outer tx" "inner tx' = inner tx @ [new_instruction prog]"
      by (simp_all only: inner_pushed_view)
  qed
  have outer_res: "outer tx' = outer tx @ [new_instruction prog]" "inner tx' = inner tx"
    if push: "push_outer prog accs dat tx = Some tx'"
  proof -
    have "tx' = with_touched (outer_pushed prog accs dat tx)"
      using push_outer_inv(1) [OF inv] push by simp
    then show "outer tx' = outer tx @ [new_instruction prog]" "inner tx' = inner tx"
      by (simp_all only: outer_pushed_view)
  qed
  show ?thesis
  proof (intro conjI impI allI)
    fix i ix
    assume "push_outer prog accs dat tx = Some tx'" and get: "get_instruction tx i = Some ix"
    note res = outer_res [OF this(1)]
    show "get_instruction tx' i = Some ix"
      by (rule get_kept [OF get res(1), of "[]"]) (simp add: res)
  next
    fix i ix
    assume "push_inner p k prog accs dat tx = Some tx'" and get: "get_instruction tx i = Some ix"
    note res = inner_res [OF this(1)]
    show "get_instruction tx' i = Some ix"
      by (rule get_kept [OF get _ res(2), of "[]"]) (simp add: res)
  qed (simp_all add: outer_res inner_res read_program_def get_instruction_def index_snoc)
qed

lemma push_appends_instruction_witness:
  "\<exists>tx'. push_outer 7 [5] [1] default_transaction = Some tx' \<and> read_program tx' (Outer 0) = Some 7"
proof -
  have b: "built Debug default_transaction" by (simp add: reach_init)
  obtain tx' where "push_outer 7 [5] [1] default_transaction = Some tx'"
    using push_outer_inv(1) [OF tx_inv_default] by blast
  with push_appends_instruction [OF b, of 7 "[5]" "[1]" tx' 0] show ?thesis
    by (simp add: default_transaction_def)
qed

section \<open>The iterators\<close>

text \<open>A \<open>for\<close> loop over an iterator: \<open>next\<close> until it returns \<open>None\<close>.\<close>

function iterate_outer :: "catscope_transaction \<Rightarrow> nat \<Rightarrow> ix_index list" where
  "iterate_outer tx i = (case outer_next tx i of
     (None, _) \<Rightarrow> []
   | (Some x, j) \<Rightarrow> x # iterate_outer tx j)"
  by pat_completeness auto
termination
  by (relation "measure (\<lambda>(tx, i). length (outer tx) - i)") (auto simp: outer_next_def split: if_splits)

function iterate_inner :: "catscope_transaction \<Rightarrow> nat \<Rightarrow> ix_index list" where
  "iterate_inner tx i = (case inner_next tx i of
     (None, _) \<Rightarrow> []
   | (Some x, j) \<Rightarrow> x # iterate_inner tx j)"
  by pat_completeness auto
termination
  by (relation "measure (\<lambda>(tx, i). length (inner tx) - i)") (auto simp: inner_next_def split: if_splits)

declare iterate_outer.simps [simp del] iterate_inner.simps [simp del]

lemma iterate_outer_from: "iterate_outer tx i = map Outer [i..<length (outer tx)]"
proof (induction tx i rule: iterate_outer.induct)
  case (1 tx i)
  then show ?case
    by (subst iterate_outer.simps) (auto simp: outer_next_def upt_rec [of i])
qed

lemma iterate_inner_from: "iterate_inner tx i = map Inner [i..<length (inner tx)]"
proof (induction tx i rule: iterate_inner.induct)
  case (1 tx i)
  then show ?case
    by (subst iterate_inner.simps) (auto simp: inner_next_def upt_rec [of i])
qed

text \<open>
  Iterating a transaction ends, and visits every outer instruction once in order, and every
  inner instruction once in order.
\<close>

lemma iterators_visit_all:
  "iterate_outer tx 0 = map Outer [0..<length (outer tx)] \<and>
   iterate_inner tx 0 = map Inner [0..<length (inner tx)]"
  by (simp add: iterate_outer_from iterate_inner_from)

end
