(* ===== verification/Wire.thy ===== *)
theory Wire
  imports Transaction Errors
begin

text \<open>
  \<open>src/store.rs\<close>, the wire format of a transaction: \<open>write_to\<close>, the zero-copy view
  \<open>CatscopeTransactionReadWrapper\<close> built by \<open>try_from\<close>, and the view's accessors.
  A byte slice is its bytes with the address \<open>addr\<close> of the first one, since the parser
  checks alignment.
\<close>

section \<open>Layout\<close>

record transaction_header =
  hdr_signature :: "u8 list"
  hdr_index :: u64
  hdr_outer_len :: u32
  hdr_inner_len :: u32
  hdr_account_len :: u32
  hdr_account_chunk_len :: u32
  hdr_data_chunk_len :: u32
  hdr_pad :: u32

definition HEADER_SIZE :: nat where
  "HEADER_SIZE = 96"

definition HEADER_ALIGN :: nat where
  "HEADER_ALIGN = 8"

text \<open>The \<open>repr(C)\<close> image of the header: no padding beside the declared field.\<close>

definition header_bytes :: "transaction_header \<Rightarrow> u8 list" where
  "header_bytes h = hdr_signature h @ to_le_bytes (hdr_index h) @
     to_le_bytes (hdr_outer_len h) @ to_le_bytes (hdr_inner_len h) @
     to_le_bytes (hdr_account_len h) @ to_le_bytes (hdr_account_chunk_len h) @
     to_le_bytes (hdr_data_chunk_len h) @ to_le_bytes (hdr_pad h)"

definition header_of_bytes :: "u8 list \<Rightarrow> transaction_header" where
  "header_of_bytes bs = \<lparr>
     hdr_signature = field 0 64 bs, hdr_index = from_le_bytes (field 64 8 bs),
     hdr_outer_len = from_le_bytes (field 72 4 bs), hdr_inner_len = from_le_bytes (field 76 4 bs),
     hdr_account_len = from_le_bytes (field 80 4 bs),
     hdr_account_chunk_len = from_le_bytes (field 84 4 bs),
     hdr_data_chunk_len = from_le_bytes (field 88 4 bs), hdr_pad = from_le_bytes (field 92 4 bs)\<rparr>"

text \<open>
  A \<open>repr(C)\<close> instruction takes 16 bytes: the program, the two chunk indices and four bytes of
  padding, whose contents the code never sets.  In memory an instruction is therefore a value
  with some padding, a number of 32 bits.
\<close>

definition INSTRUCTION_SIZE :: nat where
  "INSTRUCTION_SIZE = 16"

definition instruction_bytes :: "catscope_instruction \<times> u32 \<Rightarrow> u8 list" where
  "instruction_bytes m = to_le_bytes (ix_program (fst m)) @ to_le_bytes (ix_data_chunk_i (fst m)) @
     to_le_bytes (ix_account_chunk_i (fst m)) @ to_le_bytes (snd m)"

definition instruction_of_bytes :: "u8 list \<Rightarrow> catscope_instruction" where
  "instruction_of_bytes bs = \<lparr>ix_program = from_le_bytes (field 0 8 bs),
     ix_data_chunk_i = from_le_bytes (field 8 2 bs),
     ix_account_chunk_i = from_le_bytes (field 10 2 bs)\<rparr>"

definition memory_of_bytes :: "u8 list \<Rightarrow> catscope_instruction \<times> u32" where
  "memory_of_bytes bs = (instruction_of_bytes bs, from_le_bytes (field 12 4 bs))"

section \<open>Serialising\<close>

text \<open>
  \<open>mem_o\<close> and \<open>mem_i\<close> give the padding that happens to stand in memory beside each
  instruction.  The lengths are truncated by \<open>as u32\<close> and their sum is \<open>u32\<close> arithmetic.
\<close>

definition with_padding :: "(nat \<Rightarrow> u32) \<Rightarrow> catscope_instruction list \<Rightarrow> (catscope_instruction \<times> u32) list" where
  "with_padding mem xs = zip xs (map mem [0..<length xs])"

definition write_to ::
    "profile \<Rightarrow> (nat \<Rightarrow> u32) \<Rightarrow> (nat \<Rightarrow> u32) \<Rightarrow> catscope_transaction \<Rightarrow> u8 list \<Rightarrow> u8 list exec" where
  "write_to p mem_o mem_i tx buf = do {
     let outer_len = (word_of_nat (length (outer tx)) :: u32);
     let inner_len = (word_of_nat (length (inner tx)) :: u32);
     ix_sum \<leftarrow> add_checked p outer_len inner_len;
     let ix_count = unat ix_sum;
     debug_assert p (length (account_chunk_last tx) = ix_count);
     debug_assert p (length (data_chunk_last tx) = ix_count);
     debug_assert p (length (l1_inner tx) = unat outer_len);
     let hdr = \<lparr>hdr_signature = signature tx, hdr_index = tx_index tx,
       hdr_outer_len = outer_len, hdr_inner_len = inner_len,
       hdr_account_len = word_of_nat (length (account tx)),
       hdr_account_chunk_len = word_of_nat (length (account_chunk tx)),
       hdr_data_chunk_len = word_of_nat (length (data_chunk tx)), hdr_pad = 0\<rparr>;
     ret (buf @ header_bytes hdr @
       as_bytes_slice instruction_bytes (with_padding mem_o (outer tx)) @
       as_bytes_slice instruction_bytes (with_padding mem_i (inner tx)) @
       as_bytes_slice to_le_bytes (account tx) @
       as_bytes_slice to_le_bytes (account_chunk tx) @
       as_bytes_slice to_le_bytes (account_chunk_last tx) @
       as_bytes_slice to_le_bytes (data_chunk_last tx) @
       l1_inner tx @ data_chunk tx)
   }"

section \<open>The zero-copy view\<close>

record read_wrapper =
  v_signature :: "u8 list"
  v_index :: u64
  v_account :: "account_id list"
  v_l1_inner :: "u8 list"
  v_data_chunk :: "u8 list"
  v_outer :: "catscope_instruction list"
  v_inner :: "catscope_instruction list"
  v_account_chunk :: "account_id list"
  v_account_chunk_last :: "u16 list"
  v_data_chunk_last :: "u16 list"

text \<open>The \<open>?\<close> operator in a function that may also panic.\<close>

definition try_bind :: "'a result exec \<Rightarrow> ('a \<Rightarrow> 'b result exec) \<Rightarrow> 'b result exec" where
  "try_bind m f = do { r \<leftarrow> m; case r of Inl e \<Rightarrow> ret (Inl e) | Inr x \<Rightarrow> f x }"

lemma try_bind_simps [simp]: "try_bind (Some (Inl e)) f = Some (Inl e)" "try_bind (Some (Inr x)) f = f x" "try_bind None f = None"
  by (simp_all add: try_bind_def)

text \<open>
  \<open>take_slice::<T>(data, &mut offset, count)\<close> for a \<open>T\<close> of size \<open>sz\<close> and alignment
  \<open>align\<close>: the slice and the new offset.
\<close>

definition take_slice ::
    "(u8 list \<Rightarrow> 'a) \<Rightarrow> nat \<Rightarrow> nat \<Rightarrow> nat \<Rightarrow> u8 list \<Rightarrow> nat \<Rightarrow> nat \<Rightarrow> ('a list \<times> nat) result exec" where
  "take_slice dec sz align addr data offset count =
     try_bind (ret (ok_or (usize_checked_mul count sz) OutofRange)) (\<lambda>byte_len.
     try_bind (ret (ok_or (usize_checked_add offset byte_len) OutofRange)) (\<lambda>finish.
     if length data < finish then ret (Inl OutofRange)
     else do {
       bytes \<leftarrow> slice data offset finish;
       if (addr + offset) mod align \<noteq> 0 then ret (Inl UnalignedMemory)
       else ret (Inr (raw_parts dec sz bytes count, finish))
     }))"

definition try_from :: "nat \<Rightarrow> u8 list \<Rightarrow> read_wrapper result exec" where
  "try_from addr data =
     (if length data < HEADER_SIZE then ret (Inl OutofRange)
      else if addr mod HEADER_ALIGN \<noteq> 0 then ret (Inl UnalignedMemory)
      else let hdr = header_of_bytes (take HEADER_SIZE data);
        outer_len = unat (hdr_outer_len hdr);
        inner_len = unat (hdr_inner_len hdr);
        account_len = unat (hdr_account_len hdr);
        account_chunk_len = unat (hdr_account_chunk_len hdr);
        data_chunk_len = unat (hdr_data_chunk_len hdr) in
      try_bind (ret (ok_or (usize_checked_add outer_len inner_len) OutofRange)) (\<lambda>ix_count.
      try_bind (take_slice instruction_of_bytes INSTRUCTION_SIZE 8 addr data HEADER_SIZE outer_len) (\<lambda>(outr, off).
      try_bind (take_slice instruction_of_bytes INSTRUCTION_SIZE 8 addr data off inner_len) (\<lambda>(innr, off).
      try_bind (take_slice from_le_bytes 8 8 addr data off account_len) (\<lambda>(acc, off).
      try_bind (take_slice from_le_bytes 8 8 addr data off account_chunk_len) (\<lambda>(acc_chunk, off).
      try_bind (take_slice from_le_bytes 2 2 addr data off ix_count) (\<lambda>(acc_last, off).
      try_bind (take_slice from_le_bytes 2 2 addr data off ix_count) (\<lambda>(data_last, off).
      try_bind (take_slice hd 1 1 addr data off outer_len) (\<lambda>(l1, off).
      try_bind (take_slice hd 1 1 addr data off data_chunk_len) (\<lambda>(dat, off).
      ret (Inr \<lparr>v_signature = hdr_signature hdr, v_index = hdr_index hdr,
        v_account = acc, v_l1_inner = l1, v_data_chunk = dat, v_outer = outr, v_inner = innr,
        v_account_chunk = acc_chunk, v_account_chunk_last = acc_last,
        v_data_chunk_last = data_last\<rparr>)))))))))))"

section \<open>The view's accessors\<close>

definition view_instruction :: "read_wrapper \<Rightarrow> ix_index \<Rightarrow> catscope_instruction exec" where
  "view_instruction v i = (case i of
     Outer k \<Rightarrow> index (v_outer v) k
   | Inner k \<Rightarrow> index (v_inner v) k)"

definition view_program :: "read_wrapper \<Rightarrow> ix_index \<Rightarrow> account_id exec" where
  "view_program v i = do { ix \<leftarrow> view_instruction v i; ret (ix_program ix) }"

definition view_data :: "read_wrapper \<Rightarrow> ix_index \<Rightarrow> u8 list exec" where
  "view_data v i = do {
     ix \<leftarrow> view_instruction v i;
     (start, finish) \<leftarrow> chunk_bounds (v_data_chunk_last v) (ix_data_chunk_i ix);
     slice (v_data_chunk v) (unat start) (unat finish)
   }"

definition view_account :: "read_wrapper \<Rightarrow> ix_index \<Rightarrow> account_id list exec" where
  "view_account v i = do {
     ix \<leftarrow> view_instruction v i;
     (start, finish) \<leftarrow> chunk_bounds (v_account_chunk_last v) (ix_account_chunk_i ix);
     slice (v_account_chunk v) (unat start) (unat finish)
   }"

definition view_outer :: "read_wrapper \<Rightarrow> ix_index list" where
  "view_outer v = map Outer [0..<length (v_outer v)]"

definition view_inner :: "read_wrapper \<Rightarrow> ix_index list" where
  "view_inner v = map Inner [0..<length (v_inner v)]"

section \<open>Codecs\<close>

interpretation instruction_codec: fixed_codec instruction_bytes memory_of_bytes INSTRUCTION_SIZE
proof unfold_locales
  fix x
  show "length (instruction_bytes x) = INSTRUCTION_SIZE"
    by (simp add: instruction_bytes_def codec_simps INSTRUCTION_SIZE_def)
  show "memory_of_bytes (instruction_bytes x) = x"
    by (cases x, cases "fst x") (simp add: instruction_bytes_def memory_of_bytes_def instruction_of_bytes_def codec_simps)
qed

lemma length_header_bytes [codec_simps]:
  "length (hdr_signature h) = 64 \<Longrightarrow> length (header_bytes h) = HEADER_SIZE"
  by (simp add: header_bytes_def codec_simps HEADER_SIZE_def)

lemma header_roundtrip [codec_simps]:
  "length (hdr_signature h) = 64 \<Longrightarrow> header_of_bytes (header_bytes h) = h"
  by (simp add: header_bytes_def header_of_bytes_def codec_simps)

lemma raw_parts_fst: "raw_parts (\<lambda>bs. fst (d bs)) w bs n = map fst (raw_parts d w bs n)"
  by (induction n arbitrary: bs) simp_all

lemma raw_instructions:
  "n = length xs \<Longrightarrow>
   raw_parts instruction_of_bytes INSTRUCTION_SIZE (as_bytes_slice instruction_bytes (with_padding mem xs)) n = xs"
proof -
  assume n: "n = length xs"
  have d: "instruction_of_bytes = (\<lambda>bs. fst (memory_of_bytes bs))"
    by (simp add: fun_eq_iff memory_of_bytes_def)
  have "n = length (with_padding mem xs)" by (simp add: n with_padding_def)
  from instruction_codec.array_exact [OF this] show ?thesis
    by (simp add: d raw_parts_fst with_padding_def)
qed


section \<open>What the parser accepts\<close>

text \<open>
  The sections of the layout, as a function of the header: their offsets, the size of the whole,
  and the view of an accepted buffer.
\<close>

definition hdr_ix_count :: "transaction_header \<Rightarrow> nat" where
  "hdr_ix_count h = unat (hdr_outer_len h) + unat (hdr_inner_len h)"

definition account_off :: "transaction_header \<Rightarrow> nat" where
  "account_off h = 96 + unat (hdr_outer_len h) * 16 + unat (hdr_inner_len h) * 16"

definition account_chunk_off :: "transaction_header \<Rightarrow> nat" where
  "account_chunk_off h = account_off h + unat (hdr_account_len h) * 8"

definition lasts_off :: "transaction_header \<Rightarrow> nat" where
  "lasts_off h = account_chunk_off h + unat (hdr_account_chunk_len h) * 8"

definition l1_off :: "transaction_header \<Rightarrow> nat" where
  "l1_off h = lasts_off h + hdr_ix_count h * 4"

definition data_off :: "transaction_header \<Rightarrow> nat" where
  "data_off h = l1_off h + unat (hdr_outer_len h)"

definition wire_size :: "transaction_header \<Rightarrow> nat" where
  "wire_size h = data_off h + unat (hdr_data_chunk_len h)"

lemmas layout_defs = wire_size_def data_off_def l1_off_def lasts_off_def account_chunk_off_def
  account_off_def hdr_ix_count_def

definition section_at :: "(u8 list \<Rightarrow> 'a) \<Rightarrow> nat \<Rightarrow> u8 list \<Rightarrow> nat \<Rightarrow> nat \<Rightarrow> 'a list" where
  "section_at dec sz data off n = raw_parts dec sz (take (n * sz) (drop off data)) n"

definition view_at :: "transaction_header \<Rightarrow> u8 list \<Rightarrow> read_wrapper" where
  "view_at h data = \<lparr>
     v_signature = hdr_signature h, v_index = hdr_index h,
     v_account = section_at from_le_bytes 8 data (account_off h) (unat (hdr_account_len h)),
     v_l1_inner = section_at hd 1 data (l1_off h) (unat (hdr_outer_len h)),
     v_data_chunk = section_at hd 1 data (data_off h) (unat (hdr_data_chunk_len h)),
     v_outer = section_at instruction_of_bytes INSTRUCTION_SIZE data 96 (unat (hdr_outer_len h)),
     v_inner = section_at instruction_of_bytes INSTRUCTION_SIZE data
       (96 + unat (hdr_outer_len h) * 16) (unat (hdr_inner_len h)),
     v_account_chunk = section_at from_le_bytes 8 data (account_chunk_off h) (unat (hdr_account_chunk_len h)),
     v_account_chunk_last = section_at from_le_bytes 2 data (lasts_off h) (hdr_ix_count h),
     v_data_chunk_last = section_at from_le_bytes 2 data (lasts_off h + hdr_ix_count h * 2) (hdr_ix_count h)\<rparr>"

lemma take_slice_step:
  assumes "offset \<le> length data" and "(addr + offset) mod align = 0"
    and "offset + count * sz < 2 ^ 64"
  shows "take_slice dec sz align addr data offset count =
    Some (if length data < offset + count * sz then Inl OutofRange
          else Inr (section_at dec sz data offset count, offset + count * sz))"
  using assms by (simp add: take_slice_def usize_checked_mul_def usize_checked_add_def
      section_at_def slice_simps)

lemma unat_u32_less: "unat (w :: u32) < 4294967296"
  using unsigned_less [of w, where ?'a = nat] by simp

text \<open>
  One section after the other: the section is out of range exactly when the buffer ends before
  it, and otherwise the parse goes on behind it.
\<close>

lemma try_take_slice:
  assumes "offset \<le> length data" and "(addr + offset) mod align = 0"
    and "offset + count * sz < 2 ^ 64"
    and "offset + count * sz \<le> size_all"
    and "offset + count * sz \<le> length data \<Longrightarrow>
      f (section_at dec sz data offset count) (offset + count * sz) =
      Some (if length data < size_all then Inl OutofRange else R)"
  shows "try_bind (take_slice dec sz align addr data offset count) (case_prod f) =
    Some (if length data < size_all then Inl OutofRange else R)"
  using assms by (simp add: take_slice_step)

lemma try_from_outcome:
  "try_from addr data = Some (
     let h = header_of_bytes (take HEADER_SIZE data) in
     if length data < HEADER_SIZE then Inl OutofRange
     else if addr mod HEADER_ALIGN \<noteq> 0 then Inl UnalignedMemory
     else if length data < wire_size h then Inl OutofRange
     else Inr (view_at h data))"
proof (cases "length data < HEADER_SIZE \<or> addr mod HEADER_ALIGN \<noteq> 0")
  case True
  then show ?thesis by (auto simp: try_from_def)
next
  case False
  obtain h where h: "header_of_bytes (take HEADER_SIZE data) = h" by blast
  note lim = unat_u32_less [of "hdr_outer_len h"] unat_u32_less [of "hdr_inner_len h"]
    unat_u32_less [of "hdr_account_len h"] unat_u32_less [of "hdr_account_chunk_len h"]
    unat_u32_less [of "hdr_data_chunk_len h"]
  have ok: "96 \<le> length data" "addr mod 8 = 0"
    and guards: "(length data < 96) = False" "(addr mod 8 \<noteq> 0) = False"
    using False by (simp_all add: HEADER_SIZE_def HEADER_ALIGN_def)
  have sum: "usize_checked_add (unat (hdr_outer_len h)) (unat (hdr_inner_len h)) = Some (hdr_ix_count h)"
    using lim by (simp add: usize_checked_add_def hdr_ix_count_def)
  have "try_from addr data = Some (if length data < wire_size h then Inl OutofRange else Inr (view_at h data))"
    unfolding try_from_def Let_def h sum ok_or_simps try_bind_simps
    unfolding HEADER_SIZE_def HEADER_ALIGN_def INSTRUCTION_SIZE_def guards if_False
    apply (intro try_take_slice)
    using ok lim apply (simp_all add: layout_defs view_at_def INSTRUCTION_SIZE_def)
    by presburger+
  then show ?thesis using False by (auto simp: Let_def h)
qed

text \<open>
  C2: The parser is total, and decides by the header alone: a buffer shorter than the header is
  out of range, a misaligned one is rejected as such, one shorter than the sections its header
  announces is out of range, and every other is accepted with the view of its sections.  In
  particular it never panics, never reads past the buffer, and after the first alignment check
  no section can be misaligned.
\<close>

theorem try_from_decides:
  "try_from addr data = Some (
     let h = header_of_bytes (take HEADER_SIZE data) in
     if length data < HEADER_SIZE then Inl OutofRange
     else if addr mod HEADER_ALIGN \<noteq> 0 then Inl UnalignedMemory
     else if length data < wire_size h then Inl OutofRange
     else Inr (view_at h data))"
  by (rule try_from_outcome)


section \<open>Round trip\<close>

text \<open>The view of a transaction in memory, and the header that describes it.\<close>

definition view_of :: "catscope_transaction \<Rightarrow> read_wrapper" where
  "view_of tx = \<lparr>v_signature = signature tx, v_index = tx_index tx, v_account = account tx,
     v_l1_inner = l1_inner tx, v_data_chunk = data_chunk tx, v_outer = outer tx, v_inner = inner tx,
     v_account_chunk = account_chunk tx, v_account_chunk_last = account_chunk_last tx,
     v_data_chunk_last = data_chunk_last tx\<rparr>"

definition header_of :: "catscope_transaction \<Rightarrow> transaction_header" where
  "header_of tx = \<lparr>hdr_signature = signature tx, hdr_index = tx_index tx,
     hdr_outer_len = word_of_nat (length (outer tx)), hdr_inner_len = word_of_nat (length (inner tx)),
     hdr_account_len = word_of_nat (length (account tx)),
     hdr_account_chunk_len = word_of_nat (length (account_chunk tx)),
     hdr_data_chunk_len = word_of_nat (length (data_chunk tx)), hdr_pad = 0\<rparr>"

definition wire_bytes :: "(nat \<Rightarrow> u32) \<Rightarrow> (nat \<Rightarrow> u32) \<Rightarrow> catscope_transaction \<Rightarrow> u8 list" where
  "wire_bytes mem_o mem_i tx = header_bytes (header_of tx) @
     as_bytes_slice instruction_bytes (with_padding mem_o (outer tx)) @
     as_bytes_slice instruction_bytes (with_padding mem_i (inner tx)) @
     as_bytes_slice to_le_bytes (account tx) @
     as_bytes_slice to_le_bytes (account_chunk tx) @
     as_bytes_slice to_le_bytes (account_chunk_last tx) @
     as_bytes_slice to_le_bytes (data_chunk_last tx) @
     l1_inner tx @ data_chunk tx"

text \<open>What the \<open>u32\<close> fields of the header can describe.\<close>

definition fits_header :: "catscope_transaction \<Rightarrow> bool" where
  "fits_header tx \<longleftrightarrow> length (outer tx) + length (inner tx) < 2 ^ 32 \<and>
     length (account_chunk tx) < 2 ^ 32 \<and> length (data_chunk tx) < 2 ^ 32"

lemma account_bounded: "tx_inv tx \<Longrightarrow> length (account tx) \<le> length (account_chunk tx)"
proof -
  assume inv: "tx_inv tx"
  have "length (account tx) \<le> card (set (first_account tx))"
    using inv by (simp add: tx_inv_def)
  also have "\<dots> \<le> length (first_account tx)" by (rule card_length)
  also have "\<dots> \<le> length (account_chunk tx)" by (simp add: first_account_def)
  finally show ?thesis .
qed

text \<open>What serialising and parsing need of the tables of a transaction.\<close>

definition serialisable :: "catscope_transaction \<Rightarrow> bool" where
  "serialisable tx \<longleftrightarrow> fits_header tx \<and> length (account tx) < 2 ^ 32 \<and>
     length (signature tx) = 64 \<and> length (l1_inner tx) = length (outer tx) \<and>
     length (data_chunk_last tx) = length (outer tx) + length (inner tx) \<and>
     length (account_chunk_last tx) = length (outer tx) + length (inner tx)"

lemma built_serialisable: "built p tx \<Longrightarrow> fits_header tx \<Longrightarrow> serialisable tx"
proof -
  assume b: "built p tx" and fits: "fits_header tx"
  from b have inv: "tx_inv tx" by (rule building.inv_reach)
  with account_bounded [OF inv] fits show "serialisable tx"
    by (simp add: tx_inv_def serialisable_def fits_header_def all_instructions_def SIGNATURE_BYTES_def)
qed

lemma header_lengths:
  assumes "serialisable tx"
  shows "unat (hdr_outer_len (header_of tx)) = length (outer tx)"
    "unat (hdr_inner_len (header_of tx)) = length (inner tx)"
    "unat (hdr_account_len (header_of tx)) = length (account tx)"
    "unat (hdr_account_chunk_len (header_of tx)) = length (account_chunk tx)"
    "unat (hdr_data_chunk_len (header_of tx)) = length (data_chunk tx)"
    "length (hdr_signature (header_of tx)) = 64"
    "hdr_ix_count (header_of tx) = length (outer tx) + length (inner tx)"
  using assms
  by (simp_all add: serialisable_def header_of_def fits_header_def unat_of_nat hdr_ix_count_def)

lemma write_to_bytes:
  assumes "serialisable tx"
  shows "write_to p mem_o mem_i tx buf = Some (buf @ wire_bytes mem_o mem_i tx)"
proof -
  note len = header_lengths [OF assms]
  have "add_checked p (word_of_nat (length (outer tx)) :: u32) (word_of_nat (length (inner tx))) =
      Some (word_of_nat (length (outer tx)) + word_of_nat (length (inner tx)))"
    using assms by (intro add_checked_no_overflow) (simp add: serialisable_def fits_header_def unat_of_nat)
  moreover have "unat (word_of_nat (length (outer tx)) + word_of_nat (length (inner tx)) :: u32) =
      length (outer tx) + length (inner tx)"
    using assms by (simp add: serialisable_def fits_header_def unat_of_nat unat_word_ariths)
  ultimately show ?thesis
    using assms len(1)
    by (simp add: write_to_def wire_bytes_def header_of_def serialisable_def)
qed

lemma section_at_skip:
  "length xs \<le> off \<Longrightarrow> section_at dec sz (xs @ ys) off n = section_at dec sz ys (off - length xs) n"
  by (simp add: section_at_def)

lemma section_at_here:
  "length xs = n * sz \<Longrightarrow> section_at dec sz (xs @ ys) 0 n = raw_parts dec sz xs n"
  by (simp add: section_at_def)

lemma raw_u8: "n = length bs \<Longrightarrow> raw_parts hd (Suc 0) bs n = bs"
  using u8_codec.array_exact [of n bs] by (simp add: as_bytes_slice_u8)

lemma section_instructions:
  "n = length xs \<Longrightarrow> section_at instruction_of_bytes INSTRUCTION_SIZE
     (as_bytes_slice instruction_bytes (with_padding mem xs) @ ys) 0 n = xs"
  by (subst section_at_here)
     (simp_all add: instruction_codec.array_length with_padding_def raw_instructions [unfolded with_padding_def])

lemmas array_lengths = instruction_codec.array_length u64_codec.array_length u16_codec.array_length

lemma length_wire_bytes:
  assumes "serialisable tx"
  shows "length (wire_bytes mem_o mem_i tx) = wire_size (header_of tx)"
proof -
  note len = header_lengths [OF assms]
  show ?thesis
    using assms len
    by (simp add: wire_bytes_def array_lengths layout_defs with_padding_def length_header_bytes
        HEADER_SIZE_def INSTRUCTION_SIZE_def serialisable_def)
qed

lemma view_at_wire_bytes:
  assumes "serialisable tx"
  shows "view_at (header_of tx) (wire_bytes mem_o mem_i tx @ rest) = view_of tx"
proof -
  note len = header_lengths [OF assms]
  have sizes: "length (header_bytes (header_of tx)) = 96"
    "length (as_bytes_slice instruction_bytes (with_padding mem_o (outer tx))) = length (outer tx) * 16"
    "length (as_bytes_slice instruction_bytes (with_padding mem_i (inner tx))) = length (inner tx) * 16"
    "length (as_bytes_slice to_le_bytes (account tx)) = length (account tx) * 8"
    "length (as_bytes_slice to_le_bytes (account_chunk tx)) = length (account_chunk tx) * 8"
    "length (as_bytes_slice to_le_bytes (account_chunk_last tx)) = (length (outer tx) + length (inner tx)) * 2"
    "length (as_bytes_slice to_le_bytes (data_chunk_last tx)) = (length (outer tx) + length (inner tx)) * 2"
    "length (l1_inner tx) = length (outer tx)"
    "length (account_chunk_last tx) = length (outer tx) + length (inner tx)"
    "length (data_chunk_last tx) = length (outer tx) + length (inner tx)"
    "hdr_signature (header_of tx) = signature tx" "hdr_index (header_of tx) = tx_index tx"
    using assms len(6)
    by (simp_all add: array_lengths with_padding_def length_header_bytes HEADER_SIZE_def
        INSTRUCTION_SIZE_def serialisable_def header_of_def)
  show ?thesis
    by (simp add: view_at_def view_of_def wire_bytes_def len layout_defs section_at_skip
        section_at_here sizes section_instructions raw_u8 u64_codec.array_exact u16_codec.array_exact)
qed


lemma parse_wire_bytes:
  assumes tx: "serialisable tx" and aligned: "addr mod 8 = 0"
  shows "try_from addr (wire_bytes mem_o mem_i tx @ rest) = Some (Inr (view_of tx))"
proof -
  let ?bs = "wire_bytes mem_o mem_i tx"
  note len = header_lengths [OF tx] and size = length_wire_bytes [OF tx, of mem_o mem_i]
  have 96: "length (header_bytes (header_of tx)) = HEADER_SIZE"
    by (rule length_header_bytes [OF len(6)])
  have hdr: "header_of_bytes (take HEADER_SIZE ?bs) = header_of tx"
    using 96 header_roundtrip [OF len(6)] by (simp add: wire_bytes_def)
  have "HEADER_SIZE \<le> length ?bs" using 96 by (simp add: wire_bytes_def)
  then show ?thesis
    using aligned size view_at_wire_bytes [OF tx, of mem_o mem_i rest]
    by (simp add: try_from_outcome hdr HEADER_ALIGN_def Let_def)
qed

text \<open>
  C1: Serialising a transaction built by writing instructions and parsing it back from an
  8-aligned buffer gives the view of that transaction, field by field, whatever the padding
  bytes in memory and whatever follows it in the buffer; it takes exactly the documented number
  of bytes and is appended to what the buffer held.
\<close>

theorem wire_roundtrip:
  assumes built: "built q tx" and fits: "fits_header tx" and aligned: "addr mod 8 = 0"
  shows "\<exists>bs. write_to p mem_o mem_i tx buf = Some (buf @ bs) \<and>
    length bs = 96 + 16 * (length (outer tx) + length (inner tx)) + 8 * length (account tx) +
      8 * length (account_chunk tx) + 4 * (length (outer tx) + length (inner tx)) +
      length (outer tx) + length (data_chunk tx) \<and>
    try_from addr (bs @ rest) = Some (Inr (view_of tx))"
proof (intro exI conjI)
  note tx = built_serialisable [OF built fits]
  show "write_to p mem_o mem_i tx buf = Some (buf @ wire_bytes mem_o mem_i tx)"
    by (rule write_to_bytes [OF tx])
  show "length (wire_bytes mem_o mem_i tx) = 96 + 16 * (length (outer tx) + length (inner tx)) +
      8 * length (account tx) + 8 * length (account_chunk tx) +
      4 * (length (outer tx) + length (inner tx)) + length (outer tx) + length (data_chunk tx)"
    by (simp add: length_wire_bytes [OF tx] layout_defs header_lengths [OF tx])
  show "try_from addr (wire_bytes mem_o mem_i tx @ rest) = Some (Inr (view_of tx))"
    by (rule parse_wire_bytes [OF tx aligned])
qed

theorem wire_roundtrip_witness:
  "\<exists>tx bs. push_outer 7 [5, 3] [1, 2] default_transaction = Some tx \<and>
     write_to Debug (\<lambda>_. 9) (\<lambda>_. 0) tx [] = Some bs \<and> length bs = 151 \<and>
     try_from 4096 bs = Some (Inr (view_of tx))"
proof -
  let ?tx = "with_touched (outer_pushed 7 [5, 3] [1, 2] default_transaction)"
  note pushed = with_touched_def outer_pushed_def add_chunks_def default_transaction_def
  have push: "push_outer 7 [5, 3] [1, 2] default_transaction = Some ?tx"
    by (rule push_outer_inv(1) [OF tx_inv_default])
  have b: "built Debug ?tx"
    by (rule reach_step [OF reach_init]) (use push_outer_step [OF push] in simp_all)
  have fits: "fits_header ?tx" by (simp add: pushed fits_header_def)
  have "card {3, 5 :: u64} = 2" by simp
  then have len: "length (account ?tx) = 2" "length (outer ?tx) = 1" "length (inner ?tx) = 0"
      "length (account_chunk ?tx) = 2" "length (data_chunk ?tx) = 2"
    by (simp_all add: pushed first_account_def insert_commute)
  from wire_roundtrip [OF b fits, of 4096 Debug "\<lambda>_. 9" "\<lambda>_. 0" "[]" "[]", unfolded len]
  have "\<exists>bs. write_to Debug (\<lambda>_. 9) (\<lambda>_. 0) ?tx [] = Some bs \<and> length bs = 151 \<and>
      try_from 4096 bs = Some (Inr (view_of ?tx))"
    by (simp only: append_Nil append_Nil2) simp
  with push show ?thesis by blast
qed

text \<open>The accessors of the view and those of the transaction in memory agree, panics included.\<close>

lemma view_reads_same:
  "view_program (view_of tx) i = read_program tx i \<and>
   view_data (view_of tx) i = read_data tx i \<and>
   view_account (view_of tx) i = read_account tx i \<and>
   view_outer (view_of tx) = iterate_outer tx 0 \<and>
   view_inner (view_of tx) = iterate_inner tx 0"
proof -
  have "view_instruction (view_of tx) i = get_instruction tx i"
    by (cases i) (simp_all add: view_instruction_def get_instruction_def view_of_def)
  moreover have "v_outer (view_of tx) = outer tx" "v_inner (view_of tx) = inner tx"
      "v_data_chunk_last (view_of tx) = data_chunk_last tx" "v_data_chunk (view_of tx) = data_chunk tx"
      "v_account_chunk_last (view_of tx) = account_chunk_last tx"
      "v_account_chunk (view_of tx) = account_chunk tx"
    by (simp_all add: view_of_def)
  ultimately show ?thesis
    by (simp add: view_program_def view_data_def view_account_def read_program_def read_data_def
        read_account_def view_outer_def view_inner_def iterate_outer_from iterate_inner_from)
qed

text \<open>
  A transaction built in one process reads the same in another: from its serialised form in
  any 8-aligned buffer, the view's accessors give the program, the data and the accounts that the
  transaction in memory gives for every instruction, panics included, and the view iterates over
  the same instructions.
\<close>

lemma delivered_reads_same:
  assumes built: "built q tx" and fits: "fits_header tx" and aligned: "addr mod 8 = 0"
  shows "\<exists>bs v. write_to p mem_o mem_i tx buf = Some (buf @ bs) \<and>
    try_from addr (bs @ rest) = Some (Inr v) \<and>
    v_signature v = signature tx \<and> v_index v = tx_index tx \<and> v_account v = account tx \<and>
    view_program v i = read_program tx i \<and>
    view_data v i = read_data tx i \<and>
    view_account v i = read_account tx i \<and>
    view_outer v = iterate_outer tx 0 \<and> view_inner v = iterate_inner tx 0"
proof -
  note tx = built_serialisable [OF built fits]
  from write_to_bytes [OF tx, of p mem_o mem_i buf] parse_wire_bytes [OF tx aligned, of mem_o mem_i rest]
    view_reads_same [of tx i] show ?thesis by (auto simp: view_of_def)
qed

lemma delivered_reads_same_witness:
  "\<exists>tx bs v. push_outer 7 [5, 3] [1, 2] default_transaction = Some tx \<and>
     write_to Release (\<lambda>_. 9) (\<lambda>_. 0) tx [] = Some bs \<and> try_from 64 bs = Some (Inr v) \<and>
     view_data v (Outer 0) = read_data tx (Outer 0) \<and> view_outer v = [Outer 0]"
proof -
  let ?tx = "with_touched (outer_pushed 7 [5, 3] [1, 2] default_transaction)"
  note pushed = with_touched_def outer_pushed_def add_chunks_def default_transaction_def
  have push: "push_outer 7 [5, 3] [1, 2] default_transaction = Some ?tx"
    by (rule push_outer_inv(1) [OF tx_inv_default])
  have b: "built Debug ?tx"
    by (rule reach_step [OF reach_init]) (use push_outer_step [OF push] in simp_all)
  have fits: "fits_header ?tx" and len: "length (outer ?tx) = 1" by (simp_all add: pushed fits_header_def)
  from delivered_reads_same [OF b fits, of 64 Release "\<lambda>_. 9" "\<lambda>_. 0" "[]" "[]" "Outer 0",
      unfolded iterate_outer_from len] push
  show ?thesis by fastforce
qed

definition bad_ends :: catscope_transaction where
  "bad_ends = default_transaction\<lparr>outer := [default_instruction], l1_inner := [0],
     account_chunk_last := [0], data_chunk_last := [1]\<rparr>"

text \<open>
  Acceptance by the parser does not make the accessors safe: the chunk ends are not checked
  against the chunks, so at every aligned address there is a buffer that \<open>try_from\<close> accepts and whose
  view panics in \<open>data\<close> on an instruction it iterates over.
\<close>

lemma accepted_view_can_panic:
  assumes "addr mod 8 = 0"
  shows "\<exists>data v. try_from addr data = Some (Inr v) \<and> Outer 0 \<in> set (view_outer v) \<and>
     view_program v (Outer 0) = Some 0 \<and> view_data v (Outer 0) = None"
proof -
  have "serialisable bad_ends"
    by (simp add: serialisable_def bad_ends_def default_transaction_def fits_header_def SIGNATURE_BYTES_def)
  from parse_wire_bytes [OF this assms, of "\<lambda>_. 0" "\<lambda>_. 0" "[]"]
  have ok: "try_from addr (wire_bytes (\<lambda>_. 0) (\<lambda>_. 0) bad_ends) = Some (Inr (view_of bad_ends))" by simp
  show ?thesis
    by (intro exI conjI, rule ok)
       (simp_all add: view_of_def bad_ends_def default_transaction_def default_instruction_def
         view_outer_def view_program_def view_data_def view_instruction_def index_def
         chunk_bounds_def slice_def)
qed

end
