(* ===== verification/Delivery.thy ===== *)
theory Delivery
  imports Wire
begin

text \<open>
  \<open>src/store.rs\<close>, end to end: a plugin records the instructions of a transaction, writes it out, and a
  reader in another process walks over the view.
\<close>

section \<open>Recording\<close>

datatype recording = Outer_Ix account_id "account_id list" "u8 list" | Inner_Ix nat account_id "account_id list" "u8 list"

fun record_one :: "profile \<Rightarrow> recording \<Rightarrow> catscope_transaction \<Rightarrow> catscope_transaction exec" where
  "record_one p (Outer_Ix prog accs dat) tx = push_outer prog accs dat tx"
| "record_one p (Inner_Ix k prog accs dat) tx = push_inner p k prog accs dat tx"

primrec record_all :: "profile \<Rightarrow> recording list \<Rightarrow> catscope_transaction \<Rightarrow> catscope_transaction exec" where
  "record_all p [] tx = ret tx"
| "record_all p (r # rs) tx = do { tx \<leftarrow> record_one p r tx; record_all p rs tx }"

fun outer_programs :: "recording list \<Rightarrow> account_id list" where
  "outer_programs [] = []"
| "outer_programs (Outer_Ix prog accs dat # rs) = prog # outer_programs rs"
| "outer_programs (Inner_Ix k prog accs dat # rs) = outer_programs rs"

fun inner_programs :: "recording list \<Rightarrow> account_id list" where
  "inner_programs [] = []"
| "inner_programs (Outer_Ix prog accs dat # rs) = inner_programs rs"
| "inner_programs (Inner_Ix k prog accs dat # rs) = prog # inner_programs rs"

section \<open>What is recorded\<close>

lemma pushed_programs:
  "map ix_program (outer (with_touched (outer_pushed prog accs dat tx))) = map ix_program (outer tx) @ [prog]"
  "map ix_program (inner (with_touched (outer_pushed prog accs dat tx))) = map ix_program (inner tx)"
  "map ix_program (outer (with_touched (inner_pushed k prog accs dat tx))) = map ix_program (outer tx)"
  "map ix_program (inner (with_touched (inner_pushed k prog accs dat tx))) = map ix_program (inner tx) @ [prog]"
  by (simp_all add: with_touched_def outer_pushed_def inner_pushed_def add_chunks_def new_instruction_def)

lemma record_one_step: "record_one p r tx = Some tx' \<Longrightarrow> push_step p tx tx'"
  by (cases r) (auto intro: push_outer_step push_inner_step)

lemma record_one_programs:
  assumes "tx_inv tx" and "record_one p r tx = Some tx'"
  shows "map ix_program (outer tx') = map ix_program (outer tx) @ outer_programs [r] \<and>
    map ix_program (inner tx') = map ix_program (inner tx) @ inner_programs [r]"
proof (cases r)
  case (Outer_Ix prog accs dat)
  then have "tx' = with_touched (outer_pushed prog accs dat tx)"
    using assms(2) push_outer_inv(1) [OF assms(1), of prog accs dat] by simp
  then show ?thesis using Outer_Ix by (simp add: pushed_programs)
next
  case (Inner_Ix k prog accs dat)
  then have push: "push_inner p k prog accs dat tx = Some tx'" using assms(2) by simp
  note k = push_inner_Some(1,2) [OF push]
  have "k < length (outer tx)" using k(1) assms(1) by (simp add: tx_inv_def)
  then have "tx' = with_touched (inner_pushed k prog accs dat tx)"
    using push_inner_inv(1) [OF assms(1) _ k(2), of prog accs dat] push by simp
  then show ?thesis using Inner_Ix by (simp add: pushed_programs)
qed

lemma record_all_programs:
  "tx_inv tx \<Longrightarrow> record_all p rs tx = Some tx' \<Longrightarrow>
   map ix_program (outer tx') = map ix_program (outer tx) @ outer_programs rs \<and>
   map ix_program (inner tx') = map ix_program (inner tx) @ inner_programs rs"
proof (induction rs arbitrary: tx)
  case (Cons r rs)
  then obtain tx1 where tx1: "record_one p r tx = Some tx1" "record_all p rs tx1 = Some tx'"
    by (auto simp: Option.bind_eq_Some_conv)
  have "tx_inv tx1" by (rule push_step_inv(1) [OF Cons.prems(1) record_one_step [OF tx1(1)]])
  from Cons.IH [OF this tx1(2)] record_one_programs [OF Cons.prems(1) tx1(1)] show ?case by (cases r) simp_all
qed simp

lemma record_all_reach:
  "record_all p rs tx = Some tx' \<Longrightarrow> reach init (push_step p) tx \<Longrightarrow> reach init (push_step p) tx'"
proof (induction rs arbitrary: tx)
  case (Cons r rs)
  then obtain tx1 where "record_one p r tx = Some tx1" "record_all p rs tx1 = Some tx'"
    by (auto simp: Option.bind_eq_Some_conv)
  with Cons show ?case by (blast intro: reach_step record_one_step)
qed simp

section \<open>What is delivered\<close>

text \<open>
  C9: From recording to reading, in one statement: the view a reader gets of a recorded transaction
  iterates over exactly the recorded instructions, outer and inner, in order and each with its own
  program; the data and the accounts it gives for any of them are those of the first instruction
  recorded, cut to their lengths modulo 65536.
\<close>

theorem recorded_transaction_delivered:
  assumes rec: "record_all p (Outer_Ix prog accs dat # rs) default_transaction = Some tx"
    and fits: "fits_header tx" and aligned: "addr mod 8 = 0"
  shows "\<exists>bs v. write_to q mem_o mem_i tx buf = Some (buf @ bs) \<and> try_from addr (bs @ rest) = Some (Inr v) \<and>
    view_outer v = map Outer [0..<Suc (length (outer_programs rs))] \<and>
    view_inner v = map Inner [0..<length (inner_programs rs)] \<and>
    map (view_program v) (view_outer v) = map Some (prog # outer_programs rs) \<and>
    map (view_program v) (view_inner v) = map Some (inner_programs rs) \<and>
    (\<forall>i \<in> set (view_outer v @ view_inner v). view_data v i = Some (take (length dat mod 65536) dat) \<and>
       view_account v i = Some (take (length accs mod 65536) accs)) \<and>
    v_account v = sorted_list_of_set (set (take (length accs mod 65536) accs))"
proof -
  let ?tx1 = "with_touched (outer_pushed prog accs dat default_transaction)"
  have rest: "record_all p rs ?tx1 = Some tx"
    using rec push_outer_inv(1) [OF tx_inv_default, of prog accs dat] by simp
  note inv1 = push_outer_inv(2) [OF tx_inv_default, of prog accs dat]
  have "reach (\<lambda>s. s = ?tx1) (push_step p) tx" by (rule record_all_reach [OF rest]) (simp add: reach_init)
  from after_first.inv_reach [OF this] have inv: "tx_inv tx"
    and fd: "first_data tx = take (length dat mod 65536) dat"
    and fa: "first_account tx = take (length accs mod 65536) accs" and some: "all_instructions tx \<noteq> []" by simp_all
  have b: "built p tx" by (rule record_all_reach [OF rec]) (simp add: reach_init)
  note tx = built_serialisable [OF b fits]
  note view = view_reads_same [of tx, unfolded iterate_outer_from iterate_inner_from]
  have programs: "map ix_program (outer tx) = prog # outer_programs rs" "map ix_program (inner tx) = inner_programs rs"
    using record_all_programs [OF inv1 rest] by (simp_all add: pushed_programs) (simp_all add: default_transaction_def)
  then have len: "length (outer tx) = Suc (length (outer_programs rs))" "length (inner tx) = length (inner_programs rs)"
    by (metis length_map length_Cons)+
  have get: "get_instruction tx (Outer n) = Some (outer tx ! n)" if "n < length (outer tx)" for n
    using that by (simp add: get_instruction_def slice_simps)
  have get': "get_instruction tx (Inner n) = Some (inner tx ! n)" if "n < length (inner tx)" for n
    using that by (simp add: get_instruction_def slice_simps)
  have "map (view_program (view_of tx)) (map Outer [0..<length (outer tx)]) = map Some (map ix_program (outer tx))"
    by (rule nth_equalityI) (simp_all add: view read_program_def get)
  moreover have "map (view_program (view_of tx)) (map Inner [0..<length (inner tx)]) = map Some (map ix_program (inner tx))"
    by (rule nth_equalityI) (simp_all add: view read_program_def get')
  moreover have "view_data (view_of tx) i = Some (take (length dat mod 65536) dat) \<and>
      view_account (view_of tx) i = Some (take (length accs mod 65536) accs)"
    if i: "i \<in> set (view_outer (view_of tx) @ view_inner (view_of tx))" for i
  proof -
    obtain ix where "get_instruction tx i = Some ix" using i get get' by (auto simp: view)
    from tx_inv_read [OF inv this] show ?thesis by (simp add: view fd fa)
  qed
  moreover have "v_account (view_of tx) = sorted_list_of_set (set (take (length accs mod 65536) accs))"
    using inv some fa by (simp add: view_of_def tx_inv_def)
  ultimately show ?thesis
    using write_to_bytes [OF tx, of q mem_o mem_i buf] parse_wire_bytes [OF tx aligned, of mem_o mem_i rest] view
    unfolding len programs by auto
qed

theorem recorded_transaction_delivered_witness:
  "\<exists>tx bs v. record_all Debug [Outer_Ix 7 [5, 3] [1, 2], Inner_Ix 0 8 [9] [4]] default_transaction = Some tx \<and>
     write_to Debug (\<lambda>_. 9) (\<lambda>_. 0) tx [] = Some bs \<and> try_from 4096 bs = Some (Inr v) \<and>
     view_outer v = [Outer 0] \<and> view_inner v = [Inner 0] \<and> view_program v (Inner 0) = Some 8 \<and>
     view_data v (Inner 0) = Some [1, 2]"
proof -
  let ?tx1 = "with_touched (outer_pushed 7 [5, 3] [1, 2] default_transaction)"
  let ?tx = "with_touched (inner_pushed 0 8 [9] [4] ?tx1)"
  note pushed = with_touched_def outer_pushed_def inner_pushed_def add_chunks_def default_transaction_def
  have "push_inner Debug 0 8 [9] [4] ?tx1 = Some ?tx"
    by (rule push_inner_inv(1) [OF push_outer_inv(2) [OF tx_inv_default]]) (simp_all add: pushed add_checked_def)
  then have rec: "record_all Debug [Outer_Ix 7 [5, 3] [1, 2], Inner_Ix 0 8 [9] [4]] default_transaction = Some ?tx"
    using push_outer_inv(1) [OF tx_inv_default, of 7 "[5, 3]" "[1, 2]"] by simp
  have fits: "fits_header ?tx" by (simp add: pushed fits_header_def)
  from recorded_transaction_delivered [OF rec fits, of 4096 Debug "\<lambda>_. 9" "\<lambda>_. 0" "[]" "[]"] rec
  show ?thesis by fastforce
qed

section \<open>What any accepted view is\<close>

definition chunk_fits :: "u16 list \<Rightarrow> 'a list \<Rightarrow> nat \<Rightarrow> bool" where
  "chunk_fits lasts chunk c \<longleftrightarrow> c < length lasts \<and>
     (let start = (if c = 0 then 0 else unat (lasts ! (c - 1))); finish = unat (lasts ! c) in
      start \<le> finish \<and> finish \<le> length chunk)"

lemma chunk_reads:
  "do { (start, finish) \<leftarrow> chunk_bounds lasts c; slice chunk (unat start) (unat finish) } \<noteq> None \<longleftrightarrow>
     chunk_fits lasts chunk (unat c)"
  by (auto simp: chunk_fits_def chunk_bounds_def slice_def index_def Let_def)

text \<open>
  C32: Whatever bytes a view was accepted from, its tables have the lengths that belong together, each
  instruction it iterates over exists and has a program, and its data and its accounts can be read
  without a panic exactly if its chunk index is in the table of ends and the ends around it are in
  order and inside the chunk.
\<close>

theorem accepted_view_typed:
  assumes "try_from addr data = Some (Inr v)"
  shows "length (v_signature v) = SIGNATURE_BYTES \<and> length (v_l1_inner v) = length (v_outer v) \<and>
    length (v_data_chunk_last v) = length (v_outer v) + length (v_inner v) \<and>
    length (v_account_chunk_last v) = length (v_outer v) + length (v_inner v) \<and>
    (\<forall>i \<in> set (view_outer v @ view_inner v). \<exists>ix. view_instruction v i = Some ix \<and> view_program v i = Some (ix_program ix) \<and>
       (view_data v i \<noteq> None \<longleftrightarrow> chunk_fits (v_data_chunk_last v) (v_data_chunk v) (unat (ix_data_chunk_i ix))) \<and>
       (view_account v i \<noteq> None \<longleftrightarrow> chunk_fits (v_account_chunk_last v) (v_account_chunk v) (unat (ix_account_chunk_i ix))))"
proof -
  obtain h where size: "HEADER_SIZE \<le> length data" and h: "h = header_of_bytes (take HEADER_SIZE data)" and v: "v = view_at h data"
    using assms by (auto simp: try_from_outcome Let_def split: if_splits)
  have "length (hdr_signature h) = 64" using size by (simp add: h header_of_bytes_def field_def HEADER_SIZE_def)
  then have lengths: "length (v_signature v) = SIGNATURE_BYTES" "length (v_l1_inner v) = length (v_outer v)"
    "length (v_data_chunk_last v) = length (v_outer v) + length (v_inner v)"
    "length (v_account_chunk_last v) = length (v_outer v) + length (v_inner v)"
    by (simp_all add: v view_at_def section_at_def hdr_ix_count_def SIGNATURE_BYTES_def)
  have "\<exists>ix. view_instruction v i = Some ix" if "i \<in> set (view_outer v @ view_inner v)" for i
    using that by (auto simp: view_outer_def view_inner_def view_instruction_def)
  then have "\<exists>ix. view_instruction v i = Some ix \<and> view_program v i = Some (ix_program ix) \<and>
       (view_data v i \<noteq> None \<longleftrightarrow> chunk_fits (v_data_chunk_last v) (v_data_chunk v) (unat (ix_data_chunk_i ix))) \<and>
       (view_account v i \<noteq> None \<longleftrightarrow> chunk_fits (v_account_chunk_last v) (v_account_chunk v) (unat (ix_account_chunk_i ix)))"
    if "i \<in> set (view_outer v @ view_inner v)" for i
    using that unfolding view_program_def view_data_def view_account_def by (fastforce simp: chunk_reads [symmetric])
  with lengths show ?thesis by blast
qed

theorem accepted_view_typed_witness:
  "\<exists>data v. try_from 4096 data = Some (Inr v) \<and> view_outer v = [Outer 0] \<and> view_data v (Outer 0) \<noteq> None \<and>
     chunk_fits (v_data_chunk_last v) (v_data_chunk v) 0"
proof -
  let ?tx = "with_touched (outer_pushed 7 [5, 3] [1, 2] default_transaction)"
  note pushed = with_touched_def outer_pushed_def add_chunks_def default_transaction_def
  have push: "push_outer 7 [5, 3] [1, 2] default_transaction = Some ?tx" and inv: "tx_inv ?tx"
    by (rule push_outer_inv [OF tx_inv_default])+
  have b: "built Debug ?tx" by (rule reach_step [OF reach_init]) (use push_outer_step [OF push] in simp_all)
  have fits: "fits_header ?tx" by (simp add: pushed fits_header_def)
  let ?bs = "wire_bytes (\<lambda>_. 0) (\<lambda>_. 0) ?tx"
  have parsed: "try_from 4096 ?bs = Some (Inr (view_of ?tx))"
    using parse_wire_bytes [OF built_serialisable [OF b fits], of 4096 _ _ "[]"] by simp
  have get: "get_instruction ?tx (Outer 0) = Some (new_instruction 7)" by (simp add: get_instruction_def pushed slice_simps)
  have view: "view_outer (view_of ?tx) = [Outer 0]" "view_instruction (view_of ?tx) (Outer 0) = Some (new_instruction 7)"
    by (simp_all add: view_outer_def view_instruction_def view_of_def pushed slice_simps)
  have data: "view_data (view_of ?tx) (Outer 0) \<noteq> None"
    using view_reads_same [of ?tx "Outer 0"] tx_inv_read(1) [OF inv get] by simp
  from accepted_view_typed [OF parsed] view data
  have "chunk_fits (v_data_chunk_last (view_of ?tx)) (v_data_chunk (view_of ?tx)) 0"
    by (auto simp: new_instruction_def default_instruction_def)
  with parsed view(1) data show ?thesis by blast
qed

end
