(* ===== verification/Ring.thy ===== *)
theory Ring
  imports Transitions
begin

unbundle bit_operations_syntax

text \<open>
  \<open>src/buffer.rs\<close>: the broadcast ring buffer.  Producers claim a sequence number on the
  write cursor and write the slot it names; every consumer has a read cursor of its own and skips
  ahead when it has been lapped.  A slot is \<open>None\<close> until it is first written
  (\<open>MaybeUninit::uninit()\<close>).
\<close>

section \<open>The ring and its producers\<close>

definition RING_SIZE :: nat where
  "RING_SIZE = 8192"

definition RING_MASK :: u64 where
  "RING_MASK = word_of_nat RING_SIZE - 1"

record 'tx transaction_ring =
  write_cursor :: u64
  slots :: "'tx option list"

definition ring_new :: "'tx transaction_ring" where
  "ring_new = \<lparr>write_cursor = 0, slots = replicate RING_SIZE None\<rparr>"

definition slot_index :: "u64 \<Rightarrow> nat" where
  "slot_index seq = unat (seq AND RING_MASK)"

text \<open>
  \<open>claim\<close> is a compare-and-exchange that succeeds: it moves the cursor past \<open>current\<close>, the
  sequence number claimed.  \<open>write_slot\<close> then writes the slot.  \<open>push\<close> is the two actions in
  a row; a failed exchange changes nothing and is tried again.
\<close>

definition claim :: "profile \<Rightarrow> 'tx transaction_ring \<Rightarrow> (u64 \<times> 'tx transaction_ring) exec" where
  "claim p rb = do {
     let current = write_cursor rb;
     next \<leftarrow> add_checked p current 1;
     ret (current, rb\<lparr>write_cursor := next\<rparr>)
   }"

definition write_slot :: "u64 \<Rightarrow> 'tx \<Rightarrow> 'tx transaction_ring \<Rightarrow> 'tx transaction_ring exec" where
  "write_slot seq tx rb = do {
     s \<leftarrow> store_at (slots rb) (slot_index seq) (Some tx);
     ret (rb\<lparr>slots := s\<rparr>)
   }"

definition push :: "profile \<Rightarrow> 'tx \<Rightarrow> 'tx transaction_ring \<Rightarrow> (u64 \<times> 'tx transaction_ring) exec" where
  "push p tx rb = do {
     (seq, rb) \<leftarrow> claim p rb;
     rb \<leftarrow> write_slot seq tx rb;
     ret (seq, rb)
   }"

text \<open>\<open>try_push\<close> loses when another producer moves the cursor between its load and its exchange.\<close>

definition try_push ::
    "profile \<Rightarrow> u64 \<Rightarrow> 'tx \<Rightarrow> 'tx transaction_ring \<Rightarrow> (u64 option \<times> 'tx transaction_ring) exec" where
  "try_push p current tx rb = do {
     next \<leftarrow> add_checked p current 1;
     if write_cursor rb \<noteq> current then ret (None, rb)
     else do {
       rb \<leftarrow> write_slot current tx (rb\<lparr>write_cursor := next\<rparr>);
       ret (Some current, rb)
     }
   }"

definition producer_position :: "'tx transaction_ring \<Rightarrow> u64" where
  "producer_position rb = write_cursor rb"

section \<open>Consumers\<close>

record consumer =
  read_cursor :: u64

definition new_consumer :: "'tx transaction_ring \<Rightarrow> consumer" where
  "new_consumer rb = \<lparr>read_cursor = write_cursor rb\<rparr>"

text \<open>What \<open>try_pop\<close> finds: nothing new, a transaction, or memory no producer has written.\<close>

datatype 'tx popped = Nothing_new | Popped 'tx | Uninitialised

definition saturating_sub :: "u64 \<Rightarrow> u64 \<Rightarrow> u64" where
  "saturating_sub a b = (if b \<le> a then a - b else 0)"

definition try_pop :: "profile \<Rightarrow> 'tx transaction_ring \<Rightarrow> consumer \<Rightarrow> ('tx popped \<times> consumer) exec" where
  "try_pop p rb c = do {
     let write_pos = write_cursor rb;
     if write_pos \<le> read_cursor c then ret (Nothing_new, c)
     else do {
       let distance = write_pos - read_cursor c;
       let c = (if word_of_nat RING_SIZE < distance
                then c\<lparr>read_cursor := saturating_sub write_pos (word_of_nat RING_SIZE)\<rparr> else c);
       let idx = slot_index (read_cursor c);
       next \<leftarrow> add_checked p (read_cursor c) 1;
       slot \<leftarrow> index (slots rb) idx;
       ret (case slot of None \<Rightarrow> Uninitialised | Some tx \<Rightarrow> Popped tx, c\<lparr>read_cursor := next\<rparr>)
     }
   }"

definition consumer_position :: "consumer \<Rightarrow> u64" where
  "consumer_position c = read_cursor c"

definition lag :: "'tx transaction_ring \<Rightarrow> consumer \<Rightarrow> u64" where
  "lag rb c = saturating_sub (write_cursor rb) (read_cursor c)"

definition is_lapped :: "'tx transaction_ring \<Rightarrow> consumer \<Rightarrow> bool" where
  "is_lapped rb c \<longleftrightarrow> word_of_nat RING_SIZE < lag rb c"

text \<open>
  The two actions of \<open>try_pop\<close>: the check of the cursor, with the index of the slot to read, and the
  read.  They change no shared state, so a consumer is its first action in one state of a run and
  its second in a later one.
\<close>

definition pop_load :: "profile \<Rightarrow> 'tx transaction_ring \<Rightarrow> consumer \<Rightarrow> (nat option \<times> consumer) exec" where
  "pop_load p rb c = do {
     let write_pos = write_cursor rb;
     if write_pos \<le> read_cursor c then ret (None, c)
     else do {
       let distance = write_pos - read_cursor c;
       let c = (if word_of_nat RING_SIZE < distance
                then c\<lparr>read_cursor := saturating_sub write_pos (word_of_nat RING_SIZE)\<rparr> else c);
       let idx = slot_index (read_cursor c);
       next \<leftarrow> add_checked p (read_cursor c) 1;
       ret (Some idx, c\<lparr>read_cursor := next\<rparr>)
     }
   }"

definition pop_look :: "'tx transaction_ring \<Rightarrow> nat \<Rightarrow> 'tx popped exec" where
  "pop_look rb idx = do {
     slot \<leftarrow> index (slots rb) idx;
     ret (case slot of None \<Rightarrow> Uninitialised | Some tx \<Rightarrow> Popped tx)
   }"

lemma try_pop_actions:
  "try_pop p rb c = do {
     (idx, c) \<leftarrow> pop_load p rb c;
     case idx of
       None \<Rightarrow> ret (Nothing_new, c)
     | Some idx \<Rightarrow> do { x \<leftarrow> pop_look rb idx; ret (x, c) }
   }"
  by (cases "add_checked p (read_cursor c) 1";
      cases "add_checked p (saturating_sub (write_cursor rb) (word_of_nat RING_SIZE)) 1")
     (simp_all add: try_pop_def pop_load_def pop_look_def Let_def Option.bind_assoc)

section \<open>What the ring holds\<close>

lemma slot_index_mod: "slot_index seq = unat seq mod RING_SIZE"
proof -
  have "RING_MASK = mask 13" by (simp add: RING_MASK_def RING_SIZE_def mask_eq_exp_minus_1)
  then have "seq AND RING_MASK = take_bit 13 seq" by (simp add: take_bit_eq_mask)
  moreover have "unat (take_bit 13 seq) = take_bit 13 (unat seq)"
    by (rule unsigned_take_bit_eq)
  ultimately show ?thesis
    by (simp add: slot_index_def RING_SIZE_def take_bit_eq_mod)
qed

text \<open>The last \<open>RING_SIZE\<close> of the transactions \<open>xs\<close> pushed so far stand in their slots.\<close>

definition ring_holds :: "'tx list \<Rightarrow> 'tx transaction_ring \<Rightarrow> bool" where
  "ring_holds xs rb \<longleftrightarrow> length xs < 2 ^ 64 \<and> write_cursor rb = word_of_nat (length xs) \<and>
     length (slots rb) = RING_SIZE \<and>
     (\<forall>j < length xs. length xs \<le> j + RING_SIZE \<longrightarrow> slots rb ! (j mod RING_SIZE) = Some (xs ! j))"

lemma ring_holds_new: "ring_holds [] ring_new"
  by (simp add: ring_holds_def ring_new_def)

lemma same_slot:
  assumes "j mod n = m mod n" and "j < m" and "(m :: nat) < j + n"
  shows False
proof -
  have "(m - j) mod n = 0" using assms(1,2) by (metis mod_eq_dvd_iff_nat less_imp_le mod_eq_0_iff_dvd)
  then show False using assms(2,3) by simp
qed

lemma add_checked_next:
  "n + 1 < 2 ^ 64 \<Longrightarrow> add_checked p (word_of_nat n :: u64) 1 = Some (word_of_nat (n + 1))"
  by (subst add_checked_no_overflow) (simp_all add: unat_of_nat)

lemma push_holds:
  assumes "ring_holds xs rb" and "length xs + 1 < 2 ^ 64"
  shows "\<exists>rb'. push p x rb = Some (word_of_nat (length xs), rb') \<and> ring_holds (xs @ [x]) rb'"
proof -
  let ?n = "length xs"
  have n: "unat (word_of_nat ?n :: u64) = ?n" using assms(2) by (simp add: unat_of_nat)
  have add: "add_checked p (word_of_nat ?n :: u64) 1 = Some (word_of_nat (?n + 1))"
    by (rule add_checked_next [OF assms(2)])
  let ?rb = "rb\<lparr>write_cursor := word_of_nat (?n + 1), slots := (slots rb)[?n mod RING_SIZE := Some x]\<rparr>"
  have len: "?n mod RING_SIZE < length (slots rb)"
    using assms(1) by (simp add: ring_holds_def RING_SIZE_def)
  have "push p x rb = Some (word_of_nat ?n, ?rb)"
    using assms(1) add n len
    by (cases rb) (simp add: push_def claim_def write_slot_def ring_holds_def slot_index_mod slice_simps Let_def)
  moreover have "ring_holds (xs @ [x]) ?rb"
    unfolding ring_holds_def
  proof (intro conjI allI impI)
    fix j assume j: "j < length (xs @ [x])" "length (xs @ [x]) \<le> j + RING_SIZE"
    show "slots ?rb ! (j mod RING_SIZE) = Some ((xs @ [x]) ! j)"
    proof (cases "j = ?n")
      case True
      then show ?thesis using len by simp
    next
      case False
      then have "j mod RING_SIZE \<noteq> ?n mod RING_SIZE" using j same_slot [of j RING_SIZE ?n] by auto
      then show ?thesis using False j assms(1) by (simp add: ring_holds_def nth_append)
    qed
  qed (use assms in \<open>simp_all add: ring_holds_def\<close>)
  ultimately show ?thesis by blast
qed

lemma unat_small: "n < 2 ^ 64 \<Longrightarrow> unat (word_of_nat n :: u64) = n"
  by (simp add: unat_of_nat)

text \<open>Where a consumer reads after \<open>n\<close> claims: at its cursor, or \<open>RING_SIZE\<close> behind the writer.\<close>

lemma load_position:
  assumes "write_cursor rb = word_of_nat n" and "n < 2 ^ 64" and "unat (read_cursor c) < n"
    and pos: "pos = max (unat (read_cursor c)) (n - RING_SIZE)"
  shows "pop_load p rb c = Some (Some (pos mod RING_SIZE), \<lparr>read_cursor = word_of_nat (pos + 1)\<rparr>)"
    and "is_lapped rb c \<longleftrightarrow> unat (read_cursor c) + RING_SIZE < n"
proof -
  let ?r = "read_cursor c"
  have n: "unat (word_of_nat n :: u64) = n" by (rule unat_small [OF assms(2)])
  have lt: "\<not> word_of_nat n \<le> ?r" using assms(3) n by (simp add: word_le_nat_alt)
  have le: "?r \<le> word_of_nat n" using lt by simp
  have dist: "unat (word_of_nat n - ?r) = n - unat ?r" using le n by (simp add: unat_sub)
  have size: "unat (word_of_nat RING_SIZE :: u64) = RING_SIZE" by (simp add: RING_SIZE_def)
  have far: "word_of_nat RING_SIZE < (word_of_nat n :: u64) - ?r \<longleftrightarrow> unat ?r + RING_SIZE < n"
    using dist size by (simp add: word_less_nat_alt less_diff_conv add.commute)
  then show "is_lapped rb c \<longleftrightarrow> unat ?r + RING_SIZE < n"
    using assms(1) le by (simp add: is_lapped_def lag_def saturating_sub_def)
  have "pos < n" using assms(3) pos by (auto simp: RING_SIZE_def)
  then have p: "unat (word_of_nat pos :: u64) = pos"
    "add_checked p (word_of_nat pos :: u64) 1 = Some (word_of_nat (pos + 1))"
    using assms(2) by (simp_all only: unat_small add_checked_next)
  have skip: "saturating_sub (word_of_nat n) (word_of_nat RING_SIZE) = word_of_nat pos" if "unat ?r + RING_SIZE < n"
  proof -
    have "pos = n - RING_SIZE" using that pos by simp
    with that show ?thesis by (simp add: saturating_sub_def word_le_nat_alt of_nat_diff n size)
  qed
  have stay: "?r = word_of_nat pos" if "\<not> unat ?r + RING_SIZE < n"
  proof -
    have "pos = unat ?r" using that pos by (simp add: max_def) linarith
    then show ?thesis by simp
  qed
  show "pop_load p rb c = Some (Some (pos mod RING_SIZE), \<lparr>read_cursor = word_of_nat (pos + 1)\<rparr>)"
  proof (cases "unat ?r + RING_SIZE < n")
    case True
    then show ?thesis using p skip far lt by (simp add: pop_load_def assms(1) slot_index_mod Let_def)
  next
    case False
    then have "c = \<lparr>read_cursor = word_of_nat pos\<rparr>" using stay by (cases c) simp
    then show ?thesis using False p far lt by (simp add: pop_load_def assms(1) slot_index_mod Let_def)
  qed
qed

lemma try_pop_holds:
  assumes "ring_holds xs rb" and "unat (read_cursor c) < length xs"
    and pos: "pos = max (unat (read_cursor c)) (length xs - RING_SIZE)"
  shows "try_pop p rb c = Some (Popped (xs ! pos), \<lparr>read_cursor = word_of_nat (pos + 1)\<rparr>)"
    and "is_lapped rb c \<longleftrightarrow> unat (read_cursor c) + RING_SIZE < length xs"
proof -
  have h: "write_cursor rb = word_of_nat (length xs)" "length xs < 2 ^ 64"
    using assms(1) by (simp_all add: ring_holds_def)
  note load = load_position [OF h assms(2) pos]
  show "is_lapped rb c \<longleftrightarrow> unat (read_cursor c) + RING_SIZE < length xs" by (rule load(2))
  have b: "pos < length xs" "length xs \<le> pos + RING_SIZE" using assms(2) pos by (auto simp: RING_SIZE_def)
  have "slots rb ! (pos mod RING_SIZE) = Some (xs ! pos)"
    using assms(1) b unfolding ring_holds_def by blast
  moreover have "pos mod RING_SIZE < length (slots rb)" using assms(1) by (simp add: ring_holds_def RING_SIZE_def)
  ultimately show "try_pop p rb c = Some (Popped (xs ! pos), \<lparr>read_cursor = word_of_nat (pos + 1)\<rparr>)"
    by (simp add: try_pop_actions load(1) pop_look_def slice_simps)
qed
lemma try_pop_none:
  assumes "ring_holds xs rb" and "length xs \<le> unat (read_cursor c)"
  shows "try_pop p rb c = Some (Nothing_new, c)"
proof -
  have "write_cursor rb \<le> read_cursor c"
    using assms by (simp add: ring_holds_def word_le_nat_alt unat_of_nat)
  then show ?thesis by (simp add: try_pop_def)
qed

section \<open>A consumer and the producers, one method at a time\<close>

datatype 'tx ring_call = Push 'tx | Pop

primrec ring_run ::
    "profile \<Rightarrow> 'tx ring_call list \<Rightarrow> 'tx transaction_ring \<times> consumer \<Rightarrow>
     ('tx popped list \<times> 'tx transaction_ring \<times> consumer) exec" where
  "ring_run p [] s = Some ([], s)"
| "ring_run p (c # cs) s = (case c of
     Push x \<Rightarrow> do {
       (seq, rb) \<leftarrow> push p x (fst s);
       ring_run p cs (rb, snd s)
     }
   | Pop \<Rightarrow> do {
       (x, k) \<leftarrow> try_pop p (fst s) (snd s);
       (xs, s) \<leftarrow> ring_run p cs (fst s, k);
       ret (x # xs, s)
     })"

definition pushed :: "'tx ring_call list \<Rightarrow> 'tx list" where
  "pushed cs = concat (map (\<lambda>c. case c of Push x \<Rightarrow> [x] | Pop \<Rightarrow> []) cs)"

definition received :: "'tx popped list \<Rightarrow> 'tx list" where
  "received ys = concat (map (\<lambda>y. case y of Popped x \<Rightarrow> [x] | _ \<Rightarrow> []) ys)"

lemma run_views [simp]:
  "pushed [] = []" "pushed (Push x # cs) = x # pushed cs" "pushed (Pop # cs) = pushed cs"
  "received [] = []" "received (Popped x # ys) = x # received ys" "received (Nothing_new # ys) = received ys"
  by (simp_all add: pushed_def received_def)

text \<open>The consumer is never lapped when it pops.\<close>

primrec keeps_up :: "profile \<Rightarrow> 'tx ring_call list \<Rightarrow> 'tx transaction_ring \<times> consumer \<Rightarrow> bool" where
  "keeps_up p [] s = True"
| "keeps_up p (c # cs) s = (case c of
     Push x \<Rightarrow> (case push p x (fst s) of Some (seq, rb) \<Rightarrow> keeps_up p cs (rb, snd s) | None \<Rightarrow> False)
   | Pop \<Rightarrow> \<not> is_lapped (fst s) (snd s) \<and>
       (case try_pop p (fst s) (snd s) of Some (x, k) \<Rightarrow> keeps_up p cs (fst s, k) | None \<Rightarrow> False))"

text \<open>
  \<open>run_ok p cs xs rb c\<close>: running the calls \<open>cs\<close> from a ring that has received \<open>xs\<close> never
  panics, and the consumer reads transactions in the order of their sequence numbers \<open>ps\<close>,
  each at most once, none of it uninitialised; all of them from its cursor on if it keeps up.
\<close>

definition run_ok :: "profile \<Rightarrow> 'tx ring_call list \<Rightarrow> 'tx list \<Rightarrow> 'tx transaction_ring \<Rightarrow> consumer \<Rightarrow> bool" where
  "run_ok p cs xs rb c \<longleftrightarrow> (\<exists>ys rb' c' ps.
     ring_run p cs (rb, c) = Some (ys, rb', c') \<and> ring_holds (xs @ pushed cs) rb' \<and>
     Uninitialised \<notin> set ys \<and> received ys = map (\<lambda>j. (xs @ pushed cs) ! j) ps \<and>
     sorted_wrt (<) ps \<and> set ps \<subseteq> {unat (read_cursor c)..<length xs + length (pushed cs)} \<and>
     (keeps_up p cs (rb, c) \<longrightarrow> ps = [unat (read_cursor c)..<unat (read_cursor c) + length ps]))"

lemma run_ok_nil: "ring_holds xs rb \<Longrightarrow> run_ok p [] xs rb c"
  unfolding run_ok_def by (intro exI [of _ "[]"] exI [of _ rb] exI [of _ c]) simp

lemma run_ok_push:
  "push p x rb = Some (seq, rb1) \<Longrightarrow> run_ok p cs (xs @ [x]) rb1 c \<Longrightarrow> run_ok p (Push x # cs) xs rb c"
  by (simp add: run_ok_def)

lemma run_ok_none:
  assumes "try_pop p rb c = Some (Nothing_new, c)" and "run_ok p cs xs rb c"
  shows "run_ok p (Pop # cs) xs rb c"
proof -
  from assms(2) obtain ys rb' c' ps where "ring_run p cs (rb, c) = Some (ys, rb', c')"
    "ring_holds (xs @ pushed cs) rb'" "Uninitialised \<notin> set ys"
    "received ys = map (\<lambda>j. (xs @ pushed cs) ! j) ps" "sorted_wrt (<) ps"
    "set ps \<subseteq> {unat (read_cursor c)..<length xs + length (pushed cs)}"
    "keeps_up p cs (rb, c) \<longrightarrow> ps = [unat (read_cursor c)..<unat (read_cursor c) + length ps]"
    unfolding run_ok_def by blast
  with assms(1) show ?thesis unfolding run_ok_def
    by (intro exI [of _ "Nothing_new # ys"] exI [of _ rb'] exI [of _ c'] exI [of _ ps]) simp
qed

lemma run_ok_pop:
  assumes got: "try_pop p rb c = Some (Popped (xs ! pos), c1)"
    and pos: "unat (read_cursor c) \<le> pos" "pos < length xs" "unat (read_cursor c1) = pos + 1"
    and exact: "\<not> is_lapped rb c \<Longrightarrow> pos = unat (read_cursor c)"
    and rest: "run_ok p cs xs rb c1"
  shows "run_ok p (Pop # cs) xs rb c"
proof -
  from rest obtain ys rb' c' ps where run: "ring_run p cs (rb, c1) = Some (ys, rb', c')"
    "ring_holds (xs @ pushed cs) rb'" "Uninitialised \<notin> set ys"
    "received ys = map (\<lambda>j. (xs @ pushed cs) ! j) ps" "sorted_wrt (<) ps"
    "set ps \<subseteq> {pos + 1..<length xs + length (pushed cs)}"
    "keeps_up p cs (rb, c1) \<longrightarrow> ps = [pos + 1..<pos + 1 + length ps]"
    unfolding run_ok_def pos(3) by blast
  have "sorted_wrt (<) (pos # ps)" "set (pos # ps) \<subseteq> {unat (read_cursor c)..<length xs + length (pushed cs)}"
    using run(5,6) pos by force+
  moreover have "pos # ps = [unat (read_cursor c)..<unat (read_cursor c) + length (pos # ps)]"
    if "keeps_up p (Pop # cs) (rb, c)"
  proof -
    have e: "ps = [pos + 1..<pos + 1 + length ps]" and eq: "pos = unat (read_cursor c)"
      using that got run(7) exact by auto
    have "[pos..<pos + length (pos # ps)] = pos # [pos + 1..<pos + 1 + length ps]"
      by (simp add: upt_conv_Cons del: upt_Suc)
    also have "\<dots> = pos # ps" by (simp only: e [symmetric])
    finally show ?thesis by (simp only: eq)
  qed
  ultimately show ?thesis using got run(1-4) pos unfolding run_ok_def
    by (intro exI [of _ "Popped (xs ! pos) # ys"] exI [of _ rb'] exI [of _ c'] exI [of _ "pos # ps"])
       (simp add: nth_append)
qed

lemma run_reads:
  assumes "ring_holds xs rb" and "unat (read_cursor c) \<le> length xs"
    and "length xs + length (pushed cs) < 2 ^ 64"
  shows "run_ok p cs xs rb c"
  using assms
proof (induction cs arbitrary: xs rb c)
  case Nil
  then show ?case by (simp add: run_ok_nil)
next
  case (Cons a cs)
  note r = Cons.prems(1,2)
  show ?case
  proof (cases a)
    case (Push x)
    obtain rb1 where push: "push p x rb = Some (word_of_nat (length xs), rb1)" "ring_holds (xs @ [x]) rb1"
      using push_holds [OF r(1), of p x] Cons.prems(3) Push by auto
    have "run_ok p cs (xs @ [x]) rb1 c"
      by (rule Cons.IH [OF push(2)]) (use r(2) Cons.prems(3) Push in simp_all)
    then show ?thesis using run_ok_push [OF push(1)] Push by simp
  next
    case Pop
    have short: "length xs + length (pushed cs) < 2 ^ 64" using Cons.prems(3) Pop by simp
    show ?thesis
    proof (cases "unat (read_cursor c) < length xs")
      case False
      then show ?thesis using run_ok_none [OF try_pop_none [OF r(1)] Cons.IH [OF r short]] Pop by simp
    next
      case True
      define pos where "pos = max (unat (read_cursor c)) (length xs - RING_SIZE)"
      note got = try_pop_holds [OF r(1) True pos_def]
      have pos: "unat (read_cursor c) \<le> pos" "pos < length xs"
        using True by (auto simp: pos_def RING_SIZE_def)
      then have next_c: "unat (read_cursor \<lparr>read_cursor = word_of_nat (pos + 1)\<rparr>) = pos + 1"
        using r(1) by (simp add: ring_holds_def unat_of_nat del: of_nat_Suc of_nat_add)
      have "pos = unat (read_cursor c)" if "\<not> is_lapped rb c"
        using that got(2) by (simp add: pos_def)
      then show ?thesis
        using run_ok_pop [OF got(1) pos next_c _ Cons.IH [OF r(1) _ short]] next_c pos Pop by simp
    qed
  qed
qed

lemma pushed_pushes [simp]: "pushed (map Push xs) = xs"
  by (induction xs) simp_all

lemma holds_after_pushes:
  assumes "ring_run p (map Push xs) (ring_new, \<lparr>read_cursor = 0\<rparr>) = Some (zs, rb, c)"
    and "length xs < 2 ^ 64"
  shows "ring_holds xs rb" and "unat (read_cursor (new_consumer rb)) = length xs"
proof -
  have "run_ok p (map Push xs) [] ring_new (\<lparr>read_cursor = 0\<rparr>)"
    by (rule run_reads [OF ring_holds_new]) (use assms(2) in simp_all)
  then obtain ys rb' c' where "ring_run p (map Push xs) (ring_new, \<lparr>read_cursor = 0\<rparr>) = Some (ys, rb', c')"
    "ring_holds ([] @ pushed (map Push xs)) rb'" unfolding run_ok_def by blast
  then show h: "ring_holds xs rb" unfolding assms(1) by simp
  then show "unat (read_cursor (new_consumer rb)) = length xs"
    by (simp add: new_consumer_def ring_holds_def unat_of_nat)
qed

text \<open>
  C8: For calls that do not overlap, a consumer of the ring receives, in order and each at most
  once, transactions pushed after it was created; no read is uninitialised; and as long as it is
  not lapped when it pops, it receives every one of them without a gap.  A lapped consumer skips
  ahead.  This holds over any sequence of pushes and pops with fewer than \<open>2 ^ 64\<close> pushes, and
  nothing panics, overflow checks included.
\<close>

theorem consumer_reads_in_order:
  assumes "ring_run p (map Push xs) (ring_new, \<lparr>read_cursor = 0\<rparr>) = Some (zs, rb, c)"
    and "length xs + length (pushed cs) < 2 ^ 64"
  shows "\<exists>ys rb' c' ps. ring_run p cs (rb, new_consumer rb) = Some (ys, rb', c') \<and>
    Uninitialised \<notin> set ys \<and> received ys = map (\<lambda>j. pushed cs ! j) ps \<and>
    sorted_wrt (<) ps \<and> set ps \<subseteq> {0..<length (pushed cs)} \<and>
    (keeps_up p cs (rb, new_consumer rb) \<longrightarrow> received ys = take (length ps) (pushed cs))"
proof -
  let ?n = "length xs"
  note h = holds_after_pushes [OF assms(1)]
  have n: "ring_holds xs rb" "unat (read_cursor (new_consumer rb)) = ?n" using h assms(2) by simp_all
  have "run_ok p cs xs rb (new_consumer rb)" by (rule run_reads) (use n assms(2) in simp_all)
  then obtain ys rb' c' ps where run: "ring_run p cs (rb, new_consumer rb) = Some (ys, rb', c')"
    "Uninitialised \<notin> set ys" "received ys = map (\<lambda>j. (xs @ pushed cs) ! j) ps"
    "sorted_wrt (<) ps" "set ps \<subseteq> {?n..<?n + length (pushed cs)}"
    "keeps_up p cs (rb, new_consumer rb) \<longrightarrow> ps = [?n..<?n + length ps]"
    unfolding run_ok_def n(2) by blast
  let ?ps = "map (\<lambda>j. j - ?n) ps"
  have "received ys = map (\<lambda>j. pushed cs ! j) ?ps"
    using run(3,5) by (auto simp: nth_append)
  moreover have "sorted_wrt (<) ?ps"
    using run(4,5) by (auto simp: sorted_wrt_map intro!: sorted_wrt_mono_rel [of ps "(<)"] diff_less_mono)
  moreover have "set ?ps \<subseteq> {0..<length (pushed cs)}" using run(5) by force
  moreover have "received ys = take (length ?ps) (pushed cs)" if "keeps_up p cs (rb, new_consumer rb)"
  proof -
    have e: "ps = [?n..<?n + length ps]" using run(6) that by blast
    have "length ps \<le> length (pushed cs)"
      using card_mono [OF finite_atLeastLessThan run(5)] run(4)
      by (simp add: distinct_card strict_sorted_iff)
    moreover have "map (\<lambda>j. (xs @ pushed cs) ! j) [?n..<?n + length ps] = take (length ps) (pushed cs)"
      using \<open>length ps \<le> length (pushed cs)\<close> by (intro nth_equalityI) (simp_all add: nth_append)
    ultimately show ?thesis using run(3) e by simp
  qed
  ultimately show ?thesis using run(1,2) by blast
qed

theorem consumer_reads_in_order_witness:
  "\<exists>ys rb' c'. ring_run Debug [Push (7 :: nat), Pop, Push 8, Push 9, Pop, Pop, Pop]
      (ring_new, new_consumer (ring_new :: nat transaction_ring)) = Some (ys, rb', c') \<and>
    Uninitialised \<notin> set ys"
  using consumer_reads_in_order [of Debug "[]" "[]" ring_new "\<lparr>read_cursor = 0\<rparr>"
      "[Push (7 :: nat), Pop, Push 8, Push 9, Pop, Pop, Pop]"]
  by fastforce

text \<open>
  What one \<open>try_pop\<close> does after the transactions \<open>xs\<close> were pushed, wherever the consumer
  stands: nothing new at or past the end; else the transaction at the cursor while the ring still
  holds it, and otherwise the oldest one it holds, with the cursor behind it.  \<open>lag\<close> is the
  number of unread transactions and \<open>is_lapped\<close> says whether some of them are gone.
\<close>

lemma pop_oldest_available:
  assumes "ring_run p (map Push xs) (ring_new, \<lparr>read_cursor = 0\<rparr>) = Some (zs, rb, c0)"
    and "length xs < 2 ^ 64"
  shows "try_pop q rb c = Some (
      if length xs \<le> unat (read_cursor c) then (Nothing_new, c)
      else let pos = max (unat (read_cursor c)) (length xs - 8192)
        in (Popped (xs ! pos), \<lparr>read_cursor = word_of_nat (pos + 1)\<rparr>)) \<and>
    unat (lag rb c) = length xs - unat (read_cursor c) \<and>
    (is_lapped rb c \<longleftrightarrow> unat (read_cursor c) + 8192 < length xs)"
proof -
  note h = holds_after_pushes(1) [OF assms]
  have wc: "write_cursor rb = word_of_nat (length xs)" using h by (simp add: ring_holds_def)
  have n: "unat (word_of_nat (length xs) :: u64) = length xs" using assms(2) by (simp add: unat_of_nat)
  have lag: "unat (lag rb c) = length xs - unat (read_cursor c)"
    by (simp add: lag_def wc saturating_sub_def word_le_nat_alt unat_sub n)
  have "unat (word_of_nat RING_SIZE :: u64) = 8192" by (simp add: RING_SIZE_def)
  then have lapped: "is_lapped rb c \<longleftrightarrow> unat (read_cursor c) + 8192 < length xs"
    using lag by (simp only: is_lapped_def word_less_nat_alt) linarith
  show ?thesis
  proof (cases "length xs \<le> unat (read_cursor c)")
    case True
    with try_pop_none [OF h] lag lapped show ?thesis by simp
  next
    case False
    with try_pop_holds(1) [OF h _ refl] lag lapped show ?thesis by (simp add: Let_def RING_SIZE_def)
  qed
qed

lemma pop_oldest_available_witness:
  "\<exists>rb. ring_run Debug (map Push [5, 6 :: nat]) (ring_new, \<lparr>read_cursor = 0\<rparr>) = Some ([], rb, \<lparr>read_cursor = 0\<rparr>) \<and>
     try_pop Debug rb \<lparr>read_cursor = 1\<rparr> = Some (Popped 6, \<lparr>read_cursor = 2\<rparr>)"
proof -
  obtain rb1 where p1: "push Debug 5 ring_new = Some (0, rb1)" "ring_holds [5 :: nat] rb1"
    using push_holds [OF ring_holds_new, of Debug "5 :: nat"] by auto
  obtain rb where p2: "push Debug 6 rb1 = Some (1, rb)"
    using push_holds [OF p1(2), of Debug 6] by auto
  have run: "ring_run Debug (map Push [5, 6 :: nat]) (ring_new, \<lparr>read_cursor = 0\<rparr>) =
      Some ([], rb, \<lparr>read_cursor = 0\<rparr>)"
    using p1(1) p2 by simp
  with pop_oldest_available [OF run, of Debug "\<lparr>read_cursor = 1\<rparr>"] show ?thesis by auto
qed

text \<open>
  \<open>try_push\<close> is \<open>push\<close> when no other producer moves the cursor under it, and leaves the
  ring alone otherwise.
\<close>

lemma try_push_is_push:
  "try_push p (write_cursor rb) x rb =
     (case push p x rb of None \<Rightarrow> None | Some (seq, rb') \<Rightarrow> Some (Some seq, rb')) \<and>
   (current \<noteq> write_cursor rb \<and> current \<noteq> - 1 \<longrightarrow> try_push p current x rb = Some (None, rb))"
proof (intro conjI impI)
  show "try_push p (write_cursor rb) x rb =
     (case push p x rb of None \<Rightarrow> None | Some (seq, rb') \<Rightarrow> Some (Some seq, rb'))"
    by (cases "add_checked p (write_cursor rb) 1")
       (auto simp: try_push_def push_def claim_def write_slot_def store_at_def Let_def)
next
  assume c: "current \<noteq> write_cursor rb \<and> current \<noteq> - 1"
  then have "unat current \<noteq> 2 ^ 64 - 1"
    by (simp add: word_unat_eq_iff unsigned_minus_1_eq_mask mask_eq_exp_minus_1)
  then have "add_checked p current 1 = Some (current + 1)"
    using unsigned_less [of current, where ?'a = nat] by (intro add_checked_no_overflow) simp
  with c show "try_push p current x rb = Some (None, rb)" by (auto simp: try_push_def)
qed

end
