(* ===== verification/Ring_Race.thy ===== *)
theory Ring_Race
  imports Ring
begin

text \<open>
  \<open>src/buffer.rs\<close>: the broadcast ring under interleaving.  A producer claims a number and writes its
  slot later; a consumer checks the write cursor and reads the slot later.  Slots are written and
  read whole.
\<close>

section \<open>Producers and consumers interleaved\<close>

text \<open>
  Producers between their two actions: \<open>rr_pending\<close> holds what they have claimed and not yet
  written.  For the statements, \<open>rr_txs\<close> lists the transactions in the order of their claims and
  \<open>rr_written\<close> the numbers in the order of their writes.
\<close>

record 'tx ring_race =
  rr_ring :: "'tx transaction_ring"
  rr_pending :: "(u64 \<times> 'tx) set"
  rr_txs :: "'tx list"
  rr_written :: "u64 list"

definition race_start :: "'tx ring_race" where
  "race_start = \<lparr>rr_ring = ring_new, rr_pending = {}, rr_txs = [], rr_written = []\<rparr>"

inductive race_step :: "profile \<Rightarrow> 'tx ring_race \<Rightarrow> 'tx ring_race \<Rightarrow> bool" for p where
  race_claim: "claim p (rr_ring s) = Some (seq, rb) \<Longrightarrow>
     race_step p s (s\<lparr>rr_ring := rb, rr_pending := insert (seq, x) (rr_pending s), rr_txs := rr_txs s @ [x]\<rparr>)"
| race_write: "(seq, x) \<in> rr_pending s \<Longrightarrow> write_slot seq x (rr_ring s) = Some rb \<Longrightarrow>
     race_step p s (s\<lparr>rr_ring := rb, rr_pending := rr_pending s - {(seq, x)}, rr_written := rr_written s @ [seq]\<rparr>)"

inductive_simps race_step_simps: "race_step p s t"

section \<open>What a slot holds\<close>

text \<open>The transaction last written to it, whatever its number.\<close>

definition in_slot :: "nat \<Rightarrow> u64 list \<Rightarrow> u64 list" where
  "in_slot i qs = filter (\<lambda>q. unat q mod RING_SIZE = i) qs"

definition last_written :: "u64 list \<Rightarrow> 'tx list \<Rightarrow> nat \<Rightarrow> 'tx option" where
  "last_written qs txs i = (if in_slot i qs = [] then None else Some (txs ! unat (last (in_slot i qs))))"

definition race_inv :: "'tx ring_race \<Rightarrow> bool" where
  "race_inv s \<longleftrightarrow> (length (rr_txs s) < 2 ^ 64 \<longrightarrow>
     write_cursor (rr_ring s) = word_of_nat (length (rr_txs s)) \<and>
     length (slots (rr_ring s)) = RING_SIZE \<and> distinct (rr_written s) \<and>
     (\<forall>q \<in> set (rr_written s). unat q < length (rr_txs s)) \<and>
     (\<forall>q x. (q, x) \<in> rr_pending s \<longleftrightarrow>
        unat q < length (rr_txs s) \<and> q \<notin> set (rr_written s) \<and> x = rr_txs s ! unat q) \<and>
     (\<forall>i < RING_SIZE. slots (rr_ring s) ! i = last_written (rr_written s) (rr_txs s) i))"

lemma in_slot_mem: "q \<in> set (in_slot i qs) \<Longrightarrow> q \<in> set qs \<and> unat q mod RING_SIZE = i"
  by (simp add: in_slot_def)

lemma last_written_append:
  "\<forall>q \<in> set qs. unat q < length txs \<Longrightarrow> last_written qs (txs @ [x]) i = last_written qs txs i"
  using in_slot_mem [OF last_in_set, of i qs] by (auto simp: last_written_def nth_append)

lemma last_written_write:
  "last_written (qs @ [q]) txs i = (if i = unat q mod RING_SIZE then Some (txs ! unat q) else last_written qs txs i)"
  by (simp add: last_written_def in_slot_def)

lemma race_inv_claim:
  assumes inv: "race_inv s" and c: "claim p (rr_ring s) = Some (seq, rb)"
  shows "race_inv (s\<lparr>rr_ring := rb, rr_pending := insert (seq, x) (rr_pending s), rr_txs := rr_txs s @ [x]\<rparr>)"
    (is "race_inv ?t")
proof (cases "length (rr_txs s) + 1 < 2 ^ 64")
  case True
  let ?n = "length (rr_txs s)"
  have old: "write_cursor (rr_ring s) = word_of_nat ?n" "length (slots (rr_ring s)) = RING_SIZE"
    "distinct (rr_written s)" "\<forall>q \<in> set (rr_written s). unat q < ?n"
    "\<forall>q x. (q, x) \<in> rr_pending s \<longleftrightarrow> unat q < ?n \<and> q \<notin> set (rr_written s) \<and> x = rr_txs s ! unat q"
    "\<forall>i < RING_SIZE. slots (rr_ring s) ! i = last_written (rr_written s) (rr_txs s) i"
    using inv True by (simp_all add: race_inv_def)
  have n: "unat (word_of_nat ?n :: u64) = ?n" using True by (intro unat_small) simp
  have "seq = word_of_nat ?n" and rb: "write_cursor rb = word_of_nat (?n + 1)" "slots rb = slots (rr_ring s)"
    using c old(1) add_checked_next [OF True, of p] by (auto simp: claim_def Option.bind_eq_Some_conv Let_def)
  then have seq: "seq = word_of_nat ?n" "unat seq = ?n" using n by simp_all
  have fresh: "seq \<notin> set (rr_written s)" "\<not> unat seq < ?n" using old(4) seq(2) by auto
  have only: "unat q = ?n \<longleftrightarrow> q = seq" for q using seq by (auto simp: word_unat_eq_iff)
  have "\<forall>q y. (q, y) \<in> rr_pending ?t \<longleftrightarrow>
      unat q < length (rr_txs ?t) \<and> q \<notin> set (rr_written ?t) \<and> y = rr_txs ?t ! unat q"
    using old(5) fresh only by (auto simp: nth_append less_Suc_eq)
  then show ?thesis using old rb by (auto simp: race_inv_def last_written_append)
qed (simp add: race_inv_def)

lemma race_inv_write:
  assumes inv: "race_inv s" and x: "(seq, x) \<in> rr_pending s"
    and w: "write_slot seq x (rr_ring s) = Some rb"
  shows "race_inv (s\<lparr>rr_ring := rb, rr_pending := rr_pending s - {(seq, x)}, rr_written := rr_written s @ [seq]\<rparr>)"
    (is "race_inv ?t")
proof (cases "length (rr_txs s) < 2 ^ 64")
  case True
  let ?n = "length (rr_txs s)"
  have old: "write_cursor (rr_ring s) = word_of_nat ?n" "length (slots (rr_ring s)) = RING_SIZE"
    "distinct (rr_written s)" "\<forall>q \<in> set (rr_written s). unat q < ?n"
    "\<forall>q x. (q, x) \<in> rr_pending s \<longleftrightarrow> unat q < ?n \<and> q \<notin> set (rr_written s) \<and> x = rr_txs s ! unat q"
    "\<forall>i < RING_SIZE. slots (rr_ring s) ! i = last_written (rr_written s) (rr_txs s) i"
    using inv True by (simp_all add: race_inv_def)
  have seq: "unat seq < ?n" "x = rr_txs s ! unat seq" "seq \<notin> set (rr_written s)" using old(5) x by auto
  have rb: "write_cursor rb = write_cursor (rr_ring s)"
    "slots rb = (slots (rr_ring s))[unat seq mod RING_SIZE := Some x]"
    using w by (auto simp: write_slot_def slot_index_mod Option.bind_eq_Some_conv)
  have "\<forall>q y. (q, y) \<in> rr_pending ?t \<longleftrightarrow>
      unat q < length (rr_txs ?t) \<and> q \<notin> set (rr_written ?t) \<and> y = rr_txs ?t ! unat q"
    using old(5) seq by auto
  moreover have "slots rb ! i = last_written (rr_written ?t) (rr_txs ?t) i" if "i < RING_SIZE" for i
    using that old(2,6) rb(2) seq(2) by (simp add: last_written_write nth_list_update)
  ultimately show ?thesis using old rb seq by (simp add: race_inv_def)
qed (simp add: race_inv_def)

interpretation race: invariant_system "\<lambda>s. s = race_start" "race_step p" race_inv for p
proof unfold_locales
  fix s :: "'a ring_race" assume "s = race_start"
  then show "race_inv s" by (simp add: race_inv_def race_start_def ring_new_def last_written_def in_slot_def)
next
  fix s t :: "'a ring_race" assume "race_inv s" "race_step p s t"
  then show "race_inv t" by (auto simp: race_step_simps intro: race_inv_claim race_inv_write)
qed

section \<open>What a consumer receives\<close>

lemma race_facts:
  assumes "reach (\<lambda>s. s = race_start) (race_step p) s" and "length (rr_txs s) < 2 ^ 64"
  shows "write_cursor (rr_ring s) = word_of_nat (length (rr_txs s))"
    and "q \<in> set (rr_written s) \<Longrightarrow> unat q < length (rr_txs s)"
    and "(q, x) \<in> rr_pending s \<longleftrightarrow> unat q < length (rr_txs s) \<and> q \<notin> set (rr_written s) \<and> x = rr_txs s ! unat q"
    and "i < RING_SIZE \<Longrightarrow> pop_look (rr_ring s) i = Some (case last_written (rr_written s) (rr_txs s) i of
      None \<Rightarrow> Uninitialised | Some x \<Rightarrow> Popped x)"
  using race.inv_reach [OF assms(1)] assms(2)
  by (auto simp: race_inv_def pop_look_def slice_simps)

lemma reach_run: "(race_step p)\<^sup>*\<^sup>* s t \<Longrightarrow> reach init (race_step p) s \<Longrightarrow> reach init (race_step p) t"
  by (induction rule: rtranclp_induct) (auto intro: reach_step)

lemma txs_grow:
  "(race_step p)\<^sup>*\<^sup>* s t \<Longrightarrow> \<exists>xs. rr_txs t = rr_txs s @ xs"
  by (induction rule: rtranclp_induct) (auto simp: race_step_simps)

text \<open>The last number written to a slot is the greatest when each slot is written in order.\<close>

lemma last_in_order:
  assumes "word_of_nat pos \<in> set qs" and "sorted_wrt (<) (in_slot (pos mod RING_SIZE) qs)"
    and "\<forall>q \<in> set qs. unat q < n" and "n \<le> pos + RING_SIZE" and "pos < 2 ^ 64"
  shows "last_written qs txs (pos mod RING_SIZE) = Some (txs ! pos)"
proof -
  let ?in = "in_slot (pos mod RING_SIZE) qs"
  have pos: "unat (word_of_nat pos :: u64) = pos" by (rule unat_small [OF assms(5)])
  then have mem: "word_of_nat pos \<in> set ?in" using assms(1) by (simp add: in_slot_def)
  then have ne: "?in \<noteq> []" by auto
  have "word_of_nat pos \<le> last ?in"
  proof -
    obtain i where i: "i < length ?in" "?in ! i = word_of_nat pos" using mem by (auto simp: in_set_conv_nth)
    show ?thesis
    proof (cases "i = length ?in - 1")
      case True
      then show ?thesis using i ne by (simp add: last_conv_nth)
    next
      case False
      then have "?in ! i < ?in ! (length ?in - 1)"
        using i sorted_wrt_nth_less [OF assms(2), of i "length ?in - 1"] by simp
      then show ?thesis using i ne by (simp add: last_conv_nth)
    qed
  qed
  then have le: "pos \<le> unat (last ?in)" using pos by (simp add: word_le_nat_alt)
  have l: "last ?in \<in> set qs" "unat (last ?in) mod RING_SIZE = pos mod RING_SIZE"
    using in_slot_mem [OF last_in_set [OF ne]] by simp_all
  then have "unat (last ?in) < pos + RING_SIZE" using assms(3,4) by fastforce
  with l(2) le same_slot [of pos RING_SIZE "unat (last ?in)"] have "unat (last ?in) = pos" by fastforce
  then show ?thesis using ne by (simp add: last_written_def)
qed

text \<open>
  C34: However far the producers run ahead or behind, a consumer that finds something new in one
  state of a run and reads its slot in a later one gets what was last written to that slot: from
  the position it advanced to, at most 8192 behind the writer, a transaction whose number agrees
  with the position modulo 8192, or uninitialised memory when the slot was never written.  It is
  the transaction of the position if that has been written, no later one of the slot is claimed
  and the writes to the slot came in the order of their numbers.
\<close>

theorem pop_reads_last_written:
  assumes "reach (\<lambda>s. s = race_start) (race_step p) s" and "(race_step p)\<^sup>*\<^sup>* s t"
    and "length (rr_txs t) < 2 ^ 64" and "unat (read_cursor c) < length (rr_txs s)"
    and "pos = max (unat (read_cursor c)) (length (rr_txs s) - 8192)"
  shows "pop_load q (rr_ring s) c = Some (Some (pos mod 8192), \<lparr>read_cursor = word_of_nat (pos + 1)\<rparr>) \<and>
    pop_look (rr_ring t) (pos mod 8192) = Some (case last_written (rr_written t) (rr_txs t) (pos mod 8192) of
      None \<Rightarrow> Uninitialised | Some x \<Rightarrow> Popped x) \<and>
    (word_of_nat pos \<in> set (rr_written t) \<and> length (rr_txs t) \<le> pos + 8192 \<and>
      sorted_wrt (<) (in_slot (pos mod 8192) (rr_written t)) \<longrightarrow>
     pop_look (rr_ring t) (pos mod 8192) = Some (Popped (rr_txs s ! pos)))"
proof -
  obtain xs where xs: "rr_txs t = rr_txs s @ xs" using txs_grow [OF assms(2)] by blast
  then have s: "length (rr_txs s) < 2 ^ 64" using assms(3) by simp
  have pos: "pos < length (rr_txs s)" "pos < 2 ^ 64" using assms(4,5) s by auto
  note t = race_facts [OF reach_run [OF assms(2,1)] assms(3)]
  have look: "pop_look (rr_ring t) (pos mod 8192) = Some (case last_written (rr_written t) (rr_txs t) (pos mod 8192) of
      None \<Rightarrow> Uninitialised | Some x \<Rightarrow> Popped x)"
    using t(4) [of "pos mod 8192"] by (simp add: RING_SIZE_def)
  moreover have "pop_load q (rr_ring s) c = Some (Some (pos mod 8192), \<lparr>read_cursor = word_of_nat (pos + 1)\<rparr>)"
    using load_position(1) [OF race_facts(1) [OF assms(1) s] s assms(4), of pos q] assms(5)
    by (simp add: RING_SIZE_def)
  moreover have "last_written (rr_written t) (rr_txs t) (pos mod 8192) = Some (rr_txs s ! pos)"
    if "word_of_nat pos \<in> set (rr_written t)" "length (rr_txs t) \<le> pos + 8192"
      "sorted_wrt (<) (in_slot (pos mod 8192) (rr_written t))"
    using last_in_order [of pos "rr_written t" "length (rr_txs t)" "rr_txs t"] that t(2) pos xs
    by (simp add: RING_SIZE_def nth_append)
  ultimately show ?thesis by simp
qed

theorem pop_reads_last_written_witness:
  "\<exists>s t. reach (\<lambda>s. s = race_start) (race_step Release) s \<and> (race_step Release)\<^sup>*\<^sup>* s t \<and> rr_txs s = [7 :: nat] \<and>
     pop_load Release (rr_ring s) \<lparr>read_cursor = 0\<rparr> = Some (Some 0, \<lparr>read_cursor = 1\<rparr>) \<and>
     pop_look (rr_ring t) 0 = Some (Popped 7)"
proof -
  let ?s = "\<lparr>rr_ring = ring_new\<lparr>write_cursor := 1\<rparr>, rr_pending = {(0, 7 :: nat)}, rr_txs = [7], rr_written = []\<rparr>"
  have "claim Release (rr_ring (race_start :: nat ring_race)) = Some (0, ring_new\<lparr>write_cursor := 1\<rparr>)"
    by (simp add: claim_def race_start_def ring_new_def Let_def)
  from race_claim [OF this, of 7] have "race_step Release race_start ?s"
    by (simp add: race_start_def)
  then have r: "reach (\<lambda>s. s = race_start) (race_step Release) ?s"
    by (intro reach_step [OF reach_init]) simp_all
  have "write_slot 0 7 (rr_ring ?s) = Some (ring_new\<lparr>write_cursor := 1, slots := (slots ring_new)[0 := Some 7]\<rparr>)"
    by (simp add: write_slot_def ring_new_def slot_index_mod RING_SIZE_def slice_simps)
  from race_write [OF _ this, of Release] obtain t where t: "race_step Release ?s t" "rr_written t = [0]" "rr_txs t = [7]"
    by simp
  then have run: "(race_step Release)\<^sup>*\<^sup>* ?s t" by blast
  have "sorted_wrt (<) (in_slot 0 (rr_written t))" using t(2) by (simp add: in_slot_def)
  with pop_reads_last_written [OF r run, of "\<lparr>read_cursor = 0\<rparr>" 0 Release] t
  have "pop_load Release (rr_ring ?s) \<lparr>read_cursor = 0\<rparr> = Some (Some 0, \<lparr>read_cursor = 1\<rparr>) \<and>
      pop_look (rr_ring t) 0 = Some (Popped 7)" by (simp add: last_written_def in_slot_def)
  with r run show ?thesis by fastforce
qed

lemma in_slot_again: "in_slot i (in_slot i qs) = in_slot i qs" "last_written (in_slot i qs) txs i = last_written qs txs i"
  by (simp_all add: in_slot_def last_written_def)

text \<open>The numbers of a slot that were written when the consumer stands at \<open>r\<close> and is not lapped.\<close>

lemma in_slot_below:
  assumes "q \<in> set (in_slot (r mod RING_SIZE) qs)" and "\<forall>q \<in> set qs. unat q < n" and "n \<le> r + RING_SIZE"
  shows "unat q = r \<or> unat q + RING_SIZE \<le> r"
proof -
  from in_slot_mem [OF assms(1)] assms(2) have "unat q < n" "unat q mod RING_SIZE = r mod RING_SIZE" by auto
  then show ?thesis using assms(3) same_slot [of "unat q" RING_SIZE r] same_slot [of r RING_SIZE "unat q"]
    by (cases "unat q \<le> r") fastforce+
qed

text \<open>
  C25: What a consumer that is not lapped reads at a claimed number, in a run of fewer than \<open>2 ^ 64\<close> claims
  where, from the second lap on, the writes to its slot came in order and the transaction of the lap
  before has been written: the transaction of the number exactly when its producer has also written
  it.  Between the claim and the write it reads what the slot held, uninitialised memory in the first lap and the transaction 8192 numbers before in a
  later one, since the cursor the consumer checks moves with the claim; and it moves on, so that it
  never reads the number again.
\<close>

theorem pop_races_with_write:
  assumes "reach (\<lambda>s. s = race_start) (race_step p) s" and "length (rr_txs s) < 2 ^ 64"
    and "r = unat (read_cursor c)" and "r < length (rr_txs s)" and "length (rr_txs s) \<le> r + 8192"
    and "8192 \<le> r \<Longrightarrow> word_of_nat (r - 8192) \<in> set (rr_written s) \<and> sorted_wrt (<) (in_slot (r mod 8192) (rr_written s))"
  shows "try_pop q (rr_ring s) c = Some (
    if (read_cursor c, rr_txs s ! r) \<in> rr_pending s
    then if r < 8192 then Uninitialised else Popped (rr_txs s ! (r - 8192))
    else Popped (rr_txs s ! r), \<lparr>read_cursor = word_of_nat (r + 1)\<rparr>)"
proof -
  let ?n = "length (rr_txs s)" and ?qs = "rr_written s"
  let ?in = "in_slot (r mod RING_SIZE) ?qs"
  note f = race_facts [OF assms(1,2)]
  have written: "\<forall>q \<in> set ?qs. unat q < ?n" using f(2) by blast
  have cur: "read_cursor c = word_of_nat r" and r: "r < 2 ^ 64" "?n \<le> r + RING_SIZE"
    using assms(2-5) by (simp_all add: RING_SIZE_def)
  have pend: "(read_cursor c, rr_txs s ! r) \<in> rr_pending s \<longleftrightarrow> word_of_nat r \<notin> set ?qs"
    using assms(4) unat_small [OF r(1)] by (simp add: cur f(3))
  have load: "pop_load q (rr_ring s) c = Some (Some (r mod RING_SIZE), \<lparr>read_cursor = word_of_nat (r + 1)\<rparr>)"
    by (rule load_position(1) [OF f(1) assms(2)]) (use assms(3-5) in \<open>simp_all add: RING_SIZE_def\<close>)
  have first: "set ?in \<subseteq> {word_of_nat r}" if "r < RING_SIZE"
    using in_slot_below [OF _ written r(2)] that by (fastforce simp: word_unat_eq_iff unat_small [OF r(1)])
  have "last_written ?qs (rr_txs s) (r mod RING_SIZE) = (if word_of_nat r \<in> set ?qs then Some (rr_txs s ! r)
      else if r < RING_SIZE then None else Some (rr_txs s ! (r - RING_SIZE)))"
  proof (cases "word_of_nat r \<in> set ?qs")
    case True
    have mem: "word_of_nat r \<in> set ?in" using True unat_small [OF r(1)] by (simp add: in_slot_def)
    show ?thesis
    proof (cases "r < RING_SIZE")
      case True
      have "last ?in = word_of_nat r" using first [OF True] mem last_in_set [of ?in] by fastforce
      then show ?thesis using \<open>word_of_nat r \<in> set ?qs\<close> mem unat_small [OF r(1)] by (auto simp: last_written_def)
    next
      case False
      then have "sorted_wrt (<) ?in" using assms(6) by (simp add: RING_SIZE_def)
      from last_in_order [OF True this written r(2,1)] True show ?thesis by simp
    qed
  next
    case False
    have below: "unat q + RING_SIZE \<le> r" if "q \<in> set ?in" for q
    proof -
      have "unat q \<noteq> r" using in_slot_mem [OF that] False by auto
      then show ?thesis using in_slot_below [OF that written r(2)] by blast
    qed
    show ?thesis
    proof (cases "r < RING_SIZE")
      case True
      have "x \<notin> set ?in" for x using below [of x] True by auto
      then have "?in = []" by (metis list.set_intros(1) neq_Nil_conv)
      then show ?thesis using True False by (simp add: last_written_def)
    next
      case lap: False
      then have o: "word_of_nat (r - RING_SIZE) \<in> set ?qs" "sorted_wrt (<) ?in" using assms(6) by (simp_all add: RING_SIZE_def)
      have slot: "(r - RING_SIZE) mod RING_SIZE = r mod RING_SIZE" using lap by (simp add: le_mod_geq)
      have "unat (word_of_nat (r - RING_SIZE) :: u64) = r - RING_SIZE" using r(1) by (intro unat_small) simp
      then have "word_of_nat (r - RING_SIZE) \<in> set ?in" using o(1) slot by (simp add: in_slot_def)
      moreover have "unat q < r" if "q \<in> set ?in" for q using below [OF that] by (simp add: RING_SIZE_def)
      ultimately have "last_written ?in (rr_txs s) ((r - RING_SIZE) mod RING_SIZE) = Some (rr_txs s ! (r - RING_SIZE))"
        using o(2) lap r(1) by (intro last_in_order [of _ _ r]) (simp_all add: slot in_slot_again)
      then show ?thesis using False lap by (simp add: slot in_slot_again)
    qed
  qed
  with load pend f(4) [of "r mod RING_SIZE"] show ?thesis
    by (simp add: try_pop_actions RING_SIZE_def)
qed

theorem pop_races_with_write_witness:
  "\<exists>s. reach (\<lambda>s. s = race_start) (race_step Release) s \<and> rr_txs s = [7 :: nat] \<and>
     try_pop Release (rr_ring s) \<lparr>read_cursor = 0\<rparr> = Some (Uninitialised, \<lparr>read_cursor = 1\<rparr>)"
proof -
  let ?s = "\<lparr>rr_ring = ring_new\<lparr>write_cursor := 1\<rparr>, rr_pending = {(0, 7 :: nat)}, rr_txs = [7], rr_written = []\<rparr>"
  have "claim Release (rr_ring (race_start :: nat ring_race)) = Some (0, ring_new\<lparr>write_cursor := 1\<rparr>)"
    by (simp add: claim_def race_start_def ring_new_def Let_def)
  from race_claim [OF this, of 7] have "race_step Release race_start ?s"
    by (simp add: race_start_def)
  then have r: "reach (\<lambda>s. s = race_start) (race_step Release) ?s"
    by (intro reach_step [OF reach_init]) simp_all
  from pop_races_with_write [OF r, of 0 "\<lparr>read_cursor = 0\<rparr>" Release]
  have "try_pop Release (rr_ring ?s) \<lparr>read_cursor = 0\<rparr> = Some (Uninitialised, \<lparr>read_cursor = 1\<rparr>)" by simp
  with r show ?thesis by (intro exI [of _ ?s]) simp
qed

section \<open>A producer that falls behind\<close>

lemma race_push:
  assumes "reach (\<lambda>s. s = race_start) (race_step p) s" and "length (rr_txs s) + 1 < 2 ^ 64"
  shows "\<exists>t. reach (\<lambda>s. s = race_start) (race_step p) t \<and> rr_txs t = rr_txs s @ [x] \<and>
    rr_written t = rr_written s @ [word_of_nat (length (rr_txs s))] \<and> rr_pending t = rr_pending s"
proof -
  let ?n = "length (rr_txs s)"
  have n: "?n < 2 ^ 64" using assms(2) by simp
  note f = race_facts [OF assms(1) n]
  let ?rb = "rr_ring s\<lparr>write_cursor := word_of_nat (?n + 1)\<rparr>"
  let ?s = "s\<lparr>rr_ring := ?rb, rr_pending := insert (word_of_nat ?n, x) (rr_pending s), rr_txs := rr_txs s @ [x]\<rparr>"
  have "claim p (rr_ring s) = Some (word_of_nat ?n, ?rb)"
    using add_checked_next [OF assms(2), of p] f(1) by (simp add: claim_def Let_def)
  then have s: "reach (\<lambda>s. s = race_start) (race_step p) ?s" by (intro reach_step [OF assms(1)] race_claim)
  have len: "length (slots ?rb) = RING_SIZE" using race.inv_reach [OF s] assms(2) by (simp add: race_inv_def)
  then obtain rb where "write_slot (word_of_nat ?n) x (rr_ring ?s) = Some rb"
    by (simp add: write_slot_def slot_index_mod RING_SIZE_def slice_simps)
  from race_write [OF _ this, of p] obtain t where t: "race_step p ?s t" "rr_txs t = rr_txs s @ [x]"
    "rr_written t = rr_written s @ [word_of_nat ?n]" "rr_pending t = rr_pending ?s - {(word_of_nat ?n, x)}"
    by simp
  have "(word_of_nat ?n, x) \<notin> rr_pending s" using f(3) unat_small [OF n] by auto
  then have "rr_pending t = rr_pending s" using t(4) by simp
  with reach_step [OF s t(1)] t(2,3) show ?thesis by blast
qed

lemma race_pushes:
  assumes "reach (\<lambda>s. s = race_start) (race_step p) s" and "length (rr_txs s) + n < 2 ^ 64"
  shows "\<exists>t. reach (\<lambda>s. s = race_start) (race_step p) t \<and> rr_txs t = rr_txs s @ replicate n y \<and> rr_pending t = rr_pending s"
  using assms(2)
proof (induction n)
  case 0
  show ?case using assms(1) by auto
next
  case (Suc n)
  then obtain t where t: "reach (\<lambda>s. s = race_start) (race_step p) t" "rr_txs t = rr_txs s @ replicate n y"
    "rr_pending t = rr_pending s" by auto
  with race_push [OF t(1), of y] Suc.prems show ?case by (auto simp: replicate_append_same [symmetric])
qed

text \<open>
  C35: A producer that stops between its claim and its write for a whole lap overwrites a newer
  transaction: all 8193 claims are written, the consumer is not lapped, and it receives the
  transaction of number 0 in place of number 8192, which no consumer will ever see.
\<close>

theorem late_write_replaces_newer:
  "\<exists>s. reach (\<lambda>s. s = race_start) (race_step p) s \<and> rr_txs s = x # replicate 8192 y \<and> rr_pending s = {} \<and>
     \<not> is_lapped (rr_ring s) \<lparr>read_cursor = 8192\<rparr> \<and>
     try_pop q (rr_ring s) \<lparr>read_cursor = 8192\<rparr> = Some (Popped x, \<lparr>read_cursor = 8193\<rparr>)"
proof -
  let ?R = "reach (\<lambda>s. s = race_start) (race_step p)"
  let ?a = "\<lparr>rr_ring = ring_new\<lparr>write_cursor := 1\<rparr>, rr_pending = {(0, x)}, rr_txs = [x], rr_written = []\<rparr>"
  have "claim p (rr_ring (race_start :: 'a ring_race)) = Some (0, ring_new\<lparr>write_cursor := 1\<rparr>)"
    using add_checked_next [of 0 p] by (simp add: claim_def race_start_def ring_new_def Let_def)
  from race_claim [OF this, of x] have "race_step p race_start ?a" by (simp add: race_start_def)
  then have a: "?R ?a" by (intro reach_step [OF reach_init]) simp_all
  obtain b where b: "?R b" "rr_txs b = x # replicate 8192 y" "rr_pending b = {(0, x)}"
    using race_pushes [OF a, of 8192 y] by auto
  have nb: "length (rr_txs b) < 2 ^ 64" by (simp add: b(2))
  then have "length (slots (rr_ring b)) = RING_SIZE" using race.inv_reach [OF b(1)] by (simp add: race_inv_def)
  then obtain rb where "write_slot 0 x (rr_ring b) = Some rb"
    by (simp add: write_slot_def slot_index_mod RING_SIZE_def slice_simps)
  from race_write [OF _ this, of p] b(3) obtain s where s: "race_step p b s" "rr_txs s = rr_txs b"
    "rr_pending s = {}" "rr_written s = rr_written b @ [0]" by auto
  have rs: "?R s" using reach_step [OF b(1) s(1)] .
  have ns: "length (rr_txs s) = 8193" "rr_txs s ! 0 = x" by (simp_all add: s(2) b(2))
  have small: "length (rr_txs s) < 2 ^ 64" by (simp add: ns(1))
  note f = race_facts [OF rs small]
  have "in_slot 0 (rr_written s) = in_slot 0 (rr_written b) @ [0]" by (simp add: s(4) in_slot_def)
  then have w: "last_written (rr_written s) (rr_txs s) 0 = Some x" by (simp add: last_written_def ns(2))
  have lt: "unat (read_cursor \<lparr>read_cursor = 8192\<rparr>) < length (rr_txs s)" by (simp add: ns(1))
  have at: "8192 = max (unat (read_cursor \<lparr>read_cursor = 8192\<rparr>)) (length (rr_txs s) - RING_SIZE)"
    by (simp add: ns(1) RING_SIZE_def)
  note load = load_position [OF f(1) small lt at]
  have "pop_load q (rr_ring s) \<lparr>read_cursor = 8192\<rparr> = Some (Some 0, \<lparr>read_cursor = 8193\<rparr>)"
    unfolding load(1) by (simp add: RING_SIZE_def)
  moreover have "pop_look (rr_ring s) 0 = Some (Popped x)" using f(4) [of 0] w by (simp add: RING_SIZE_def)
  ultimately have pop: "try_pop q (rr_ring s) \<lparr>read_cursor = 8192\<rparr> = Some (Popped x, \<lparr>read_cursor = 8193\<rparr>)"
    unfolding try_pop_actions by simp
  have lapped: "\<not> is_lapped (rr_ring s) \<lparr>read_cursor = 8192\<rparr>"
    unfolding load(2) by (simp add: ns(1) RING_SIZE_def)
  have txs: "rr_txs s = x # replicate 8192 y" unfolding s(2) by (rule b(2))
  show ?thesis by (rule exI [of _ s]) (intro conjI rs txs s(3) lapped pop)
qed

end
