(* ===== verification/Queue.thy ===== *)
theory Queue
  imports Transitions "HOL-Library.Multiset"
begin

text \<open>
  \<open>src/queue.rs\<close>: the counted lock-free queue, the ring of two queues and its batch iterator.
  The lock-free queue itself is the \<open>lockfree\<close> crate's: its operations are a parameter of the
  model, and the contract the code relies on is the locale \<open>fifo\<close>.  Every method below is a
  sequence of atomic actions; the sequential model runs a method at a time, the step relation
  of the last section interleaves the actions.
\<close>

section \<open>The queue of the \<open>lockfree\<close> crate\<close>

record ('a, 'q) queue_ops =
  op_new :: 'q
  op_push :: "'a \<Rightarrow> 'q \<Rightarrow> 'q"
  op_pop :: "'q \<Rightarrow> 'a option \<times> 'q"

text \<open>First in, first out: \<open>contents\<close> is the sequence the queue holds, oldest first.\<close>

locale fifo =
  fixes ops :: "('a, 'q) queue_ops"
    and contents :: "'q \<Rightarrow> 'a list"
  assumes contents_new: "contents (op_new ops) = []"
    and contents_push: "contents (op_push ops x q) = contents q @ [x]"
    and pop_value: "fst (op_pop ops q) = (case contents q of [] \<Rightarrow> None | x # xs \<Rightarrow> Some x)"
    and contents_pop: "contents (snd (op_pop ops q)) = tl (contents q)"
begin

primrec push_all :: "'a list \<Rightarrow> 'q \<Rightarrow> 'q" where
  "push_all [] q = q"
| "push_all (x # xs) q = push_all xs (op_push ops x q)"

primrec pops :: "nat \<Rightarrow> 'q \<Rightarrow> 'a option list" where
  "pops 0 q = []"
| "pops (Suc n) q = fst (op_pop ops q) # pops n (snd (op_pop ops q))"

lemma contents_push_all: "contents (push_all xs q) = contents q @ xs"
  by (induction xs arbitrary: q) (simp_all add: contents_push)

lemma popped:
  "op_pop ops q = (Some r, q') \<Longrightarrow> contents q = r # contents q'"
  "op_pop ops q = (None, q') \<Longrightarrow> contents q = [] \<and> contents q' = []"
  using pop_value [of q] contents_pop [of q] by (auto split: list.splits)

lemma pops_contents:
  "pops n q = take n (map Some (contents q) @ replicate n None)"
proof (induction n arbitrary: q)
  case (Suc n)
  then show ?case
    by (cases "contents q") (simp_all add: pop_value contents_pop replicate_append_same [symmetric])
qed simp

end

section \<open>LocklessQueue\<close>

record 'q lockless_queue =
  lq_count :: "u64 option"
  lq_q :: 'q

definition BASELINE :: u64 where
  "BASELINE = 1000000"

definition lq_new :: "('a, 'q) queue_ops \<Rightarrow> 'q lockless_queue" where
  "lq_new ops = \<lparr>lq_count = None, lq_q = op_new ops\<rparr>"

definition new_with_counter :: "('a, 'q) queue_ops \<Rightarrow> 'q lockless_queue" where
  "new_with_counter ops = \<lparr>lq_count = Some BASELINE, lq_q = op_new ops\<rparr>"

definition lq_enqueue :: "('a, 'q) queue_ops \<Rightarrow> 'a \<Rightarrow> 'q lockless_queue \<Rightarrow> 'q lockless_queue" where
  "lq_enqueue ops x s =
     (let s = s\<lparr>lq_q := op_push ops x (lq_q s)\<rparr>
      in case lq_count s of
           None \<Rightarrow> s
         | Some c \<Rightarrow> s\<lparr>lq_count := Some (c + 1)\<rparr>)"

definition lq_dequeue :: "('a, 'q) queue_ops \<Rightarrow> 'q lockless_queue \<Rightarrow> 'a option \<times> 'q lockless_queue" where
  "lq_dequeue ops s =
     (let s = (case lq_count s of
           None \<Rightarrow> s
         | Some old \<Rightarrow>
             let s = s\<lparr>lq_count := Some (old - 1)\<rparr>
             in if old < BASELINE then s\<lparr>lq_count := Some BASELINE\<rparr> else s);
          (x, q) = op_pop ops (lq_q s)
      in (x, s\<lparr>lq_q := q\<rparr>))"

definition lq_len :: "'q lockless_queue \<Rightarrow> u64 option \<times> 'q lockless_queue" where
  "lq_len s = (case lq_count s of
     None \<Rightarrow> (None, s)
   | Some c \<Rightarrow> if c < BASELINE then (Some 0, s\<lparr>lq_count := Some BASELINE\<rparr>)
              else (Some (c - BASELINE), s))"

definition lq_is_empty :: "'q lockless_queue \<Rightarrow> bool \<times> 'q lockless_queue" where
  "lq_is_empty s = (case lq_len s of
     (Some n, s) \<Rightarrow> (n = 0, s)
   | (None, s) \<Rightarrow> (False, s))"

text \<open>The operations of a \<open>LocklessQueue\<close>, counted or not, are those of a queue again.\<close>

definition lockless_ops :: "('a, 'q) queue_ops \<Rightarrow> ('a, 'q lockless_queue) queue_ops" where
  "lockless_ops ops = \<lparr>op_new = lq_new ops, op_push = lq_enqueue ops, op_pop = lq_dequeue ops\<rparr>"

definition counted_ops :: "('a, 'q) queue_ops \<Rightarrow> ('a, 'q lockless_queue) queue_ops" where
  "counted_ops ops = \<lparr>op_new = new_with_counter ops, op_push = lq_enqueue ops, op_pop = lq_dequeue ops\<rparr>"

lemma lq_q_enqueue [simp]: "lq_q (lq_enqueue ops x s) = op_push ops x (lq_q s)"
  by (simp add: lq_enqueue_def Let_def split: option.splits)

lemma lq_q_dequeue [simp]: "lq_q (snd (lq_dequeue ops s)) = snd (op_pop ops (lq_q s))"
  by (simp add: lq_dequeue_def Let_def split: option.splits prod.splits)

lemma dequeue_value [simp]: "fst (lq_dequeue ops s) = fst (op_pop ops (lq_q s))"
  by (simp add: lq_dequeue_def Let_def split: option.splits prod.splits)

lemma lq_count_enqueue [simp]: "lq_count (lq_enqueue ops x s) = map_option (\<lambda>c. c + 1) (lq_count s)"
  by (simp add: lq_enqueue_def Let_def split: option.splits)

lemma lq_count_dequeue [simp]:
  "lq_count (snd (lq_dequeue ops s)) =
     map_option (\<lambda>old. if old < BASELINE then BASELINE else old - 1) (lq_count s)"
  by (simp add: lq_dequeue_def Let_def split: option.splits prod.splits)

context fifo
begin

lemma lockless_fifo: "fifo (lockless_ops ops) (\<lambda>s. contents (lq_q s))"
  by (rule fifo.intro)
     (simp_all add: lockless_ops_def lq_new_def contents_new contents_push pop_value contents_pop)

lemma counted_fifo: "fifo (counted_ops ops) (\<lambda>s. contents (lq_q s))"
  by (rule fifo.intro)
     (simp_all add: counted_ops_def new_with_counter_def contents_new contents_push pop_value contents_pop)

end

text \<open>A queue that meets the contract: the sequence itself.\<close>

definition list_ops :: "('a, 'a list) queue_ops" where
  "list_ops = \<lparr>op_new = [], op_push = (\<lambda>x xs. xs @ [x]),
     op_pop = (\<lambda>xs. case xs of [] \<Rightarrow> (None, []) | x # ys \<Rightarrow> (Some x, ys))\<rparr>"

interpretation list_queue: fifo list_ops "\<lambda>xs. xs"
  by unfold_locales (simp_all add: list_ops_def split: list.splits)

interpretation lockless: fifo "lockless_ops list_ops" lq_q
  by (rule list_queue.lockless_fifo)

interpretation counted: fifo "counted_ops list_ops" lq_q
  by (rule list_queue.counted_fifo)

section \<open>The counter, one method at a time\<close>

datatype 'a queue_call = Enqueue 'a | Dequeue | Len

definition lq_call :: "('a, 'q) queue_ops \<Rightarrow> 'a queue_call \<Rightarrow> 'q lockless_queue \<Rightarrow> 'q lockless_queue" where
  "lq_call ops c s = (case c of
     Enqueue x \<Rightarrow> lq_enqueue ops x s
   | Dequeue \<Rightarrow> snd (lq_dequeue ops s)
   | Len \<Rightarrow> snd (lq_len s))"

primrec lq_calls :: "('a, 'q) queue_ops \<Rightarrow> 'a queue_call list \<Rightarrow> 'q lockless_queue \<Rightarrow> 'q lockless_queue" where
  "lq_calls ops [] s = s"
| "lq_calls ops (c # cs) s = lq_calls ops cs (lq_call ops c s)"

text \<open>\<open>count_near m s\<close>: at most \<open>m\<close> elements, and the counter exact or one too small.\<close>

definition count_near :: "('q \<Rightarrow> 'a list) \<Rightarrow> nat \<Rightarrow> 'q lockless_queue \<Rightarrow> bool" where
  "count_near contents m s \<longleftrightarrow> length (contents (lq_q s)) \<le> m \<and>
     (\<exists>c. lq_count s = Some c \<and>
        (unat c = 1000000 + length (contents (lq_q s)) \<or>
         unat c + 1 = 1000000 + length (contents (lq_q s))))"

context fifo
begin

lemma count_near_call:
  assumes "count_near contents m s" and "m < 2 ^ 63"
  shows "count_near contents (Suc m) (lq_call ops c s)"
proof -
  from assms(1) obtain k where k: "lq_count s = Some k" "length (contents (lq_q s)) \<le> m"
    "unat k = 1000000 + length (contents (lq_q s)) \<or> unat k + 1 = 1000000 + length (contents (lq_q s))"
    by (auto simp: count_near_def)
  have lt: "unat k < 2 ^ 64 - 1" using k assms(2) by auto
  have inc: "unat (k + 1) = unat k + 1" using lt by (simp add: unat_word_ariths)
  have dec: "unat (k - 1) = unat k - 1" using k(3) by (intro unat_minus_one) auto
  have low: "k < BASELINE \<longleftrightarrow> unat k < 1000000" by (simp add: BASELINE_def word_less_nat_alt)
  show ?thesis
  proof (cases c)
    case (Enqueue x)
    then show ?thesis using k inc
      by (auto simp: lq_call_def count_near_def contents_push)
  next
    case Dequeue
    then show ?thesis using k dec low
      by (auto simp: lq_call_def count_near_def contents_pop BASELINE_def)
  next
    case Len
    then show ?thesis using k low
      by (auto simp: lq_call_def lq_len_def count_near_def BASELINE_def)
  qed
qed

lemma count_near_calls:
  "count_near contents m s \<Longrightarrow> m + length cs \<le> 2 ^ 63 \<Longrightarrow>
   count_near contents (m + length cs) (lq_calls ops cs s)"
proof (induction cs arbitrary: m s)
  case (Cons c cs)
  then show ?case using Cons.IH [of "Suc m" "lq_call ops c s"] count_near_call [of m s c] by simp
qed simp

lemma count_near_new: "count_near contents 0 (new_with_counter ops)"
  by (simp add: count_near_def new_with_counter_def contents_new BASELINE_def)

end

lemma lq_len_near:
  assumes "count_near contents m s" and "m < 2 ^ 63"
  shows "\<exists>n. fst (lq_len s) = Some n \<and>
    (unat n = length (contents (lq_q s)) \<or> unat n + 1 = length (contents (lq_q s)))"
proof -
  from assms(1) obtain k where k: "lq_count s = Some k" "length (contents (lq_q s)) \<le> m"
    "unat k = 1000000 + length (contents (lq_q s)) \<or> unat k + 1 = 1000000 + length (contents (lq_q s))"
    by (auto simp: count_near_def)
  show ?thesis
  proof (cases "k < BASELINE")
    case True
    then have "unat k < 1000000" by (simp add: BASELINE_def word_less_nat_alt)
    then show ?thesis using True k by (auto simp: lq_len_def)
  next
    case False
    then have "BASELINE \<le> k" by simp
    then have "unat (k - BASELINE) = unat k - 1000000"
      by (simp add: unat_sub BASELINE_def)
    moreover have "1000000 \<le> unat k"
      using False by (simp add: BASELINE_def word_less_nat_alt)
    ultimately show ?thesis using False k by (auto simp: lq_len_def)
  qed
qed

text \<open>
  For calls that do not overlap, the counter of a \<open>LocklessQueue\<close> is accurate to one: after any
  sequence of fewer than \<open>2 ^ 63\<close> calls on a fresh counted queue, \<open>len\<close> is the number of
  elements or one less, and never more.  The \<open>lockfree\<close> queue is any that is first in, first out.
\<close>

lemma len_accurate_to_one:
  assumes "fifo ops contents" and "length cs < 2 ^ 63"
  shows "\<exists>n. fst (lq_len (lq_calls ops cs (new_with_counter ops))) = Some n \<and>
    (unat n = length (contents (lq_q (lq_calls ops cs (new_with_counter ops)))) \<or>
     unat n + 1 = length (contents (lq_q (lq_calls ops cs (new_with_counter ops)))))"
  using fifo.count_near_calls [OF assms(1) fifo.count_near_new [OF assms(1)], of cs] assms(2)
  by (intro lq_len_near [of contents "length cs"]) simp_all

lemma len_accurate_to_one_witness:
  "\<exists>n. fst (lq_len (lq_calls list_ops [Enqueue (7 :: nat), Dequeue, Enqueue 8] (new_with_counter list_ops))) =
     Some n \<and> (unat n = 1 \<or> unat n + 1 = 1)"
  using len_accurate_to_one [OF list_queue.fifo_axioms, of "[Enqueue (7 :: nat), Dequeue, Enqueue 8]"]
  by (simp add: lq_call_def list_ops_def new_with_counter_def)

text \<open>
  The reset in \<open>dequeue\<close> compares the value before the decrement, so one \<open>dequeue\<close> of an
  empty counted queue leaves the counter below the baseline: the next element is then not
  counted, and \<open>is_empty\<close> answers true for a queue that holds it.
\<close>

lemma empty_dequeue_hides_an_element:
  assumes "fifo ops contents"
  shows "case lq_calls ops [Dequeue, Enqueue x] (new_with_counter ops) of s \<Rightarrow>
    contents (lq_q s) = [x] \<and> fst (lq_len s) = Some 0 \<and> fst (lq_is_empty s)"
proof -
  let ?s = "lq_calls ops [Dequeue, Enqueue x] (new_with_counter ops)"
  have "contents (lq_q ?s) = [x]"
    using assms by (simp add: lq_call_def new_with_counter_def fifo.contents_push fifo.contents_pop fifo.contents_new)
  moreover have "lq_count ?s = Some BASELINE"
    by (simp add: lq_call_def new_with_counter_def)
  ultimately show ?thesis by (simp add: lq_len_def lq_is_empty_def split_beta)
qed

lemma empty_dequeue_hides_an_element_witness:
  "case lq_calls list_ops [Dequeue, Enqueue (7 :: nat)] (new_with_counter list_ops) of s \<Rightarrow>
    lq_q s = [7] \<and> fst (lq_len s) = Some 0 \<and> fst (lq_is_empty s)"
  by (rule empty_dequeue_hides_an_element [OF list_queue.fifo_axioms])

text \<open>A sequence of calls that never dequeues from an empty queue.\<close>

primrec never_starved :: "('q \<Rightarrow> 'a list) \<Rightarrow> ('a, 'q) queue_ops \<Rightarrow> 'a queue_call list \<Rightarrow> 'q lockless_queue \<Rightarrow> bool" where
  "never_starved contents ops [] s = True"
| "never_starved contents ops (c # cs) s =
     ((c = Dequeue \<longrightarrow> contents (lq_q s) \<noteq> []) \<and> never_starved contents ops cs (lq_call ops c s))"

definition count_exact :: "('q \<Rightarrow> 'a list) \<Rightarrow> 'q lockless_queue \<Rightarrow> bool" where
  "count_exact contents s \<longleftrightarrow>
     (\<exists>c. lq_count s = Some c \<and> unat c = 1000000 + length (contents (lq_q s)))"

context fifo
begin

lemma count_exact_call:
  assumes "count_exact contents s" and "length (contents (lq_q s)) < 2 ^ 63"
    and "c = Dequeue \<longrightarrow> contents (lq_q s) \<noteq> []"
  shows "count_exact contents (lq_call ops c s)"
    and "length (contents (lq_q (lq_call ops c s))) \<le> Suc (length (contents (lq_q s)))"
proof -
  from assms(1) obtain k where k: "lq_count s = Some k"
    "unat k = 1000000 + length (contents (lq_q s))" by (auto simp: count_exact_def)
  have inc: "unat (k + 1) = unat k + 1" using k assms(2) by (simp add: unat_word_ariths)
  have dec: "unat (k - 1) = unat k - 1" using k(2) by (intro unat_minus_one) auto
  have low: "\<not> k < BASELINE" using k by (simp add: BASELINE_def word_less_nat_alt)
  show "count_exact contents (lq_call ops c s)"
    using k inc dec low assms(3)
    by (cases c; cases "contents (lq_q s)")
       (auto simp: lq_call_def lq_len_def count_exact_def contents_push contents_pop)
  show "length (contents (lq_q (lq_call ops c s))) \<le> Suc (length (contents (lq_q s)))"
    using k low by (cases c) (auto simp: lq_call_def lq_len_def contents_push contents_pop)
qed

lemma count_exact_calls:
  "count_exact contents s \<Longrightarrow> never_starved contents ops cs s \<Longrightarrow>
   length (contents (lq_q s)) + length cs \<le> 2 ^ 63 \<Longrightarrow> count_exact contents (lq_calls ops cs s)"
proof (induction cs arbitrary: s)
  case (Cons c cs)
  then show ?case using Cons.IH [of "lq_call ops c s"] count_exact_call [of s c] by simp
qed simp

lemma contents_calls_bound:
  "length (contents (lq_q (lq_calls ops cs s))) \<le> length (contents (lq_q s)) + length cs"
proof (induction cs arbitrary: s)
  case (Cons c cs)
  have "length (contents (lq_q (lq_call ops c s))) \<le> Suc (length (contents (lq_q s)))"
    by (cases c) (auto simp: lq_call_def lq_len_def contents_push contents_pop split: option.splits)
  with Cons.IH [of "lq_call ops c s"] show ?case by simp
qed simp

end

text \<open>
  As long as no \<open>dequeue\<close> finds the queue empty, \<open>len\<close> is exactly the number of
  elements and \<open>is_empty\<close> is right, for calls that do not overlap.
\<close>

lemma len_exact_unless_starved:
  assumes "fifo ops contents" and "length cs < 2 ^ 63"
    and "never_starved contents ops cs (new_with_counter ops)"
  shows "case lq_calls ops cs (new_with_counter ops) of s \<Rightarrow>
    fst (lq_len s) = Some (word_of_nat (length (contents (lq_q s)))) \<and>
    (fst (lq_is_empty s) \<longleftrightarrow> contents (lq_q s) = [])"
proof -
  let ?s = "lq_calls ops cs (new_with_counter ops)"
  have new: "count_exact contents (new_with_counter ops)" "contents (lq_q (new_with_counter ops)) = []"
    using assms(1) by (simp_all add: count_exact_def new_with_counter_def BASELINE_def fifo.contents_new)
  obtain k where k: "lq_count ?s = Some k" "unat k = 1000000 + length (contents (lq_q ?s))"
    using fifo.count_exact_calls [OF assms(1) new(1) assms(3)] new(2) assms(2)
    by (auto simp: count_exact_def)
  have small: "length (contents (lq_q ?s)) < 2 ^ 63"
    using fifo.contents_calls_bound [OF assms(1), of cs "new_with_counter ops"] new(2) assms(2) by simp
  have low: "\<not> k < BASELINE" using k by (simp add: BASELINE_def word_less_nat_alt)
  have "k = word_of_nat (unat k)" by simp
  also have "\<dots> = BASELINE + word_of_nat (length (contents (lq_q ?s)))"
    unfolding k(2) by (simp add: BASELINE_def)
  finally have len: "k - BASELINE = word_of_nat (length (contents (lq_q ?s)))" by simp
  have "(word_of_nat (length (contents (lq_q ?s))) = (0 :: u64)) \<longleftrightarrow> contents (lq_q ?s) = []"
    using small by (simp add: word_unat_eq_iff unat_of_nat)
  then show ?thesis using k(1) low len by (simp add: lq_len_def lq_is_empty_def)
qed

lemma len_exact_unless_starved_witness:
  "fst (lq_len (lq_calls list_ops [Enqueue (7 :: nat), Enqueue 8, Dequeue] (new_with_counter list_ops))) = Some 1"
  using len_exact_unless_starved [OF list_queue.fifo_axioms, of "[Enqueue (7 :: nat), Enqueue 8, Dequeue]"]
  by (simp add: lq_call_def list_ops_def new_with_counter_def)

section \<open>QueueRing\<close>

record 'q queue_ring =
  next_i :: u64
  l_len :: "u64 list"
  l_q :: "'q lockless_queue list"

record queue_iterator =
  it_len :: u64
  it_saftey_count :: nat
  it_q :: nat

text \<open>
  The arrays have two elements and an index is taken modulo their length, so it is in range.
  An iterator shares its queue with the ring: \<open>it_q\<close> is the queue's place in the ring.
\<close>

definition ring_default :: "('a, 'q) queue_ops \<Rightarrow> 'q queue_ring" where
  "ring_default ops = \<lparr>next_i = 0, l_len = [0, 0], l_q = [lq_new ops, lq_new ops]\<rparr>"

definition ring_slot :: "'q queue_ring \<Rightarrow> nat" where
  "ring_slot r = unat (next_i r) mod length (l_q r)"

definition ring_enqueue :: "('a, 'q) queue_ops \<Rightarrow> 'a \<Rightarrow> 'q queue_ring \<Rightarrow> 'q queue_ring" where
  "ring_enqueue ops x r =
     (let k = ring_slot r;
          r = r\<lparr>l_len := (l_len r)[k := l_len r ! k + 1]\<rparr>
      in r\<lparr>l_q := (l_q r)[k := lq_enqueue ops x (l_q r ! k)]\<rparr>)"

definition ring_dequeue :: "'q queue_ring \<Rightarrow> queue_iterator \<times> 'q queue_ring" where
  "ring_dequeue r =
     (let old_k = ring_slot r;
          r = r\<lparr>next_i := next_i r + 1\<rparr>;
          len = l_len r ! old_k;
          r = r\<lparr>l_len := (l_len r)[old_k := 0]\<rparr>
      in (\<lparr>it_len = len, it_saftey_count = 0, it_q = old_k\<rparr>, r))"

primrec retry_dequeue ::
    "('a, 'q) queue_ops \<Rightarrow> nat \<Rightarrow> 'q lockless_queue \<Rightarrow> 'a option \<times> 'q lockless_queue" where
  "retry_dequeue ops 0 q = (None, q)"
| "retry_dequeue ops (Suc n) q = (case lq_dequeue ops q of
     (Some x, q) \<Rightarrow> (Some x, q)
   | (None, q) \<Rightarrow> retry_dequeue ops n q)"

definition it_next ::
    "('a, 'q) queue_ops \<Rightarrow> queue_iterator \<times> 'q queue_ring \<Rightarrow> 'a option \<times> queue_iterator \<times> 'q queue_ring" where
  "it_next ops s = (case s of (it, r) \<Rightarrow>
     case lq_dequeue ops (l_q r ! it_q it) of
       (Some x, q) \<Rightarrow> (Some x, it\<lparr>it_saftey_count := it_saftey_count it + 1\<rparr>, r\<lparr>l_q := (l_q r)[it_q it := q]\<rparr>)
     | (None, q) \<Rightarrow> (case retry_dequeue ops 3 q of
         (x, q) \<Rightarrow> (x, it, r\<lparr>l_q := (l_q r)[it_q it := q]\<rparr>)))"

section \<open>Batches\<close>

text \<open>
  What others do while a consumer drains a batch: whole \<open>enqueue\<close> calls, and the actions of the
  \<open>enqueue\<close> calls that loaded \<open>next_i\<close> before the batch was taken and so count and push at its own
  queue, \<open>k\<close>.
\<close>

datatype 'a ring_act = Produce 'a | Late_Count | Late_Push 'a

definition ring_act :: "('a, 'q) queue_ops \<Rightarrow> nat \<Rightarrow> 'a ring_act \<Rightarrow> 'q queue_ring \<Rightarrow> 'q queue_ring" where
  "ring_act ops k a r = (case a of
     Produce x \<Rightarrow> ring_enqueue ops x r
   | Late_Count \<Rightarrow> r\<lparr>l_len := (l_len r)[k := l_len r ! k + 1]\<rparr>
   | Late_Push x \<Rightarrow> r\<lparr>l_q := (l_q r)[k := lq_enqueue ops x (l_q r ! k)]\<rparr>)"

text \<open>
  A call of \<open>next\<close> with the actions of others in the gaps before each of its three retries; those
  that come when it has its answer come after it.  Without them it is \<open>it_next\<close>.
\<close>

primrec retry_during ::
    "('a, 'q) queue_ops \<Rightarrow> nat \<Rightarrow> 'a ring_act list list \<Rightarrow> 'a option \<Rightarrow> 'q queue_ring \<Rightarrow> 'a option \<times> 'q queue_ring" where
  "retry_during ops k [] found r = (found, r)"
| "retry_during ops k (g # gs) found r = (let r = fold (ring_act ops k) g r in
     if found \<noteq> None then retry_during ops k gs found r
     else case lq_dequeue ops (l_q r ! k) of
       (x, q) \<Rightarrow> retry_during ops k gs x (r\<lparr>l_q := (l_q r)[k := q]\<rparr>))"

definition next_during ::
    "('a, 'q) queue_ops \<Rightarrow> 'a ring_act list list \<Rightarrow> queue_iterator \<times> 'q queue_ring \<Rightarrow>
     'a option \<times> queue_iterator \<times> 'q queue_ring" where
  "next_during ops gs s = (case s of (it, r) \<Rightarrow>
     case lq_dequeue ops (l_q r ! it_q it) of (x, q) \<Rightarrow>
       case retry_during ops (it_q it) gs x (r\<lparr>l_q := (l_q r)[it_q it := q]\<rparr>) of (y, r) \<Rightarrow>
         (y, if x = None then it else it\<lparr>it_saftey_count := it_saftey_count it + 1\<rparr>, r))"

lemma next_undisturbed:
  assumes "it_q it < length (l_q r)"
  shows "next_during ops [[], [], []] (it, r) = it_next ops (it, r)"
  using assms
  by (auto simp: next_during_def it_next_def Let_def eval_nat_numeral split: prod.splits option.splits)

text \<open>
  A consumer drains a batch while producers go on: \<open>batch_run\<close> collects what its calls of \<open>next\<close>
  returned.
\<close>

datatype 'a batch_call = Act "'a ring_act" | Next "'a ring_act list" "'a ring_act list" "'a ring_act list"

primrec batch_run ::
    "('a, 'q) queue_ops \<Rightarrow> 'a batch_call list \<Rightarrow> queue_iterator \<times> 'q queue_ring \<Rightarrow>
     'a option list \<times> queue_iterator \<times> 'q queue_ring" where
  "batch_run ops [] s = ([], s)"
| "batch_run ops (c # cs) s = (case c of
     Act a \<Rightarrow> batch_run ops cs (fst s, ring_act ops (it_q (fst s)) a (snd s))
   | Next g1 g2 g3 \<Rightarrow> (case next_during ops [g1, g2, g3] s of (x, s) \<Rightarrow>
       case batch_run ops cs s of (xs, s) \<Rightarrow> (x # xs, s)))"

text \<open>The actions of others in a run, and what they enqueue, push late and count late.\<close>

definition call_acts :: "'a batch_call \<Rightarrow> 'a ring_act list" where
  "call_acts c = (case c of Act a \<Rightarrow> [a] | Next g1 g2 g3 \<Rightarrow> g1 @ g2 @ g3)"

definition run_acts :: "'a batch_call list \<Rightarrow> 'a ring_act list" where
  "run_acts cs = concat (map call_acts cs)"

definition produced :: "'a ring_act list \<Rightarrow> 'a list" where
  "produced as = concat (map (\<lambda>a. case a of Produce x \<Rightarrow> [x] | _ \<Rightarrow> []) as)"

definition pushed_late :: "'a ring_act list \<Rightarrow> 'a list" where
  "pushed_late as = concat (map (\<lambda>a. case a of Late_Push x \<Rightarrow> [x] | _ \<Rightarrow> []) as)"

definition counted_late :: "'a ring_act list \<Rightarrow> nat" where
  "counted_late as = length (filter (\<lambda>a. a = Late_Count) as)"

definition nexts :: "'a batch_call list \<Rightarrow> nat" where
  "nexts cs = length (filter (\<lambda>c. \<exists>g1 g2 g3. c = Next g1 g2 g3) cs)"

definition ring_ok :: "'q queue_ring \<Rightarrow> bool" where
  "ring_ok r \<longleftrightarrow> length (l_q r) = 2 \<and> length (l_len r) = 2"

definition held :: "('q \<Rightarrow> 'a list) \<Rightarrow> 'q queue_ring \<Rightarrow> nat \<Rightarrow> 'a list" where
  "held contents r k = contents (lq_q (l_q r ! k))"

lemma ring_slot_less: "ring_ok r \<Longrightarrow> ring_slot r < 2"
  by (simp add: ring_slot_def ring_ok_def)

lemma slot_flips: "unat (n + 1 :: u64) mod 2 = 1 - unat n mod 2"
proof -
  have "unat (n + 1) = (unat n + 1) mod 2 ^ 64" by (simp add: unat_word_ariths)
  also have "\<dots> mod 2 = (unat n + 1) mod 2" by (simp add: mod_mod_cancel)
  finally show ?thesis by presburger
qed

context fifo
begin

lemma lq_dequeue_held:
  "lq_dequeue ops q = (x, q1) \<Longrightarrow>
     x = (case contents (lq_q q) of [] \<Rightarrow> None | y # ys \<Rightarrow> Some y) \<and>
     contents (lq_q q1) = tl (contents (lq_q q))"
  using dequeue_value [of ops q] lq_q_dequeue [of ops q] by (simp add: pop_value contents_pop)

lemma retry_empty:
  "contents (lq_q q) = [] \<Longrightarrow> retry_dequeue ops n q = (y, q2) \<Longrightarrow> y = None \<and> contents (lq_q q2) = []"
proof (induction n arbitrary: q)
  case (Suc n)
  obtain x q1 where d: "lq_dequeue ops q = (x, q1)" by fastforce
  with lq_dequeue_held [OF d] Suc show ?case by auto
qed auto

lemma it_next_held:
  assumes "ring_ok r" and "it_q it < 2"
  shows "fst (it_next ops (it, r)) =
      (case held contents r (it_q it) of [] \<Rightarrow> None | x # xs \<Rightarrow> Some x)"
    and "held contents (snd (snd (it_next ops (it, r)))) (it_q it) = tl (held contents r (it_q it))"
    and "k \<noteq> it_q it \<Longrightarrow> held contents (snd (snd (it_next ops (it, r)))) k = held contents r k"
    and "it_q (fst (snd (it_next ops (it, r)))) = it_q it"
    and "ring_ok (snd (snd (it_next ops (it, r))))"
    and "l_len (snd (snd (it_next ops (it, r)))) = l_len r"
    and "next_i (snd (snd (it_next ops (it, r)))) = next_i r"
proof -
  let ?q = "l_q r ! it_q it"
  obtain x q1 where d: "lq_dequeue ops ?q = (x, q1)" by fastforce
  obtain y q2 where t: "retry_dequeue ops 3 q1 = (y, q2)" by fastforce
  have y: "y = None \<and> contents (lq_q q2) = []" if "contents (lq_q q1) = []"
    using retry_empty [OF that t] .
  note pop = lq_dequeue_held [OF d]
  show "fst (it_next ops (it, r)) = (case held contents r (it_q it) of [] \<Rightarrow> None | x # xs \<Rightarrow> Some x)"
    "held contents (snd (snd (it_next ops (it, r)))) (it_q it) = tl (held contents r (it_q it))"
    "k \<noteq> it_q it \<Longrightarrow> held contents (snd (snd (it_next ops (it, r)))) k = held contents r k"
    "it_q (fst (snd (it_next ops (it, r)))) = it_q it"
    "ring_ok (snd (snd (it_next ops (it, r))))"
    "l_len (snd (snd (it_next ops (it, r)))) = l_len r"
    "next_i (snd (snd (it_next ops (it, r)))) = next_i r"
    using pop d t y assms
    by (auto simp: it_next_def held_def ring_ok_def split: option.splits list.splits)
qed

lemma ring_enqueue_held:
  assumes "ring_ok r"
  shows "held contents (ring_enqueue ops x r) k =
      held contents r k @ (if k = ring_slot r then [x] else [])"
    and "ring_ok (ring_enqueue ops x r)"
    and "next_i (ring_enqueue ops x r) = next_i r"
    and "l_len (ring_enqueue ops x r) = (l_len r)[ring_slot r := l_len r ! ring_slot r + 1]"
  using assms ring_slot_less [OF assms]
  by (auto simp: ring_enqueue_def held_def ring_ok_def Let_def contents_push nth_list_update)

end

lemma ring_slot_eq: "ring_ok r \<Longrightarrow> ring_slot r = unat (next_i r) mod 2"
  by (simp add: ring_slot_def ring_ok_def)

lemma act_counts [simp]:
  "produced [] = []" "produced (Produce x # as) = x # produced as" "produced (Late_Count # as) = produced as"
  "produced (Late_Push x # as) = produced as" "produced (as @ bs) = produced as @ produced bs"
  "pushed_late [] = []" "pushed_late (Produce x # as) = pushed_late as" "pushed_late (Late_Count # as) = pushed_late as"
  "pushed_late (Late_Push x # as) = x # pushed_late as" "pushed_late (as @ bs) = pushed_late as @ pushed_late bs"
  "counted_late [] = 0" "counted_late (Produce x # as) = counted_late as" "counted_late (Late_Count # as) = Suc (counted_late as)"
  "counted_late (Late_Push x # as) = counted_late as" "counted_late (as @ bs) = counted_late as + counted_late bs"
  by (simp_all add: produced_def pushed_late_def counted_late_def)

lemma run_counts [simp]:
  "nexts [] = 0" "nexts (Next g1 g2 g3 # cs) = Suc (nexts cs)" "nexts (Act a # cs) = nexts cs"
  "run_acts [] = []" "run_acts (c # cs) = call_acts c @ run_acts cs" "run_acts (cs @ ds) = run_acts cs @ run_acts ds"
  "call_acts (Act a) = [a]" "call_acts (Next g1 g2 g3) = g1 @ g2 @ g3"
  by (simp_all add: nexts_def run_acts_def call_acts_def)

text \<open>What the calls of \<open>next\<close> get out of a queue that holds \<open>ys\<close>, and what they leave in it.\<close>

fun batch_yields :: "'a batch_call list \<Rightarrow> 'a list \<Rightarrow> 'a option list \<times> 'a list" where
  "batch_yields [] ys = ([], ys)"
| "batch_yields (Act a # cs) ys = batch_yields cs (ys @ pushed_late [a])"
| "batch_yields (Next g1 g2 g3 # cs) ys = (case ys @ pushed_late (g1 @ g2 @ g3) of
     [] \<Rightarrow> (case batch_yields cs [] of (xs, ys) \<Rightarrow> (None # xs, ys))
   | y # ys \<Rightarrow> (case batch_yields cs ys of (xs, ys) \<Rightarrow> (Some y # xs, ys)))"




context fifo
begin

lemma ring_act_held:
  assumes "ring_ok r" and "k < 2" and "ring_slot r = 1 - k"
  shows "held contents (ring_act ops k a r) k = held contents r k @ pushed_late [a]"
    and "held contents (ring_act ops k a r) (1 - k) = held contents r (1 - k) @ produced [a]"
    and "ring_ok (ring_act ops k a r)" and "ring_slot (ring_act ops k a r) = 1 - k"
    and "l_len (ring_act ops k a r) ! k = l_len r ! k + word_of_nat (counted_late [a])"
    and "l_len (ring_act ops k a r) ! (1 - k) = l_len r ! (1 - k) + word_of_nat (length (produced [a]))"
proof -
  have "k = 0 \<or> k = 1" using assms(2) by linarith
  note e = ring_enqueue_held [OF assms(1)]
  have slot: "ring_slot (ring_act ops k a r) = ring_slot r"
    by (cases a) (simp_all add: ring_act_def ring_slot_def ring_enqueue_def Let_def)
  show "held contents (ring_act ops k a r) k = held contents r k @ pushed_late [a]"
    "held contents (ring_act ops k a r) (1 - k) = held contents r (1 - k) @ produced [a]"
    "ring_ok (ring_act ops k a r)" "ring_slot (ring_act ops k a r) = 1 - k"
    "l_len (ring_act ops k a r) ! k = l_len r ! k + word_of_nat (counted_late [a])"
    "l_len (ring_act ops k a r) ! (1 - k) = l_len r ! (1 - k) + word_of_nat (length (produced [a]))"
    using \<open>k = 0 \<or> k = 1\<close> assms slot e
    by (cases a; auto simp: ring_act_def ring_ok_def held_def contents_push)+
qed

definition acted :: "nat \<Rightarrow> 'a ring_act list \<Rightarrow> 'q queue_ring \<Rightarrow> 'q queue_ring \<Rightarrow> bool" where
  "acted k as r r' \<longleftrightarrow> held contents r' (1 - k) = held contents r (1 - k) @ produced as \<and>
     ring_ok r' \<and> ring_slot r' = 1 - k \<and> l_len r' ! k = l_len r ! k + word_of_nat (counted_late as) \<and>
     l_len r' ! (1 - k) = l_len r ! (1 - k) + word_of_nat (length (produced as))"

lemma acted_trans: "acted k as r r1 \<Longrightarrow> acted k bs r1 r2 \<Longrightarrow> acted k (as @ bs) r r2"
  by (simp add: acted_def add.assoc)

lemma acted_acts:
  assumes "ring_ok r" and "k < 2" and "ring_slot r = 1 - k"
  shows "held contents (fold (ring_act ops k) as r) k = held contents r k @ pushed_late as \<and>
    acted k as r (fold (ring_act ops k) as r)"
  using assms
proof (induction as arbitrary: r)
  case (Cons a as)
  note a = ring_act_held [OF Cons.prems, of a]
  have one: "acted k [a] r (ring_act ops k a r)" using a by (simp add: acted_def)
  note rest = Cons.IH [OF a(3) Cons.prems(2) a(4)]
  have "pushed_late (a # as) = pushed_late [a] @ pushed_late as" by (cases a) simp_all
  then show ?case using rest a(1) acted_trans [OF one, of as] by simp
qed (simp add: acted_def)

lemma acted_dequeue:
  assumes "ring_ok r" and "k < 2" and "ring_slot r = 1 - k" and "lq_dequeue ops (l_q r ! k) = (x, q)"
  defines "r' \<equiv> r\<lparr>l_q := (l_q r)[k := q]\<rparr>"
  shows "x = (case held contents r k of [] \<Rightarrow> None | y # ys \<Rightarrow> Some y) \<and> held contents r' k = tl (held contents r k) \<and>
    acted k [] r r'"
proof -
  have "k = 0 \<or> k = 1" using assms(2) by linarith
  then show ?thesis using assms(1,3) lq_dequeue_held [OF assms(4)]
    by (auto simp: r'_def acted_def held_def ring_ok_def ring_slot_def)
qed

text \<open>The retries find the first element there is or that comes before the last of them.\<close>

lemma retry_during_held:
  assumes "ring_ok r" and "k < 2" and "ring_slot r = 1 - k"
    and "found = None \<Longrightarrow> held contents r k = []" and "retry_during ops k gs found r = (y, r')"
  shows "acted k (concat gs) r r' \<and>
    (if found \<noteq> None then y = found \<and> held contents r' k = held contents r k @ pushed_late (concat gs)
     else y = (case pushed_late (concat gs) of [] \<Rightarrow> None | z # zs \<Rightarrow> Some z) \<and>
       held contents r' k = tl (pushed_late (concat gs)))"
  using assms
proof (induction gs arbitrary: r found)
  case Nil
  then show ?case by (cases found) (auto simp: acted_def)
next
  case (Cons g gs)
  let ?r = "fold (ring_act ops k) g r"
  note g = acted_acts [OF Cons.prems(1-3), of g]
  then have ok: "ring_ok ?r" "ring_slot ?r = 1 - k" by (simp_all add: acted_def)
  show ?case
  proof (cases "found = None")
    case False
    have "retry_during ops k gs found ?r = (y, r')" using Cons.prems(5) False by (simp add: Let_def)
    from Cons.IH [OF ok(1) Cons.prems(2) ok(2) _ this] False g show ?thesis
      using acted_trans [of k g r ?r "concat gs" r'] by simp
  next
    case True
    obtain x q where d: "lq_dequeue ops (l_q ?r ! k) = (x, q)" by fastforce
    let ?r1 = "?r\<lparr>l_q := (l_q ?r)[k := q]\<rparr>"
    note d1 = acted_dequeue [OF ok(1) Cons.prems(2) ok(2) d]
    then have ok1: "ring_ok ?r1" "ring_slot ?r1 = 1 - k" by (simp_all add: acted_def)
    have run: "retry_during ops k gs x ?r1 = (y, r')" using Cons.prems(5) True d by (simp add: Let_def)
    have at: "held contents ?r k = pushed_late g" using g Cons.prems(4) True by simp
    have none: "x = None \<Longrightarrow> held contents ?r1 k = []" using d1 by (auto split: list.splits)
    from Cons.IH [OF ok1(1) Cons.prems(2) ok1(2) none run] d1 at True
    have rest: "acted k (concat gs) ?r1 r' \<and> (if x \<noteq> None then y = x \<and> held contents r' k = tl (pushed_late g) @ pushed_late (concat gs)
       else y = (case pushed_late (concat gs) of [] \<Rightarrow> None | z # zs \<Rightarrow> Some z) \<and> held contents r' k = tl (pushed_late (concat gs)))"
      and x: "x = (case pushed_late g of [] \<Rightarrow> None | y # ys \<Rightarrow> Some y)" by simp_all
    have "acted k (g @ [] @ concat gs) r r'" using g d1 rest by (blast intro: acted_trans)
    then show ?thesis using rest x True by (cases "pushed_late g") simp_all
  qed
qed

lemma next_during_held:
  assumes "ring_ok r" and "it_q it < 2" and "ring_slot r = 1 - it_q it"
    and "next_during ops gs (it, r) = (y, it', r')"
  shows "it_q it' = it_q it \<and> acted (it_q it) (concat gs) r r' \<and>
    y = (case held contents r (it_q it) @ pushed_late (concat gs) of [] \<Rightarrow> None | z # zs \<Rightarrow> Some z) \<and>
    held contents r' (it_q it) = tl (held contents r (it_q it) @ pushed_late (concat gs))"
proof -
  let ?k = "it_q it"
  obtain x q where d: "lq_dequeue ops (l_q r ! ?k) = (x, q)" by fastforce
  let ?r = "r\<lparr>l_q := (l_q r)[?k := q]\<rparr>"
  note d1 = acted_dequeue [OF assms(1-3) d]
  then have ok: "ring_ok ?r" "ring_slot ?r = 1 - ?k" by (simp_all add: acted_def)
  have run: "retry_during ops ?k gs x ?r = (y, r')" and it: "it_q it' = ?k"
    using assms(4) d by (auto simp: next_during_def split: prod.splits if_splits)
  have none: "x = None \<Longrightarrow> held contents ?r ?k = []" using d1 by (auto split: list.splits)
  note rest = retry_during_held [OF ok(1) assms(2) ok(2) none run]
  have "acted ?k ([] @ concat gs) r r'" using d1 rest by (blast intro: acted_trans)
  then show ?thesis using rest d1 it by (cases "held contents r ?k") simp_all
qed

lemma batch_run_held:
  assumes "ring_ok r" and "it_q it < 2" and "ring_slot r = 1 - it_q it"
    and "batch_run ops cs (it, r) = (out, it', r')"
  shows "batch_yields cs (held contents r (it_q it)) = (out, held contents r' (it_q it)) \<and>
    acted (it_q it) (run_acts cs) r r'"
  using assms
proof (induction cs arbitrary: it r out)
  case Nil
  then show ?case by (simp add: acted_def)
next
  case (Cons c cs)
  note r = Cons.prems(1-3)
  show ?case
  proof (cases c)
    case (Act a)
    let ?r = "ring_act ops (it_q it) a r"
    note e = ring_act_held [OF r, of a]
    have one: "acted (it_q it) [a] r ?r" using e by (simp add: acted_def)
    have "batch_run ops cs (it, ?r) = (out, it', r')" using Cons.prems(4) Act by simp
    from Cons.IH [OF e(3) r(2) e(4) this] show ?thesis
      using Act e(1) acted_trans [OF one, of "run_acts cs" r'] by simp
  next
    case (Next g1 g2 g3)
    obtain x it1 r1 where n: "next_during ops [g1, g2, g3] (it, r) = (x, it1, r1)"
      by (cases "next_during ops [g1, g2, g3] (it, r)") auto
    obtain out1 where run: "batch_run ops cs (it1, r1) = (out1, it', r')" and out: "out = x # out1"
      using Cons.prems(4) Next n by (auto split: prod.splits)
    note h = next_during_held [OF r n]
    then have ok: "ring_ok r1" "it_q it1 < 2" "ring_slot r1 = 1 - it_q it1" using r(2) by (simp_all add: acted_def)
    from Cons.IH [OF ok run] h have rest: "batch_yields cs (held contents r1 (it_q it)) = (out1, held contents r' (it_q it))"
      "acted (it_q it) (run_acts cs) r1 r'" by simp_all
    have "acted (it_q it) (run_acts (c # cs)) r r'"
      using acted_trans [of "it_q it" "g1 @ g2 @ g3" r r1 "run_acts cs" r'] h rest(2) Next by simp
    then show ?thesis using Next out h rest(1)
      by (cases "held contents r (it_q it) @ pushed_late (g1 @ g2 @ g3)") simp_all
  qed
qed

lemma ring_dequeue_held:
  assumes "ring_ok r" and "ring_dequeue r = (it, r')"
  shows "it_q it = ring_slot r" and "it_len it = l_len r ! ring_slot r" and "ring_slot r' = 1 - ring_slot r"
    and "ring_ok r'" and "held contents r' k = held contents r k" and "l_len r' = (l_len r)[ring_slot r := 0]"
  using assms
  by (auto simp: ring_dequeue_def Let_def ring_slot_def ring_ok_def held_def slot_flips)

end



section \<open>Interleaved producers and consumers\<close>

text \<open>
  Any number of threads on clones of one ring.  An \<open>enqueue\<close> loads \<open>next_i\<close>, adds to the
  length of that slot, and pushes; a \<open>dequeue\<close> advances \<open>next_i\<close> and swaps the length of the
  old slot out; an iterator pops.  The state holds the enqueues between their actions with the
  slot they loaded, the dequeues between theirs, the slots of the iterators, and, for the
  statement, the elements sent and yielded and the sum of the lengths handed out.
\<close>

record ('a, 'q) ring_state =
  rs_ring :: "'q queue_ring"
  rs_loaded :: "(nat \<times> 'a) multiset"
  rs_counted :: "(nat \<times> 'a) multiset"
  rs_switched :: "nat multiset"
  rs_iterators :: "nat multiset"
  rs_sent :: "'a multiset"
  rs_yielded :: "'a multiset"
  rs_handed :: u64

definition ring_start :: "('a, 'q) queue_ops \<Rightarrow> ('a, 'q) ring_state" where
  "ring_start ops = \<lparr>rs_ring = ring_default ops, rs_loaded = {#}, rs_counted = {#},
     rs_switched = {#}, rs_iterators = {#}, rs_sent = {#}, rs_yielded = {#}, rs_handed = 0\<rparr>"

inductive ring_step :: "('a, 'q) queue_ops \<Rightarrow> ('a, 'q) ring_state \<Rightarrow> ('a, 'q) ring_state \<Rightarrow> bool"
  for ops where
  load: "ring_step ops s (s\<lparr>rs_loaded := add_mset (ring_slot (rs_ring s), x) (rs_loaded s),
     rs_sent := add_mset x (rs_sent s)\<rparr>)"
| count: "(k, x) \<in># rs_loaded s \<Longrightarrow> r = rs_ring s \<Longrightarrow>
     ring_step ops s (s\<lparr>rs_loaded := rs_loaded s - {#(k, x)#},
       rs_counted := add_mset (k, x) (rs_counted s),
       rs_ring := r\<lparr>l_len := (l_len r)[k := l_len r ! k + 1]\<rparr>\<rparr>)"
| push: "(k, x) \<in># rs_counted s \<Longrightarrow> r = rs_ring s \<Longrightarrow>
     ring_step ops s (s\<lparr>rs_counted := rs_counted s - {#(k, x)#},
       rs_ring := r\<lparr>l_q := (l_q r)[k := lq_enqueue ops x (l_q r ! k)]\<rparr>\<rparr>)"
| switch: "r = rs_ring s \<Longrightarrow>
     ring_step ops s (s\<lparr>rs_switched := add_mset (ring_slot r) (rs_switched s),
       rs_ring := r\<lparr>next_i := next_i r + 1\<rparr>\<rparr>)"
| swap: "k \<in># rs_switched s \<Longrightarrow> r = rs_ring s \<Longrightarrow>
     ring_step ops s (s\<lparr>rs_switched := rs_switched s - {#k#},
       rs_iterators := add_mset k (rs_iterators s),
       rs_handed := rs_handed s + l_len r ! k,
       rs_ring := r\<lparr>l_len := (l_len r)[k := 0]\<rparr>\<rparr>)"
| pop: "k \<in># rs_iterators s \<Longrightarrow> r = rs_ring s \<Longrightarrow> lq_dequeue ops (l_q r ! k) = (x, q) \<Longrightarrow>
     ring_step ops s (s\<lparr>rs_ring := r\<lparr>l_q := (l_q r)[k := q]\<rparr>,
       rs_yielded := (case x of None \<Rightarrow> rs_yielded s | Some v \<Rightarrow> add_mset v (rs_yielded s))\<rparr>)"

definition ring_conserved :: "('q \<Rightarrow> 'a list) \<Rightarrow> ('a, 'q) ring_state \<Rightarrow> bool" where
  "ring_conserved contents s \<longleftrightarrow>
     rs_sent s = image_mset snd (rs_loaded s) + image_mset snd (rs_counted s) +
       mset (held contents (rs_ring s) 0) + mset (held contents (rs_ring s) 1) + rs_yielded s \<and>
     rs_handed s + l_len (rs_ring s) ! 0 + l_len (rs_ring s) ! 1 =
       word_of_nat (size (rs_counted s) + length (held contents (rs_ring s) 0) +
         length (held contents (rs_ring s) 1) + size (rs_yielded s))"

definition slots_ok :: "('a, 'q) ring_state \<Rightarrow> bool" where
  "slots_ok s \<longleftrightarrow> ring_ok (rs_ring s) \<and>
     (\<forall>m \<in># rs_loaded s. fst m < 2) \<and> (\<forall>m \<in># rs_counted s. fst m < 2) \<and>
     (\<forall>k \<in># rs_switched s. k < 2) \<and> (\<forall>k \<in># rs_iterators s. k < 2)"

lemma slots_ok_step: "ring_step ops s s' \<Longrightarrow> slots_ok s \<Longrightarrow> slots_ok s'"
  by (induction rule: ring_step.induct)
     (auto simp: slots_ok_def ring_ok_def ring_slot_def dest: in_diffD)

lemma below_two: "k < 2 \<Longrightarrow> k = 0 \<or> k = (1 :: nat)"
  by linarith

context fifo
begin

lemma conserved_start: "slots_ok (ring_start ops) \<and> ring_conserved contents (ring_start ops)"
  by (simp add: ring_start_def slots_ok_def ring_conserved_def ring_default_def ring_ok_def held_def
      lq_new_def contents_new)

lemma conserved_step:
  "ring_step ops s s' \<Longrightarrow> slots_ok s \<Longrightarrow> ring_conserved contents s \<Longrightarrow> ring_conserved contents s'"
proof (induction rule: ring_step.induct)
  case (load s x)
  then show ?case by (simp add: ring_conserved_def)
next
  case (count k x s r)
  then have k: "k = 0 \<or> k = 1" and r: "ring_ok r" by (auto simp: slots_ok_def intro!: below_two)
  obtain M where M: "rs_loaded s = add_mset (k, x) M" using multi_member_split [OF count(1)] by blast
  show ?case using k r M count
    by (elim disjE) (simp_all add: ring_conserved_def ring_ok_def held_def algebra_simps)
next
  case (push k x s r)
  then have k: "k = 0 \<or> k = 1" and r: "ring_ok r" by (auto simp: slots_ok_def intro!: below_two)
  obtain M where M: "rs_counted s = add_mset (k, x) M" using multi_member_split [OF push(1)] by blast
  show ?case using k r M push
    by (elim disjE) (simp_all add: ring_conserved_def ring_ok_def held_def contents_push algebra_simps)
next
  case (switch r s)
  then show ?case by (simp add: ring_conserved_def held_def)
next
  case (swap k s r)
  then have k: "k = 0 \<or> k = 1" and r: "ring_ok r" by (auto simp: slots_ok_def intro!: below_two)
  show ?case using k r swap
    by (elim disjE) (simp_all add: ring_conserved_def ring_ok_def held_def algebra_simps)
next
  case (pop k s r x q)
  then have k: "k = 0 \<or> k = 1" and r: "ring_ok r" by (auto simp: slots_ok_def intro!: below_two)
  have q: "x = (case held contents r k of [] \<Rightarrow> None | y # ys \<Rightarrow> Some y)"
    "contents (lq_q q) = tl (held contents r k)"
    using lq_dequeue_held [OF pop(3)] by (simp_all add: held_def)
  show ?case using k r q pop
    by (cases "held contents r k"; elim disjE)
       (simp_all add: ring_conserved_def ring_ok_def held_def algebra_simps)
qed

end

sublocale fifo \<subseteq> conc: invariant_system "\<lambda>s. s = ring_start ops" "ring_step ops"
    "\<lambda>s. slots_ok s \<and> ring_conserved contents s"
  using conserved_start conserved_step by unfold_locales (auto dest: slots_ok_step)

context fifo
begin

lemma conserved_reach:
  "reach (\<lambda>s. s = ring_start ops) (ring_step ops) s \<Longrightarrow> slots_ok s \<and> ring_conserved contents s"
  by (rule conc.inv_reach)

end

text \<open>
  C22: No element is lost or duplicated by a \<open>QueueRing\<close>, under every interleaving of the atomic
  actions of its producers and consumers: what was sent is what is in flight, what the two queues
  hold and what the iterators yielded; and the lengths handed to the iterators add up, with the
  two counters, to the number of enqueues that have counted themselves.
\<close>

theorem ring_loses_nothing:
  assumes "fifo ops contents" and "reach (\<lambda>s. s = ring_start ops) (ring_step ops) s"
  shows "rs_sent s = image_mset snd (rs_loaded s) + image_mset snd (rs_counted s) +
      mset (held contents (rs_ring s) 0) + mset (held contents (rs_ring s) 1) + rs_yielded s \<and>
    rs_handed s + l_len (rs_ring s) ! 0 + l_len (rs_ring s) ! 1 =
      word_of_nat (size (rs_sent s) - size (rs_loaded s))"
proof -
  note inv = fifo.conserved_reach [OF assms]
  then have sent: "rs_sent s = image_mset snd (rs_loaded s) + image_mset snd (rs_counted s) +
      mset (held contents (rs_ring s) 0) + mset (held contents (rs_ring s) 1) + rs_yielded s"
    by (simp add: ring_conserved_def)
  have "size (rs_sent s) - size (rs_loaded s) = size (rs_counted s) +
      length (held contents (rs_ring s) 0) + length (held contents (rs_ring s) 1) + size (rs_yielded s)"
    unfolding sent by simp
  with inv sent show ?thesis by (simp add: ring_conserved_def)
qed

theorem ring_loses_nothing_witness:
  "\<exists>s. reach (\<lambda>s. s = ring_start list_ops) (ring_step list_ops) s \<and>
     rs_sent s = {#7 :: nat#} \<and> rs_yielded s = {#7#} \<and> rs_handed s = 1 \<and>
     rs_handed s + l_len (rs_ring s) ! 0 + l_len (rs_ring s) ! 1 = 1"
proof -
  note unf = ring_start_def ring_default_def ring_slot_def lq_new_def list_ops_def lq_enqueue_def lq_dequeue_def
  let ?step = "ring_step (list_ops :: (nat, nat list) queue_ops)"
  let ?R = "reach (\<lambda>s. s = ring_start (list_ops :: (nat, nat list) queue_ops)) ?step"
  have r0: "?R (ring_start list_ops)" by (rule reach_init) simp
  obtain s1 where r1: "?R s1" and s1: "s1 = (ring_start list_ops)\<lparr>rs_loaded := {#(0, 7)#}, rs_sent := {#7#}\<rparr>"
    using reach_step [OF r0 load [of list_ops _ 7]] by (simp add: unf)
  obtain s2 where r2: "?R s2" and s2: "s2 = s1\<lparr>rs_loaded := {#}, rs_counted := {#(0, 7)#},
      rs_ring := (rs_ring s1)\<lparr>l_len := [1, 0]\<rparr>\<rparr>"
    using reach_step [OF r1 count [of 0 7, OF _ refl]] by (simp add: s1 unf)
  obtain s3 where r3: "?R s3" and s3: "s3 = s2\<lparr>rs_counted := {#},
      rs_ring := (rs_ring s2)\<lparr>l_q := [\<lparr>lq_count = None, lq_q = [7]\<rparr>, \<lparr>lq_count = None, lq_q = []\<rparr>]\<rparr>\<rparr>"
    using reach_step [OF r2 push [of 0 7, OF _ refl]] by (simp add: s2 s1 unf)
  obtain s4 where r4: "?R s4" and s4: "s4 = s3\<lparr>rs_switched := {#0#}, rs_ring := (rs_ring s3)\<lparr>next_i := 1\<rparr>\<rparr>"
    using reach_step [OF r3 switch [OF refl]] by (simp add: s3 s2 s1 unf)
  obtain s5 where r5: "?R s5" and s5: "s5 = s4\<lparr>rs_switched := {#}, rs_iterators := {#0#}, rs_handed := 1,
      rs_ring := (rs_ring s4)\<lparr>l_len := [0, 0]\<rparr>\<rparr>"
    using reach_step [OF r4 swap [of 0, OF _ refl]] by (simp add: s4 s3 s2 s1 unf)
  obtain s6 where r6: "?R s6" and s6: "s6 = s5\<lparr>rs_yielded := {#7#},
      rs_ring := (rs_ring s5)\<lparr>l_q := [\<lparr>lq_count = None, lq_q = []\<rparr>, \<lparr>lq_count = None, lq_q = []\<rparr>]\<rparr>\<rparr>"
    using reach_step [OF r5 pop [of 0, OF _ refl]] by (simp add: s5 s4 s3 s2 s1 unf)
  have "rs_handed s6 + l_len (rs_ring s6) ! 0 + l_len (rs_ring s6) ! 1 = 1"
    using ring_loses_nothing [OF list_queue.fifo_axioms r6] by (simp add: s6 s5 s4 s3 s2 s1 unf)
  with r6 show ?thesis by (intro exI [of _ s6]) (simp add: s6 s5 s4 s3 s2 s1 unf)
qed

end
