(* ===== verification/Queue_Race.thy ===== *)
theory Queue_Race
  imports Queue
begin

text \<open>
  \<open>src/queue.rs\<close>: the calls of a \<open>LocklessQueue\<close> interleaved.  Every method is a few atomic actions:
  \<open>enqueue\<close> pushes and then increments the counter; \<open>dequeue\<close> decrements it, resets it if the old
  value was below the baseline, and then pops; \<open>len\<close> loads it and may reset it.
\<close>

section \<open>Atomic actions\<close>

text \<open>
  The state counts the calls between two of their actions: enqueues that have not yet
  incremented, dequeues about to reset and about to pop, \<open>len\<close> calls about to reset.  For the
  statements it lists the elements pushed and the results popped, and counts the reset decisions.
\<close>

record ('a, 'q) queue_race =
  qr_queue :: "'q lockless_queue"
  qr_adding :: nat
  qr_resetting :: nat
  qr_popping :: nat
  qr_len_resetting :: nat
  qr_put :: "'a list"
  qr_taken :: "'a option list"
  qr_resets :: nat

datatype 'a queue_action = Push_element 'a | Add | Sub | Reset | Pop_element | Len_load | Len_reset

definition set_count :: "u64 \<Rightarrow> 'q lockless_queue \<Rightarrow> 'q lockless_queue" where
  "set_count c q = (case lq_count q of None \<Rightarrow> q | Some _ \<Rightarrow> q\<lparr>lq_count := Some c\<rparr>)"

text \<open>An action is \<open>None\<close> when no call is at that point.\<close>

definition queue_act ::
    "('a, 'q) queue_ops \<Rightarrow> 'a queue_action \<Rightarrow> ('a, 'q) queue_race \<Rightarrow> ('a, 'q) queue_race option" where
  "queue_act ops a s = (let q = qr_queue s in case a of
     Push_element x \<Rightarrow> Some (s\<lparr>qr_queue := q\<lparr>lq_q := op_push ops x (lq_q q)\<rparr>,
       qr_adding := qr_adding s + 1, qr_put := qr_put s @ [x]\<rparr>)
   | Add \<Rightarrow> if qr_adding s = 0 then None
       else Some (s\<lparr>qr_queue := q\<lparr>lq_count := map_option (\<lambda>c. c + 1) (lq_count q)\<rparr>, qr_adding := qr_adding s - 1\<rparr>)
   | Sub \<Rightarrow> (case lq_count q of
       None \<Rightarrow> Some (s\<lparr>qr_popping := qr_popping s + 1\<rparr>)
     | Some old \<Rightarrow> let s = s\<lparr>qr_queue := q\<lparr>lq_count := Some (old - 1)\<rparr>\<rparr> in
         if old < BASELINE then Some (s\<lparr>qr_resetting := qr_resetting s + 1, qr_resets := qr_resets s + 1\<rparr>)
         else Some (s\<lparr>qr_popping := qr_popping s + 1\<rparr>))
   | Reset \<Rightarrow> if qr_resetting s = 0 then None
       else Some (s\<lparr>qr_queue := set_count BASELINE q, qr_resetting := qr_resetting s - 1,
         qr_popping := qr_popping s + 1\<rparr>)
   | Pop_element \<Rightarrow> if qr_popping s = 0 then None
       else (case op_pop ops (lq_q q) of (x, q') \<Rightarrow>
         Some (s\<lparr>qr_queue := q\<lparr>lq_q := q'\<rparr>, qr_popping := qr_popping s - 1, qr_taken := qr_taken s @ [x]\<rparr>))
   | Len_load \<Rightarrow> (case lq_count q of
       None \<Rightarrow> Some s
     | Some c \<Rightarrow> if c < BASELINE then Some (s\<lparr>qr_len_resetting := qr_len_resetting s + 1, qr_resets := qr_resets s + 1\<rparr>)
                else Some s)
   | Len_reset \<Rightarrow> if qr_len_resetting s = 0 then None
       else Some (s\<lparr>qr_queue := set_count BASELINE q, qr_len_resetting := qr_len_resetting s - 1\<rparr>))"

primrec queue_acts ::
    "('a, 'q) queue_ops \<Rightarrow> 'a queue_action list \<Rightarrow> ('a, 'q) queue_race \<Rightarrow> ('a, 'q) queue_race option" where
  "queue_acts ops [] s = Some s"
| "queue_acts ops (a # acts) s = do { s \<leftarrow> queue_act ops a s; queue_acts ops acts s }"

definition race_on :: "'q lockless_queue \<Rightarrow> ('a, 'q) queue_race" where
  "race_on q = \<lparr>qr_queue = q, qr_adding = 0, qr_resetting = 0, qr_popping = 0, qr_len_resetting = 0,
     qr_put = [], qr_taken = [], qr_resets = 0\<rparr>"

text \<open>No call is between two of its actions.\<close>

definition quiet :: "('a, 'q) queue_race \<Rightarrow> bool" where
  "quiet s \<longleftrightarrow> qr_adding s = 0 \<and> qr_resetting s = 0 \<and> qr_popping s = 0 \<and> qr_len_resetting s = 0"

lemma queue_acts_append:
  "queue_acts ops (xs @ ys) s = do { s \<leftarrow> queue_acts ops xs s; queue_acts ops ys s }"
  by (induction xs arbitrary: s) (simp_all add: Option.bind_assoc)

text \<open>A call whose actions no other call comes between is the method of the sequential model.\<close>

lemma enqueue_alone:
  "\<exists>t. queue_acts ops [Push_element x, Add] (race_on q) = Some t \<and> qr_queue t = lq_enqueue ops x q \<and> quiet t"
  by (auto simp: queue_act_def race_on_def lq_enqueue_def quiet_def Let_def split: option.splits)

lemma dequeue_alone:
  "\<exists>t. queue_acts ops (case lq_count q of
        Some c \<Rightarrow> if c < BASELINE then [Sub, Reset, Pop_element] else [Sub, Pop_element]
      | None \<Rightarrow> [Sub, Pop_element]) (race_on q) = Some t \<and>
    (hd (qr_taken t), qr_queue t) = lq_dequeue ops q \<and> quiet t"
  by (cases "lq_count q"; cases "op_pop ops (lq_q q)")
     (auto simp: queue_act_def race_on_def lq_dequeue_def set_count_def quiet_def Let_def)

lemma len_alone:
  "\<exists>t. queue_acts ops (case lq_count q of
        Some c \<Rightarrow> if c < BASELINE then [Len_load, Len_reset] else [Len_load]
      | None \<Rightarrow> [Len_load]) (race_on q) = Some t \<and> qr_queue t = snd (lq_len q) \<and> quiet t"
  by (auto simp: queue_act_def race_on_def lq_len_def set_count_def quiet_def Let_def split: option.splits)

section \<open>While no call resets the counter\<close>

definition taken :: "'a option list \<Rightarrow> 'a list" where
  "taken rs = concat (map (case_option [] (\<lambda>x. [x])) rs)"

definition starved :: "'a option list \<Rightarrow> nat" where
  "starved rs = length (filter (\<lambda>r. r = None) rs)"

lemma taken_simps [simp]:
  "taken [] = []" "taken (rs @ [None]) = taken rs" "taken (rs @ [Some x]) = taken rs @ [x]"
  "starved [] = 0" "starved (rs @ [None]) = Suc (starved rs)" "starved (rs @ [Some x]) = starved rs"
  by (simp_all add: taken_def starved_def)

text \<open>
  The counter accounts for every call: what the elements are more than the baseline is in the
  counter, with an enqueue that has yet to count or in a dequeue that has already counted; a
  dequeue that found nothing stays counted, and there is at most one.
\<close>

definition count_inv :: "('q \<Rightarrow> 'a list) \<Rightarrow> ('a, 'q) queue_race \<Rightarrow> bool" where
  "count_inv contents s \<longleftrightarrow> qr_put s = taken (qr_taken s) @ contents (lq_q (qr_queue s)) \<and>
     (qr_resets s = 0 \<and> length (qr_put s) < 2 ^ 63 \<longrightarrow>
       qr_resetting s = 0 \<and> qr_len_resetting s = 0 \<and>
       starved (qr_taken s) \<le> 1 \<and>
       (\<exists>c. lq_count (qr_queue s) = Some c \<and> 999999 \<le> unat c \<and>
         unat c + qr_adding s + qr_popping s + starved (qr_taken s) =
           1000000 + length (contents (lq_q (qr_queue s)))))"

lemma below_baseline: "c < BASELINE \<longleftrightarrow> unat c < 1000000"
  by (simp add: BASELINE_def word_less_nat_alt)

context fifo
begin

lemma count_inv_start: "count_inv contents (race_on (new_with_counter ops))"
  by (simp add: count_inv_def race_on_def new_with_counter_def contents_new BASELINE_def)

lemma count_inv_act:
  assumes inv: "count_inv contents s" and act: "queue_act ops a s = Some t"
  shows "count_inv contents t"
proof -
  let ?q = "qr_queue s"
  have put: "qr_put s = taken (qr_taken s) @ contents (lq_q ?q)" using inv by (simp add: count_inv_def)
  have grows: "qr_resets s \<le> qr_resets t" "length (qr_put s) \<le> length (qr_put t)"
    using act by (auto simp: queue_act_def Let_def split: queue_action.splits option.splits if_splits prod.splits)
  have put': "qr_put t = taken (qr_taken t) @ contents (lq_q (qr_queue t))"
  proof (cases a)
    case Pop_element
    then show ?thesis using act put pop_value [of "lq_q ?q"] contents_pop [of "lq_q ?q"]
      by (auto simp: queue_act_def Let_def split: if_splits prod.splits list.splits)
  qed (use act put in \<open>auto simp: queue_act_def set_count_def contents_push Let_def
        split: if_splits option.splits\<close>)
  have "qr_resetting t = 0 \<and> qr_len_resetting t = 0 \<and> starved (qr_taken t) \<le> 1 \<and>
      (\<exists>c. lq_count (qr_queue t) = Some c \<and> 999999 \<le> unat c \<and> unat c + qr_adding t + qr_popping t + starved (qr_taken t) = 1000000 + length (contents (lq_q (qr_queue t))))"
    if t: "qr_resets t = 0" "length (qr_put t) < 2 ^ 63"
  proof -
    obtain c where c: "lq_count ?q = Some c" "999999 \<le> unat c" "qr_resetting s = 0" "qr_len_resetting s = 0"
      "unat c + qr_adding s + qr_popping s + starved (qr_taken s) = 1000000 + length (contents (lq_q ?q))"
      "starved (qr_taken s) \<le> 1"
      using inv t grows by (auto simp: count_inv_def)
    have "length (contents (lq_q ?q)) < 2 ^ 63" using put grows(2) t(2) by simp
    then have inc: "unat (c + 1) = unat c + 1" using c(5) by (simp add: unat_word_ariths)
    have dec: "unat (c - 1) = unat c - 1" using c(2) by (intro unat_minus_one) auto
    show ?thesis
    proof (cases a)
      case Pop_element
      then show ?thesis using act c pop_value [of "lq_q ?q"] contents_pop [of "lq_q ?q"]
        by (cases "contents (lq_q ?q)") (auto simp: queue_act_def Let_def split: if_splits prod.splits)
    qed (use act c inc dec t in \<open>auto simp: queue_act_def set_count_def contents_push below_baseline Let_def
          split: if_splits\<close>)
  qed
  with put' show ?thesis by (simp add: count_inv_def)
qed

lemma count_inv_acts:
  "queue_acts ops acts s = Some t \<Longrightarrow> count_inv contents s \<Longrightarrow> count_inv contents t"
  by (induction acts arbitrary: s) (auto simp: Option.bind_eq_Some_conv intro: count_inv_act)

end

text \<open>
  C36: However the calls of a counted queue interleave, it hands out its elements in the order they
  were pushed.  As long as no call has found the counter below the baseline, at most one \<open>dequeue\<close>
  came up empty, and \<open>len\<close> is the number of elements less the calls in progress and that one: with
  no call in progress it is exact or one too small, and never too large.
\<close>

theorem len_interleaved:
  assumes "fifo ops contents" and "queue_acts ops acts (race_on (new_with_counter ops)) = Some s"
  shows "qr_put s = taken (qr_taken s) @ contents (lq_q (qr_queue s)) \<and>
    (qr_resets s = 0 \<and> length (qr_put s) < 2 ^ 63 \<longrightarrow> starved (qr_taken s) \<le> 1 \<and>
      (\<exists>n. fst (lq_len (qr_queue s)) = Some n \<and>
        unat n = length (contents (lq_q (qr_queue s))) - (qr_adding s + qr_popping s + starved (qr_taken s))))"
proof -
  have inv: "count_inv contents s"
    by (rule fifo.count_inv_acts [OF assms(1,2) fifo.count_inv_start [OF assms(1)]])
  have "\<exists>n. fst (lq_len (qr_queue s)) = Some n \<and>
      unat n = length (contents (lq_q (qr_queue s))) - (qr_adding s + qr_popping s + starved (qr_taken s))"
    if few: "qr_resets s = 0" "length (qr_put s) < 2 ^ 63"
  proof -
    obtain c where c: "lq_count (qr_queue s) = Some c" "999999 \<le> unat c"
      "unat c + qr_adding s + qr_popping s + starved (qr_taken s) =
        1000000 + length (contents (lq_q (qr_queue s)))"
      using inv few unfolding count_inv_def by blast
    show ?thesis
    proof (cases "c < BASELINE")
      case True
      then show ?thesis using c by (auto simp: lq_len_def below_baseline)
    next
      case False
      then have "unat (c - BASELINE) = unat c - 1000000" by (simp add: unat_sub BASELINE_def)
      then show ?thesis using c False by (auto simp: lq_len_def below_baseline)
    qed
  qed
  with inv show ?thesis by (auto simp: count_inv_def)
qed

theorem len_interleaved_witness:
  "\<exists>s. queue_acts list_ops [Push_element (7 :: nat), Push_element 8, Add, Sub, Add, Pop_element, Push_element 9]
      (race_on (new_with_counter list_ops)) = Some s \<and> qr_put s = [7, 8, 9] \<and>
    (\<exists>n. fst (lq_len (qr_queue s)) = Some n \<and> unat n = 1)"
proof -
  let ?acts = "[Push_element (7 :: nat), Push_element 8, Add, Sub, Add, Pop_element, Push_element 9]"
  obtain s where s: "queue_acts list_ops ?acts (race_on (new_with_counter list_ops)) = Some s"
    "qr_put s = [7, 8, 9]" "qr_resets s = 0" "lq_q (qr_queue s) = [8, 9]" "qr_adding s = 1" "qr_popping s = 0"
    "starved (qr_taken s) = 0"
    by (simp add: queue_act_def race_on_def new_with_counter_def list_ops_def BASELINE_def Let_def starved_def)
  from len_interleaved [OF list_queue.fifo_axioms s(1)] s show ?thesis by auto
qed

section \<open>Once a call resets it\<close>

text \<open>The states of the two schedules below, over the calls in progress and the elements.\<close>

definition drift_state ::
    "('q \<Rightarrow> 'a list) \<Rightarrow> u64 \<Rightarrow> nat \<Rightarrow> nat \<Rightarrow> nat \<Rightarrow> nat \<Rightarrow> ('a, 'q) queue_race \<Rightarrow> bool" where
  "drift_state contents c l adding resetting popping s \<longleftrightarrow> lq_count (qr_queue s) = Some c \<and>
     length (contents (lq_q (qr_queue s))) = l \<and> qr_adding s = adding \<and> qr_resetting s = resetting \<and>
     qr_popping s = popping \<and> qr_len_resetting s = 0"

primrec repeat_acts :: "nat \<Rightarrow> 'a list \<Rightarrow> 'a list" where
  "repeat_acts 0 xs = []"
| "repeat_acts (Suc n) xs = repeat_acts n xs @ xs"

lemma repeat_acts_run:
  assumes "\<And>i s. i < n \<Longrightarrow> P i s \<Longrightarrow> \<exists>t. queue_acts ops xs s = Some t \<and> P (Suc i) t" and "P 0 s"
  shows "\<exists>t. queue_acts ops (repeat_acts n xs) s = Some t \<and> P n t"
  using assms(1)
proof (induction n)
  case 0
  show ?case using assms(2) by simp
next
  case (Suc n)
  then obtain t where t: "queue_acts ops (repeat_acts n xs) s = Some t" "P n t" by fastforce
  with Suc.prems [of n t] show ?case by (auto simp: queue_acts_append)
qed

context fifo
begin

abbreviation "drift \<equiv> drift_state contents"

lemma drift_push:
  "drift c l a r p s \<Longrightarrow> \<exists>t. queue_acts ops [Push_element x] s = Some t \<and> drift c (Suc l) (Suc a) r p t"
  by (simp add: drift_state_def queue_act_def contents_push Let_def)

lemma drift_add:
  "drift c l (Suc a) r p s \<Longrightarrow> \<exists>t. queue_acts ops [Add] s = Some t \<and> drift (c + 1) l a r p t"
  by (simp add: drift_state_def queue_act_def Let_def)

lemma drift_sub:
  "drift c l a r p s \<Longrightarrow> \<exists>t. queue_acts ops [Sub] s = Some t \<and>
     (if c < BASELINE then drift (c - 1) l a (Suc r) p t else drift (c - 1) l a r (Suc p) t)"
  by (simp add: drift_state_def queue_act_def Let_def)

lemma drift_reset:
  "drift c l a (Suc r) p s \<Longrightarrow> \<exists>t. queue_acts ops [Reset] s = Some t \<and> drift BASELINE l a r (Suc p) t"
  by (simp add: drift_state_def queue_act_def set_count_def Let_def)

lemma drift_pop:
  "drift c l a r (Suc p) s \<Longrightarrow> \<exists>t. queue_acts ops [Pop_element] s = Some t \<and> drift c (l - 1) a r p t"
  using contents_pop [of "lq_q (qr_queue s)"]
  by (simp add: drift_state_def queue_act_def split_beta Let_def)

text \<open>Two actions in a row, and a schedule repeated.\<close>

lemma drift_enqueues:
  assumes "drift c l a r p s"
  shows "\<exists>t. queue_acts ops (repeat_acts n [Push_element x, Add]) s = Some t \<and> drift (c + word_of_nat n) (l + n) a r p t"
proof (rule repeat_acts_run [of n "\<lambda>i. drift (c + word_of_nat i) (l + i) a r p"])
  fix i s assume i: "drift (c + word_of_nat i) (l + i) a r p s"
  obtain t where t: "queue_acts ops [Push_element x] s = Some t" "drift (c + word_of_nat i) (Suc (l + i)) (Suc a) r p t"
    using drift_push [OF i] by blast
  have "queue_acts ops ([Push_element x] @ [Add]) s = queue_acts ops [Add] t"
    using t(1) by (simp only: queue_acts_append Option.bind.bind_lunit)
  then show "\<exists>t. queue_acts ops [Push_element x, Add] s = Some t \<and> drift (c + word_of_nat (Suc i)) (l + Suc i) a r p t"
    using drift_add [OF t(2)] by (simp add: algebra_simps)
qed (use assms in simp)

text \<open>One \<open>dequeue\<close> of the empty queue leaves the counter one below the baseline.\<close>

lemma drift_start:
  "\<exists>t. queue_acts ops [Sub, Pop_element] (race_on (new_with_counter ops)) = Some t \<and> drift (BASELINE - 1) 0 0 0 0 t"
  using contents_pop [of "op_new ops"]
  by (simp add: drift_state_def race_on_def new_with_counter_def contents_new queue_act_def Let_def split_beta)

lemma drift_low:
  "\<exists>acts t. queue_acts ops acts (race_on (new_with_counter ops)) = Some t \<and> drift BASELINE k 0 0 0 t"
proof -
  obtain t1 where t1: "queue_acts ops [Sub, Pop_element] (race_on (new_with_counter ops)) = Some t1"
    "drift (BASELINE - 1) 0 0 0 0 t1" using drift_start by blast
  obtain t2 where t2: "queue_acts ops [Sub] t1 = Some t2" "drift (BASELINE - 2) 0 0 1 0 t2"
    using drift_sub [OF t1(2)] by (auto simp: BASELINE_def)
  obtain t3 where t3: "queue_acts ops (repeat_acts (Suc k) [Push_element undefined, Add]) t2 = Some t3"
    "drift (BASELINE - 2 + word_of_nat (Suc k)) (Suc k) 0 (Suc 0) 0 t3"
    using drift_enqueues [OF t2(2), of "Suc k" undefined] by auto
  obtain t4 where t4: "queue_acts ops [Reset] t3 = Some t4" "drift BASELINE (Suc k) 0 0 (Suc 0) t4"
    using drift_reset [OF t3(2)] by blast
  obtain t5 where t5: "queue_acts ops [Pop_element] t4 = Some t5" "drift BASELINE k 0 0 0 t5"
    using drift_pop [OF t4(2)] by auto
  have "queue_acts ops ([Sub, Pop_element] @ [Sub] @ repeat_acts (Suc k) [Push_element undefined, Add] @ [Reset] @ [Pop_element])
      (race_on (new_with_counter ops)) = Some t5"
    by (simp only: queue_acts_append t1(1) t2(1) t3(1) t4(1) t5(1) Option.bind.bind_lunit)
  with t5(2) show ?thesis by blast
qed

lemma drift_subs:
  assumes "drift c l a r p s" and "c < BASELINE" and "n \<le> unat c"
  shows "\<exists>t. queue_acts ops (repeat_acts n [Sub]) s = Some t \<and> drift (c - word_of_nat n) l a (r + n) p t"
proof (rule repeat_acts_run [of n "\<lambda>i. drift (c - word_of_nat i) l a (r + i) p"])
  fix i s assume i: "i < n" "drift (c - word_of_nat i) l a (r + i) p s"
  have "unat (word_of_nat i :: u64) = i" using i(1) assms(3) unsigned_less [of c, where ?'a = nat]
    by (simp add: unat_of_nat)
  then have "c - word_of_nat i \<le> c" using i(1) assms(3) by (simp add: word_le_nat_alt unat_sub)
  then have "c - word_of_nat i < BASELINE" using assms(2) by simp
  then show "\<exists>t. queue_acts ops [Sub] s = Some t \<and> drift (c - word_of_nat (Suc i)) l a (r + Suc i) p t"
    using drift_sub [OF i(2)] by (simp add: algebra_simps)
qed (use assms(1) in simp)

lemma drift_pushes:
  assumes "drift c l a r p s"
  shows "\<exists>t. queue_acts ops (repeat_acts n [Push_element x]) s = Some t \<and> drift c (l + n) (a + n) r p t"
  by (rule repeat_acts_run [of n "\<lambda>i. drift c (l + i) (a + i) r p"]) (use drift_push assms in auto)

lemma drift_resets:
  assumes "drift c l a n p s" and "0 < n"
  shows "\<exists>t. queue_acts ops (repeat_acts n [Reset]) s = Some t \<and> drift BASELINE l a 0 (p + n) t"
proof -
  let ?P = "\<lambda>i. drift (if i = 0 then c else BASELINE) l a (n - i) (p + i)"
  have "\<exists>t. queue_acts ops (repeat_acts n [Reset]) s = Some t \<and> ?P n t"
  proof (rule repeat_acts_run [of n ?P])
    fix i s assume i: "i < n" "?P i s"
    then have "drift (if i = 0 then c else BASELINE) l a (Suc (n - Suc i)) (p + i) s" by (simp add: Suc_diff_Suc)
    from drift_reset [OF this] show "\<exists>t. queue_acts ops [Reset] s = Some t \<and> ?P (Suc i) t" by simp
  qed (use assms(1) in simp)
  then show ?thesis using assms(2) by simp
qed

lemma drift_pops:
  assumes "drift c l a r n s"
  shows "\<exists>t. queue_acts ops (repeat_acts n [Pop_element]) s = Some t \<and> drift c (l - n) a r 0 t"
proof -
  let ?P = "\<lambda>i. drift c (l - i) a r (n - i)"
  have "\<exists>t. queue_acts ops (repeat_acts n [Pop_element]) s = Some t \<and> ?P n t"
  proof (rule repeat_acts_run [of n ?P])
    fix i s assume i: "i < n" "?P i s"
    then have "drift c (l - i) a r (Suc (n - Suc i)) s" by (simp add: Suc_diff_Suc)
    from drift_pop [OF this] show "\<exists>t. queue_acts ops [Pop_element] s = Some t \<and> ?P (Suc i) t" by simp
  qed (use assms in simp)
  then show ?thesis by simp
qed

lemma drift_adds:
  assumes "drift c l n r p s"
  shows "\<exists>t. queue_acts ops (repeat_acts n [Add]) s = Some t \<and> drift (c + word_of_nat n) l 0 r p t"
proof -
  let ?P = "\<lambda>i. drift (c + word_of_nat i) l (n - i) r p"
  have "\<exists>t. queue_acts ops (repeat_acts n [Add]) s = Some t \<and> ?P n t"
  proof (rule repeat_acts_run [of n ?P])
    fix i s assume i: "i < n" "?P i s"
    then have "drift (c + word_of_nat i) l (Suc (n - Suc i)) r p s" by (simp add: Suc_diff_Suc)
    from drift_add [OF this] show "\<exists>t. queue_acts ops [Add] s = Some t \<and> ?P (Suc i) t"
      by (simp add: algebra_simps)
  qed (use assms in simp)
  then show ?thesis by simp
qed

lemma drift_high:
  assumes "0 < k" and "k \<le> 999999"
  shows "\<exists>acts t. queue_acts ops acts (race_on (new_with_counter ops)) = Some t \<and> drift (BASELINE + word_of_nat k) 0 0 0 0 t"
proof -
  obtain t1 where t1: "queue_acts ops [Sub, Pop_element] (race_on (new_with_counter ops)) = Some t1"
    "drift (BASELINE - 1) 0 0 0 0 t1" using drift_start by blast
  have "BASELINE - 1 < BASELINE" "unat (BASELINE - 1) = 999999" by (simp_all add: BASELINE_def)
  then obtain t2 where t2: "queue_acts ops (repeat_acts k [Sub]) t1 = Some t2"
    "drift (BASELINE - 1 - word_of_nat k) 0 0 k 0 t2" using drift_subs [OF t1(2), of k] assms(2) by auto
  obtain t3 where t3: "queue_acts ops (repeat_acts k [Push_element undefined]) t2 = Some t3"
    "drift (BASELINE - 1 - word_of_nat k) k k k 0 t3" using drift_pushes [OF t2(2), of k undefined] by auto
  obtain t4 where t4: "queue_acts ops (repeat_acts k [Reset]) t3 = Some t4" "drift BASELINE k k 0 k t4"
    using drift_resets [OF t3(2) assms(1)] by auto
  obtain t5 where t5: "queue_acts ops (repeat_acts k [Pop_element]) t4 = Some t5" "drift BASELINE 0 k 0 0 t5"
    using drift_pops [OF t4(2)] by auto
  obtain t6 where t6: "queue_acts ops (repeat_acts k [Add]) t5 = Some t6" "drift (BASELINE + word_of_nat k) 0 0 0 0 t6"
    using drift_adds [OF t5(2)] by auto
  have "queue_acts ops ([Sub, Pop_element] @ repeat_acts k [Sub] @ repeat_acts k [Push_element undefined] @
      repeat_acts k [Reset] @ repeat_acts k [Pop_element] @ repeat_acts k [Add])
      (race_on (new_with_counter ops)) = Some t6"
    by (simp only: queue_acts_append t1(1) t2(1) t3(1) t4(1) t5(1) t6(1) Option.bind.bind_lunit)
  with t6(2) show ?thesis by blast
qed

end

text \<open>
  C37: A reset while other calls are in progress can lose or invent elements in the count: for every
  \<open>k\<close> there is a schedule after which no call is in progress, the queue holds \<open>k\<close> elements and is reported
  empty; and for every positive \<open>k\<close> up to 999999 one after which no call is in progress, the
  queue is empty and is reported to hold \<open>k\<close>.
\<close>

theorem counter_drifts:
  assumes "fifo ops contents"
  shows "(\<exists>acts s. queue_acts ops acts (race_on (new_with_counter ops)) = Some s \<and> quiet s \<and>
      length (contents (lq_q (qr_queue s))) = k \<and> fst (lq_len (qr_queue s)) = Some 0 \<and> fst (lq_is_empty (qr_queue s))) \<and>
    (0 < k \<and> k \<le> 999999 \<longrightarrow>
     (\<exists>acts s. queue_acts ops acts (race_on (new_with_counter ops)) = Some s \<and> quiet s \<and>
      contents (lq_q (qr_queue s)) = [] \<and> fst (lq_len (qr_queue s)) = Some (word_of_nat k) \<and>
      \<not> fst (lq_is_empty (qr_queue s))))"
proof (intro conjI impI)
  obtain acts s where s: "queue_acts ops acts (race_on (new_with_counter ops)) = Some s"
    "drift_state contents BASELINE k 0 0 0 s" using fifo.drift_low [OF assms] by blast
  moreover from s(2) have "quiet s \<and> length (contents (lq_q (qr_queue s))) = k \<and>
      fst (lq_len (qr_queue s)) = Some 0 \<and> fst (lq_is_empty (qr_queue s))"
    by (simp add: drift_state_def quiet_def lq_len_def lq_is_empty_def)
  ultimately show "\<exists>acts s. queue_acts ops acts (race_on (new_with_counter ops)) = Some s \<and> quiet s \<and>
      length (contents (lq_q (qr_queue s))) = k \<and> fst (lq_len (qr_queue s)) = Some 0 \<and> fst (lq_is_empty (qr_queue s))"
    by blast
next
  assume k: "0 < k \<and> k \<le> 999999"
  then obtain acts s where s: "queue_acts ops acts (race_on (new_with_counter ops)) = Some s"
    "drift_state contents (BASELINE + word_of_nat k) 0 0 0 0 s" using fifo.drift_high [OF assms] by blast
  have n: "unat (word_of_nat k :: u64) = k" using k by (simp add: unat_of_nat)
  then have "unat (BASELINE + word_of_nat k) = 1000000 + k" using k by (simp add: BASELINE_def unat_word_ariths)
  then have "\<not> BASELINE + word_of_nat k < BASELINE" by (simp add: below_baseline)
  moreover have "word_of_nat k \<noteq> (0 :: u64)" using n k by auto
  ultimately have "quiet s \<and> contents (lq_q (qr_queue s)) = [] \<and>
      fst (lq_len (qr_queue s)) = Some (word_of_nat k) \<and> \<not> fst (lq_is_empty (qr_queue s))"
    using s(2) by (simp add: drift_state_def quiet_def lq_len_def lq_is_empty_def)
  with s(1) show "\<exists>acts s. queue_acts ops acts (race_on (new_with_counter ops)) = Some s \<and> quiet s \<and>
      contents (lq_q (qr_queue s)) = [] \<and> fst (lq_len (qr_queue s)) = Some (word_of_nat k) \<and>
      \<not> fst (lq_is_empty (qr_queue s))" by blast
qed

theorem counter_drifts_witness:
  "\<exists>acts s. queue_acts list_ops acts (race_on (new_with_counter list_ops)) = Some s \<and> quiet s \<and>
     lq_q (qr_queue s) = ([] :: nat list) \<and> fst (lq_len (qr_queue s)) = Some 5"
  using counter_drifts [OF list_queue.fifo_axioms, of 5] by auto

end
