(* ===== verification/Shard.thy ===== *)
theory Shard
  imports Queue
begin

text \<open>
  \<open>src/shard.rs\<close>: the deduplicating pipeline.  Readers pop keys off a shared queue and route
  each to the channel of its shard; one worker per shard calls \<open>on_key\<close> for the keys it sees
  first.  The shared queue (\<open>SegQueue\<close>), the channels and the hash function are other crates': they
  are parameters, queues under the contract \<open>fifo\<close> and any function.  A channel may refuse a key
  for a while (\<open>accepts\<close>), which blocks the sender.
\<close>

section \<open>Routing\<close>

definition BATCH :: nat where
  "BATCH = 256"

definition route :: "('k \<Rightarrow> u64) \<Rightarrow> 'k \<Rightarrow> u64 \<Rightarrow> u64 \<times> nat" where
  "route hash_of key n_shards =
     (let h = hash_of key in (h, unat (h mod n_shards)))"

section \<open>The threads\<close>

text \<open>
  Where a reader stands: filling its micro-batch, routing the rest of it, at the check of
  \<open>done\<close>, in the final drain, in the final drain with a key to send, or returned.
\<close>

datatype 'k reader =
    Filling "'k list"
  | Routing "'k list"
  | Checking
  | Draining
  | Sending 'k
  | Returned

text \<open>
  A worker is its set of seen keys; \<open>on_key_calls\<close> lists the calls of all workers and
  \<open>produced_keys\<close> what the producers pushed, for the statements.
\<close>

record ('k, 'q, 'c) pipeline =
  key_queue :: 'q
  producers_done :: bool
  readers :: "'k reader list"
  channels :: "'c list"
  seen_keys :: "'k set list"
  on_key_calls :: "(nat \<times> u64 \<times> 'k) list"
  produced_keys :: "'k set"

definition shard_dedup_pubkeys ::
    "('k, 'q) queue_ops \<Rightarrow> (u64 \<times> 'k, 'c) queue_ops \<Rightarrow> 'q \<Rightarrow> 'k set \<Rightarrow> nat \<Rightarrow> nat \<Rightarrow> ('k, 'q, 'c) pipeline exec" where
  "shard_dedup_pubkeys sq ch q pre n_shards n_readers = do {
     assert_that (1 \<le> n_shards);
     assert_that (1 \<le> n_readers);
     ret \<lparr>key_queue = q, producers_done = False, readers = replicate n_readers (Filling []),
       channels = replicate n_shards (op_new ch), seen_keys = replicate n_shards {},
       on_key_calls = [], produced_keys = pre\<rparr>
   }"

definition n_shards_of :: "('k, 'q, 'c) pipeline \<Rightarrow> u64" where
  "n_shards_of s = word_of_nat (length (channels s))"

text \<open>A blocking send of a key to its shard.\<close>

definition send_key ::
    "('k \<Rightarrow> u64) \<Rightarrow> (u64 \<times> 'k, 'c) queue_ops \<Rightarrow> 'k \<Rightarrow> ('k, 'q, 'c) pipeline \<Rightarrow> 'c list" where
  "send_key hash_of ch key s = (case route hash_of key (n_shards_of s) of
     (h, shard) \<Rightarrow> (channels s)[shard := op_push ch (h, key) (channels s ! shard)])"

definition receiver_accepts ::
    "('k \<Rightarrow> u64) \<Rightarrow> ('c \<Rightarrow> bool) \<Rightarrow> 'k \<Rightarrow> ('k, 'q, 'c) pipeline \<Rightarrow> bool" where
  "receiver_accepts hash_of accepts key s =
     accepts (channels s ! snd (route hash_of key (n_shards_of s)))"

text \<open>The body of a worker's loop for one received pair.\<close>

definition worker_body :: "nat \<Rightarrow> u64 \<times> 'k \<Rightarrow> ('k, 'q, 'c) pipeline \<Rightarrow> ('k, 'q, 'c) pipeline" where
  "worker_body shard_id m s = (case m of (h, key) \<Rightarrow>
     if key \<notin> seen_keys s ! shard_id
     then s\<lparr>seen_keys := (seen_keys s)[shard_id := insert key (seen_keys s ! shard_id)],
            on_key_calls := on_key_calls s @ [(shard_id, h, key)]\<rparr>
     else s)"

inductive pipeline_step ::
    "('k \<Rightarrow> u64) \<Rightarrow> ('k, 'q) queue_ops \<Rightarrow> (u64 \<times> 'k, 'c) queue_ops \<Rightarrow> ('c \<Rightarrow> bool) \<Rightarrow>
     ('k, 'q, 'c) pipeline \<Rightarrow> ('k, 'q, 'c) pipeline \<Rightarrow> bool"
  for hash_of sq ch accepts where
  produce: "\<not> producers_done s \<Longrightarrow>
     pipeline_step hash_of sq ch accepts s (s\<lparr>key_queue := op_push sq key (key_queue s),
       produced_keys := insert key (produced_keys s)\<rparr>)"
| finish: "pipeline_step hash_of sq ch accepts s (s\<lparr>producers_done := True\<rparr>)"
| fill: "i < length (readers s) \<Longrightarrow> readers s ! i = Filling b \<Longrightarrow> length b < BATCH \<Longrightarrow>
     op_pop sq (key_queue s) = (Some key, q) \<Longrightarrow>
     pipeline_step hash_of sq ch accepts s (s\<lparr>key_queue := q, readers := (readers s)[i := Filling (b @ [key])]\<rparr>)"
| fill_empty: "i < length (readers s) \<Longrightarrow> readers s ! i = Filling b \<Longrightarrow> length b < BATCH \<Longrightarrow>
     op_pop sq (key_queue s) = (None, q) \<Longrightarrow>
     pipeline_step hash_of sq ch accepts s (s\<lparr>key_queue := q, readers := (readers s)[i := Routing b]\<rparr>)"
| fill_full: "i < length (readers s) \<Longrightarrow> readers s ! i = Filling b \<Longrightarrow> BATCH \<le> length b \<Longrightarrow>
     pipeline_step hash_of sq ch accepts s (s\<lparr>readers := (readers s)[i := Routing b]\<rparr>)"
| route_one: "i < length (readers s) \<Longrightarrow> readers s ! i = Routing (key # b) \<Longrightarrow>
     receiver_accepts hash_of accepts key s \<Longrightarrow>
     pipeline_step hash_of sq ch accepts s (s\<lparr>channels := send_key hash_of ch key s,
       readers := (readers s)[i := Routing b]\<rparr>)"
| route_end: "i < length (readers s) \<Longrightarrow> readers s ! i = Routing [] \<Longrightarrow>
     pipeline_step hash_of sq ch accepts s (s\<lparr>readers := (readers s)[i := Checking]\<rparr>)"
| check: "i < length (readers s) \<Longrightarrow> readers s ! i = Checking \<Longrightarrow>
     pipeline_step hash_of sq ch accepts s
       (s\<lparr>readers := (readers s)[i := (if producers_done s then Draining else Filling [])]\<rparr>)"
| drain: "i < length (readers s) \<Longrightarrow> readers s ! i = Draining \<Longrightarrow>
     op_pop sq (key_queue s) = (Some key, q) \<Longrightarrow>
     pipeline_step hash_of sq ch accepts s (s\<lparr>key_queue := q, readers := (readers s)[i := Sending key]\<rparr>)"
| drain_send: "i < length (readers s) \<Longrightarrow> readers s ! i = Sending key \<Longrightarrow>
     receiver_accepts hash_of accepts key s \<Longrightarrow>
     pipeline_step hash_of sq ch accepts s (s\<lparr>channels := send_key hash_of ch key s,
       readers := (readers s)[i := Draining]\<rparr>)"
| drain_end: "i < length (readers s) \<Longrightarrow> readers s ! i = Draining \<Longrightarrow>
     op_pop sq (key_queue s) = (None, q) \<Longrightarrow>
     pipeline_step hash_of sq ch accepts s (s\<lparr>key_queue := q, readers := (readers s)[i := Returned]\<rparr>)"
| work: "w < length (channels s) \<Longrightarrow> op_pop ch (channels s ! w) = (Some m, c) \<Longrightarrow>
     pipeline_step hash_of sq ch accepts s (worker_body w m (s\<lparr>channels := (channels s)[w := c]\<rparr>))"

text \<open>
  The completion value is sent once the readers have returned and the workers have emptied
  their closed channels.
\<close>

definition completed :: "('c \<Rightarrow> (u64 \<times> 'k) list) \<Rightarrow> ('k, 'q, 'c) pipeline \<Rightarrow> bool" where
  "completed contents s \<longleftrightarrow> (\<forall>r \<in> set (readers s). r = Returned) \<and>
     (\<forall>c \<in> set (channels s). contents c = [])"

section \<open>The invariant\<close>

fun reader_keys :: "'k reader \<Rightarrow> 'k set" where
  "reader_keys (Filling b) = set b"
| "reader_keys (Routing b) = set b"
| "reader_keys (Sending k) = {k}"
| "reader_keys _ = {}"

fun past_check :: "'k reader \<Rightarrow> bool" where
  "past_check Draining = True"
| "past_check (Sending _) = True"
| "past_check Returned = True"
| "past_check _ = False"

lemma route_less: "0 < n \<Longrightarrow> n < 2 ^ 64 \<Longrightarrow> snd (route hash_of k (word_of_nat n)) < n"
proof -
  assume n: "0 < n" "n < (2 :: nat) ^ 64"
  then have "(word_of_nat n :: u64) \<noteq> 0" by (simp add: word_unat_eq_iff unat_of_nat)
  then have "unat (hash_of k mod word_of_nat n) < unat (word_of_nat n :: u64)"
    by (simp add: unat_mod_distrib unat_gt_0)
  with n show ?thesis by (simp add: route_def unat_of_nat Let_def)
qed

definition all_of :: "('a \<Rightarrow> 'k set) \<Rightarrow> 'a list \<Rightarrow> 'k set" where
  "all_of f xs = (\<Union>x \<in> set xs. f x)"

lemma all_of_update:
  assumes "i < length xs"
  shows "all_of f (xs[i := y]) \<union> f (xs ! i) = all_of f xs \<union> f y"
proof -
  have "all_of f xs = all_of f (take i xs) \<union> f (xs ! i) \<union> all_of f (drop (Suc i) xs)"
    by (subst id_take_nth_drop [OF assms]) (auto simp: all_of_def)
  then show ?thesis by (auto simp: upd_conv_take_nth_drop [OF assms] all_of_def)
qed

lemma all_of_member: "i < length xs \<Longrightarrow> f (xs ! i) \<subseteq> all_of f xs"
  unfolding all_of_def by (rule UN_upper) simp

lemma all_of_insert:
  assumes "i < length xs" and "f y = insert k (f (xs ! i))"
  shows "all_of f (xs[i := y]) = insert k (all_of f xs)"
  using all_of_update [OF assms(1), of f y] all_of_member [OF assms(1), of f]
    all_of_member [of i "xs[i := y]" f] assms
  by auto

lemma all_of_remove:
  assumes "i < length xs" and "f (xs ! i) = insert k (f y)"
  shows "insert k (all_of f (xs[i := y])) = all_of f xs"
  using all_of_update [OF assms(1), of f y] all_of_member [OF assms(1), of f]
    all_of_member [of i "xs[i := y]" f] assms
  by auto

lemma all_of_same:
  assumes "i < length xs" and "f (xs ! i) = f y"
  shows "all_of f (xs[i := y]) = all_of f xs"
  using all_of_update [OF assms(1), of f y] all_of_member [OF assms(1), of f]
    all_of_member [of i "xs[i := y]" f] assms
  by auto

definition chan_keys :: "('c \<Rightarrow> (u64 \<times> 'k) list) \<Rightarrow> 'c \<Rightarrow> 'k set" where
  "chan_keys cc c = snd ` set (cc c)"

text \<open>Every key the producers pushed is somewhere, and nothing else is.\<close>

definition keys_kept ::
    "('q \<Rightarrow> 'k list) \<Rightarrow> ('c \<Rightarrow> (u64 \<times> 'k) list) \<Rightarrow> ('k, 'q, 'c) pipeline \<Rightarrow> bool" where
  "keys_kept qc cc s \<longleftrightarrow> produced_keys s = set (qc (key_queue s)) \<union>
     all_of reader_keys (readers s) \<union> all_of (chan_keys cc) (channels s) \<union> all_of id (seen_keys s)"

definition threads_ok :: "('q \<Rightarrow> 'k list) \<Rightarrow> ('k, 'q, 'c) pipeline \<Rightarrow> bool" where
  "threads_ok qc s \<longleftrightarrow> readers s \<noteq> [] \<and> channels s \<noteq> [] \<and> length (channels s) < 2 ^ 64 \<and>
     length (seen_keys s) = length (channels s) \<and>
     (\<forall>r \<in> set (readers s). past_check r \<longrightarrow> producers_done s) \<and>
     (Returned \<in> set (readers s) \<longrightarrow> qc (key_queue s) = [])"

definition routed :: "('k \<Rightarrow> u64) \<Rightarrow> ('c \<Rightarrow> (u64 \<times> 'k) list) \<Rightarrow> ('k, 'q, 'c) pipeline \<Rightarrow> bool" where
  "routed hash_of cc s \<longleftrightarrow> (\<forall>w < length (channels s). \<forall>m \<in> set (cc (channels s ! w)).
     route hash_of (snd m) (n_shards_of s) = (fst m, w))"

definition called :: "('k \<Rightarrow> u64) \<Rightarrow> ('k, 'q, 'c) pipeline \<Rightarrow> bool" where
  "called hash_of s \<longleftrightarrow> distinct (map (snd \<circ> snd) (on_key_calls s)) \<and>
     (\<forall>(w, h, k) \<in> set (on_key_calls s). w < length (channels s) \<and> route hash_of k (n_shards_of s) = (h, w)) \<and>
     (\<forall>w < length (seen_keys s). seen_keys s ! w = {k. \<exists>h. (w, h, k) \<in> set (on_key_calls s)})"

lemma threads_past:
  "threads_ok qc s \<Longrightarrow> i < length (readers s) \<Longrightarrow> past_check (readers s ! i) \<Longrightarrow> producers_done s"
  by (auto simp: threads_ok_def)

lemma channels_worker_body [simp]: "channels (worker_body w m s) = channels s"
  by (simp add: worker_body_def split_beta)

text \<open>The two queues of the pipeline, under their contracts.\<close>

locale pipeline_queues = sq: fifo sq qc + ch: fifo ch cc
  for sq :: "('k, 'q) queue_ops" and qc and ch :: "(u64 \<times> 'k, 'c) queue_ops" and cc
begin

lemma pops:
  "op_pop sq q = (Some k, q') \<Longrightarrow> qc q = k # qc q'"
  "op_pop sq q = (None, q') \<Longrightarrow> qc q = [] \<and> qc q' = []"
  "op_pop ch c = (Some m, c') \<Longrightarrow> cc c = m # cc c'"
  by (fact sq.popped ch.popped)+

lemma threads_ok_step:
  "pipeline_step hash_of sq ch accepts s s' \<Longrightarrow> threads_ok qc s \<Longrightarrow> threads_ok qc s'"
proof (induction rule: pipeline_step.induct)
  case (drain i s key q)
  then have "producers_done s" by (auto intro: threads_past)
  with drain pops(1) [OF drain(3)] show ?case by (auto simp: threads_ok_def dest!: update_members)
next
  case (drain_send i s key)
  then have "producers_done s" by (auto intro: threads_past)
  with drain_send show ?case by (auto simp: threads_ok_def send_key_def split_beta dest!: update_members)
next
  case (drain_end i s q)
  then have "producers_done s" by (auto intro: threads_past)
  with drain_end pops(2) [OF drain_end(3)] show ?case by (auto simp: threads_ok_def dest!: update_members)
next
  case (fill i s b key q)
  then show ?case using pops(1) [OF fill(4)] by (auto simp: threads_ok_def dest!: update_members)
next
  case (fill_empty i s b q)
  then show ?case using pops(2) [OF fill_empty(4)] by (auto simp: threads_ok_def dest!: update_members)
next
  case (produce s key)
  then show ?case by (force simp: threads_ok_def)
qed (auto simp: threads_ok_def send_key_def worker_body_def split_beta dest!: update_members split: if_splits)

lemma length_channels_step:
  "pipeline_step hash_of sq ch accepts s s' \<Longrightarrow> length (channels s') = length (channels s)"
  by (induction rule: pipeline_step.induct) (auto simp: send_key_def worker_body_def split_beta)

lemma send_contents:
  assumes "threads_ok qc s" and "w < length (channels s)"
  shows "cc (send_key hash_of ch key s ! w) = cc (channels s ! w) @
    (if w = snd (route hash_of key (n_shards_of s)) then [(fst (route hash_of key (n_shards_of s)), key)] else [])"
  using assms(2) by (auto simp: send_key_def split_beta ch.contents_push)

lemma send_routed:
  assumes "threads_ok qc s" and "routed hash_of cc s" and "channels s' = send_key hash_of ch key s"
  shows "routed hash_of cc s'"
proof -
  have "length (channels s') = length (channels s)" by (simp add: assms(3) send_key_def split_beta)
  with assms send_contents [OF assms(1)] show ?thesis
    by (auto simp: routed_def n_shards_of_def split: if_splits)
qed

lemma received_routed:
  assumes "routed hash_of cc s" and "w < length (channels s)"
    and "op_pop ch (channels s ! w) = (Some m, c)" and "channels s' = (channels s)[w := c]"
  shows "routed hash_of cc s'"
  using assms(1,2,4) pops(3) [OF assms(3)]
  by (auto simp: routed_def n_shards_of_def nth_list_update split: if_splits)

lemma routed_step:
  "pipeline_step hash_of sq ch accepts s s' \<Longrightarrow> threads_ok qc s \<Longrightarrow> routed hash_of cc s \<Longrightarrow> routed hash_of cc s'"
proof (induction rule: pipeline_step.induct)
  case (work w s m c)
  show ?case by (rule received_routed [OF work(4,1,2)]) simp
qed (simp_all add: send_routed, simp_all add: routed_def n_shards_of_def)

lemma work_called:
  assumes "called hash_of s" and "threads_ok qc s" and "w < length (channels s)"
    and "route hash_of (snd m) (n_shards_of s) = (fst m, w)"
  shows "called hash_of (worker_body w m s)"
proof (cases "snd m \<in> seen_keys s ! w")
  case True
  then show ?thesis using assms(1) by (simp add: worker_body_def split_beta)
next
  case False
  have "snd m \<notin> (snd \<circ> snd) ` set (on_key_calls s)"
  proof
    assume "snd m \<in> (snd \<circ> snd) ` set (on_key_calls s)"
    then obtain w' h where c: "(w', h, snd m) \<in> set (on_key_calls s)" by force
    then have "w' = w" using assms(1,4) by (force simp: called_def)
    with c False assms show False by (auto simp: called_def threads_ok_def)
  qed
  with False assms show ?thesis
    by (cases m) (auto simp: worker_body_def called_def threads_ok_def n_shards_of_def nth_list_update)
qed

lemma called_step:
  "pipeline_step hash_of sq ch accepts s s' \<Longrightarrow> threads_ok qc s \<Longrightarrow> routed hash_of cc s \<Longrightarrow>
   called hash_of s \<Longrightarrow> called hash_of s'"
proof (induction rule: pipeline_step.induct)
  case (work w s m c)
  let ?s = "s\<lparr>channels := (channels s)[w := c]\<rparr>"
  have "route hash_of (snd m) (n_shards_of ?s) = (fst m, w)"
    using work(1,4) pops(3) [OF work(2)] by (simp add: routed_def n_shards_of_def)
  moreover have "called hash_of ?s" "threads_ok qc ?s"
    using work by (simp_all add: called_def threads_ok_def n_shards_of_def)
  ultimately show ?case using work_called [of hash_of ?s w m] work(1) by simp
qed (simp_all add: called_def n_shards_of_def send_key_def split_beta)

lemma chan_pop_keys:
  "op_pop ch c = (Some m, c') \<Longrightarrow> chan_keys cc c = insert (snd m) (chan_keys cc c')"
  using pops(3) [of c m c'] by (simp add: chan_keys_def)

lemma chan_push_keys: "chan_keys cc (op_push ch (h, k) c) = insert k (chan_keys cc c)"
  by (simp add: chan_keys_def ch.contents_push)

lemma send_keys:
  assumes "threads_ok qc s"
  shows "all_of (chan_keys cc) (send_key hash_of ch key s) = insert key (all_of (chan_keys cc) (channels s))"
proof -
  let ?w = "snd (route hash_of key (n_shards_of s))"
  have w: "?w < length (channels s)"
    using assms route_less [of "length (channels s)" hash_of key] by (simp add: threads_ok_def n_shards_of_def)
  show ?thesis
    unfolding send_key_def split_beta by (rule all_of_insert [OF w]) (rule chan_push_keys)
qed

lemma worker_body_kept:
  assumes "keys_kept qc cc s" and "threads_ok qc s" and w: "w < length (channels s)"
    and pop: "op_pop ch (channels s ! w) = (Some m, c)"
  shows "keys_kept qc cc (worker_body w m (s\<lparr>channels := (channels s)[w := c]\<rparr>))"
proof -
  have chans: "insert (snd m) (all_of (chan_keys cc) ((channels s)[w := c])) = all_of (chan_keys cc) (channels s)"
    by (rule all_of_remove [OF w chan_pop_keys [OF pop]])
  have w': "w < length (seen_keys s)" using w assms(2) by (simp add: threads_ok_def)
  have new: "all_of id ((seen_keys s)[w := insert (snd m) (seen_keys s ! w)]) = insert (snd m) (all_of id (seen_keys s))"
    by (rule all_of_insert [OF w']) simp
  have old: "snd m \<in> all_of id (seen_keys s)" if "snd m \<in> seen_keys s ! w"
    using that all_of_member [OF w', of id] by auto
  show ?thesis
    using assms(1) new old
    by (cases "snd m \<in> seen_keys s ! w")
       (auto simp: keys_kept_def worker_body_def split_beta chans [symmetric])
qed

lemma keys_kept_step:
  "pipeline_step hash_of sq ch accepts s s' \<Longrightarrow> threads_ok qc s \<Longrightarrow> keys_kept qc cc s \<Longrightarrow> keys_kept qc cc s'"
proof (induction rule: pipeline_step.induct)
  case (produce s key)
  then show ?case by (auto simp: keys_kept_def sq.contents_push)
next
  case (finish s)
  then show ?case by (simp add: keys_kept_def)
next
  case (fill i s b key q)
  have "all_of reader_keys ((readers s)[i := Filling (b @ [key])]) = insert key (all_of reader_keys (readers s))"
    by (rule all_of_insert [OF fill(1)]) (simp add: fill(2))
  then show ?case using fill pops(1) [OF fill(4)] by (auto simp: keys_kept_def)
next
  case (fill_empty i s b q)
  have "all_of reader_keys ((readers s)[i := Routing b]) = all_of reader_keys (readers s)"
    by (rule all_of_same [OF fill_empty(1)]) (simp add: fill_empty(2))
  then show ?case using fill_empty pops(2) [OF fill_empty(4)] by (simp add: keys_kept_def)
next
  case (fill_full i s b)
  have "all_of reader_keys ((readers s)[i := Routing b]) = all_of reader_keys (readers s)"
    by (rule all_of_same [OF fill_full(1)]) (simp add: fill_full(2))
  then show ?case using fill_full by (simp add: keys_kept_def)
next
  case (route_one i s key b)
  have "insert key (all_of reader_keys ((readers s)[i := Routing b])) = all_of reader_keys (readers s)"
    by (rule all_of_remove [OF route_one(1)]) (simp add: route_one(2))
  then show ?case using route_one by (auto simp: keys_kept_def send_keys)
next
  case (route_end i s)
  have "all_of reader_keys ((readers s)[i := Checking]) = all_of reader_keys (readers s)"
    by (rule all_of_same [OF route_end(1)]) (simp add: route_end(2))
  then show ?case using route_end by (simp add: keys_kept_def)
next
  case (check i s)
  have "all_of reader_keys ((readers s)[i := (if producers_done s then Draining else Filling [])]) =
      all_of reader_keys (readers s)"
    by (rule all_of_same [OF check(1)]) (simp add: check(2))
  then show ?case using check by (simp add: keys_kept_def)
next
  case (drain i s key q)
  have "all_of reader_keys ((readers s)[i := Sending key]) = insert key (all_of reader_keys (readers s))"
    by (rule all_of_insert [OF drain(1)]) (simp add: drain(2))
  then show ?case using drain pops(1) [OF drain(3)] by (auto simp: keys_kept_def)
next
  case (drain_send i s key)
  have "insert key (all_of reader_keys ((readers s)[i := Draining])) = all_of reader_keys (readers s)"
    by (rule all_of_remove [OF drain_send(1)]) (simp add: drain_send(2))
  then show ?case using drain_send by (auto simp: keys_kept_def send_keys)
next
  case (drain_end i s q)
  have "all_of reader_keys ((readers s)[i := Returned]) = all_of reader_keys (readers s)"
    by (rule all_of_same [OF drain_end(1)]) (simp add: drain_end(2))
  then show ?case using drain_end pops(2) [OF drain_end(3)] by (simp add: keys_kept_def)
next
  case (work w s m c)
  then show ?case by (intro worker_body_kept)
qed

lemma pipeline_reach:
  assumes "shard_dedup_pubkeys sq ch q (set (qc q)) n_shards n_readers = Some s0"
    and "n_shards < 2 ^ 64" and "reach (\<lambda>s. s = s0) (pipeline_step hash_of sq ch accepts) s"
  shows "threads_ok qc s \<and> routed hash_of cc s \<and> called hash_of s \<and> keys_kept qc cc s"
  using assms(3)
proof (induction rule: reach.induct)
  case (reach_init s)
  then show ?case using assms(1,2)
    by (auto simp: shard_dedup_pubkeys_def Option.bind_eq_Some_conv threads_ok_def routed_def called_def
        keys_kept_def all_of_def chan_keys_def ch.contents_new)
next
  case (reach_step s t)
  then show ?case
    using threads_ok_step routed_step called_step keys_kept_step by metis
qed

end

section \<open>Completion\<close>

text \<open>
  What the threads still have to do once \<open>done\<close> is set: every step but a repeated \<open>finish\<close>
  takes some of it away.
\<close>

fun reader_work :: "'k reader \<Rightarrow> nat" where
  "reader_work (Filling b) = 5 + 3 * length b"
| "reader_work (Routing b) = 4 + 3 * length b"
| "reader_work Checking = 3"
| "reader_work Draining = 1"
| "reader_work (Sending k) = 3"
| "reader_work Returned = 0"

definition pipeline_work ::
    "('q \<Rightarrow> 'k list) \<Rightarrow> ('c \<Rightarrow> (u64 \<times> 'k) list) \<Rightarrow> ('k, 'q, 'c) pipeline \<Rightarrow> nat" where
  "pipeline_work qc cc s = 4 * length (qc (key_queue s)) + sum_list (map reader_work (readers s)) +
     sum_list (map (length \<circ> cc) (channels s))"

text \<open>The key a reader is about to send.\<close>

fun to_send :: "'k reader \<Rightarrow> 'k option" where
  "to_send (Routing (key # b)) = Some key"
| "to_send (Sending key) = Some key"
| "to_send _ = None"

definition progress_step ::
    "('k \<Rightarrow> u64) \<Rightarrow> ('k, 'q) queue_ops \<Rightarrow> (u64 \<times> 'k, 'c) queue_ops \<Rightarrow> ('c \<Rightarrow> bool) \<Rightarrow>
     ('k, 'q, 'c) pipeline \<Rightarrow> ('k, 'q, 'c) pipeline \<Rightarrow> bool" where
  "progress_step hash_of sq ch accepts s t \<longleftrightarrow> pipeline_step hash_of sq ch accepts s t \<and> t \<noteq> s"

lemma sum_list_map_update:
  "i < length xs \<Longrightarrow> sum_list (map f (xs[i := y])) + f (xs ! i) = sum_list (map f xs) + (f y :: nat)"
  using member_le_sum_list [of "map f xs ! i" "map f xs"]
  by (simp add: map_update sum_list_update)

context pipeline_queues
begin

lemma send_work:
  assumes "threads_ok qc s"
  shows "sum_list (map (length \<circ> cc) (send_key hash_of ch key s)) = Suc (sum_list (map (length \<circ> cc) (channels s)))"
proof -
  have w: "snd (route hash_of key (n_shards_of s)) < length (channels s)"
    using assms route_less [of "length (channels s)" hash_of key] by (simp add: threads_ok_def n_shards_of_def)
  from sum_list_map_update [OF w, of "length \<circ> cc" "op_push ch (fst (route hash_of key (n_shards_of s)), key)
      (channels s ! snd (route hash_of key (n_shards_of s)))"] show ?thesis
    by (simp add: send_key_def split_beta ch.contents_push)
qed

lemma work_decreases:
  assumes "pipeline_step hash_of sq ch accepts s t" and "threads_ok qc s" and "producers_done s"
  shows "producers_done t \<and> (t = s \<or> pipeline_work qc cc t < pipeline_work qc cc s)"
  using assms
proof (induction rule: pipeline_step.induct)
  case (fill i s b key q)
  then show ?case using pops(1) [OF fill(4)] sum_list_map_update [OF fill(1), of reader_work "Filling (b @ [key])"]
    by (simp add: pipeline_work_def)
next
  case (fill_empty i s b q)
  then show ?case using pops(2) [OF fill_empty(4)] sum_list_map_update [OF fill_empty(1), of reader_work "Routing b"]
    by (simp add: pipeline_work_def)
next
  case (fill_full i s b)
  then show ?case using sum_list_map_update [OF fill_full(1), of reader_work "Routing b"]
    by (simp add: pipeline_work_def)
next
  case (route_one i s key b)
  then show ?case using sum_list_map_update [OF route_one(1), of reader_work "Routing b"]
    by (simp add: pipeline_work_def send_work)
next
  case (route_end i s)
  then show ?case using sum_list_map_update [OF route_end(1), of reader_work Checking]
    by (simp add: pipeline_work_def)
next
  case (check i s)
  then show ?case using sum_list_map_update [OF check(1), of reader_work Draining]
    by (simp add: pipeline_work_def)
next
  case (drain i s key q)
  then show ?case using pops(1) [OF drain(3)] sum_list_map_update [OF drain(1), of reader_work "Sending key"]
    by (simp add: pipeline_work_def)
next
  case (drain_send i s key)
  then show ?case using sum_list_map_update [OF drain_send(1), of reader_work Draining]
    by (simp add: pipeline_work_def send_work)
next
  case (drain_end i s q)
  then show ?case using pops(2) [OF drain_end(3)] sum_list_map_update [OF drain_end(1), of reader_work Returned]
    by (simp add: pipeline_work_def)
next
  case (work w s m c)
  then show ?case using pops(3) [OF work(2)] sum_list_map_update [OF work(1), of "length \<circ> cc" c]
    by (simp add: pipeline_work_def worker_body_def split_beta)
qed simp_all

lemma threads_ok_reader: "threads_ok qc s \<Longrightarrow> 0 < length (channels s)"
  by (simp add: threads_ok_def)

lemma can_pop: "\<exists>x q'. op_pop sq q = (x, q')"
  by (cases "op_pop sq q") auto

text \<open>Some thread can move until the completion value is due.\<close>

lemma worker_can_move:
  assumes "w < length (channels s)" and "cc (channels s ! w) \<noteq> []" and "producers_done s"
  shows "\<exists>t. pipeline_step hash_of sq ch accepts s t \<and> pipeline_work qc cc t < pipeline_work qc cc s"
proof -
  obtain m c where pop: "op_pop ch (channels s ! w) = (Some m, c)"
    using ch.pop_value [of "channels s ! w"] assms(2)
    by (cases "op_pop ch (channels s ! w)") (auto split: list.splits)
  from pops(3) [OF pop] sum_list_map_update [OF assms(1), of "length \<circ> cc" c]
  have "pipeline_work qc cc (worker_body w m (s\<lparr>channels := (channels s)[w := c]\<rparr>)) < pipeline_work qc cc s"
    by (simp add: pipeline_work_def worker_body_def split_beta)
  with work [OF assms(1) pop] show ?thesis by blast
qed

text \<open>A reader with a key to send sends it if it may; every other one moves by itself.\<close>

lemma quiet_reader_moves:
  assumes "threads_ok qc s" and "producers_done s" and i: "i < length (readers s)"
    and "readers s ! i \<noteq> Returned" and "to_send (readers s ! i) = None"
  shows "\<exists>t. pipeline_step hash_of sq ch accepts s t \<and> pipeline_work qc cc t < pipeline_work qc cc s \<and>
    channels t = channels s"
proof -
  note upd = sum_list_map_update [OF i, of reader_work]
  obtain x q where pop: "op_pop sq (key_queue s) = (x, q)" using can_pop by blast
  have "\<exists>t. pipeline_step hash_of sq ch accepts s t \<and> pipeline_work qc cc t \<noteq> pipeline_work qc cc s \<and>
      channels t = channels s"
  proof (cases "readers s ! i")
    case (Filling b)
    show ?thesis
    proof (cases "BATCH \<le> length b")
      case True
      then show ?thesis using i Filling fill_full [of i s b] upd [of "Routing b"]
        by (intro exI conjI, fast) (simp_all add: pipeline_work_def)
    next
      case False
      then have lt: "length b < BATCH" by simp
      show ?thesis
      proof (cases x)
        case None
        then show ?thesis using i Filling lt pop fill_empty [of i s b sq q] pops(2) [of "key_queue s" q] upd [of "Routing b"]
          by (intro exI conjI, fast) (simp_all add: pipeline_work_def)
      next
        case (Some key)
        then show ?thesis using i Filling lt pop fill [of i s b sq key q] pops(1) [of "key_queue s" key q] upd [of "Filling (b @ [key])"]
          by (intro exI conjI, fast) (simp_all add: pipeline_work_def)
      qed
    qed
  next
    case (Routing b)
    then have "b = []" using assms(5) by (cases b) simp_all
    then show ?thesis using i Routing route_end [of i s] upd [of Checking]
      by (intro exI conjI, fast) (simp_all add: pipeline_work_def)
  next
    case Checking
    then show ?thesis using i assms(2) check [of i s] upd [of Draining]
      by (intro exI conjI, fast) (simp_all add: pipeline_work_def)
  next
    case Draining
    show ?thesis
    proof (cases x)
      case None
      then show ?thesis using i Draining pop drain_end [of i s sq q] pops(2) [of "key_queue s" q] upd [of Returned]
        by (intro exI conjI, fast) (simp_all add: pipeline_work_def)
    next
      case (Some key)
      then show ?thesis using i Draining pop drain [of i s sq key q] pops(1) [of "key_queue s" key q] upd [of "Sending key"]
        by (intro exI conjI, fast) (simp_all add: pipeline_work_def)
    qed
  qed (use assms(4,5) in simp_all)
  then show ?thesis using work_decreases [OF _ assms(1,2)] by fastforce
qed

lemma sending_reader_moves:
  assumes "threads_ok qc s" and "producers_done s" and i: "i < length (readers s)"
    and "to_send (readers s ! i) = Some key" and "receiver_accepts hash_of accepts key s"
  shows "\<exists>t. pipeline_step hash_of sq ch accepts s t \<and> pipeline_work qc cc t < pipeline_work qc cc s \<and>
    channels t = send_key hash_of ch key s"
proof -
  note upd = sum_list_map_update [OF i, of reader_work]
  from assms(4) consider b where "readers s ! i = Routing (key # b)" | "readers s ! i = Sending key"
    by (cases "readers s ! i" rule: to_send.cases) auto
  then show ?thesis
  proof cases
    case (1 b)
    then show ?thesis using route_one [OF i 1 assms(5), of sq ch] upd [of "Routing b"] assms(1)
      by (intro exI conjI, fast) (simp_all add: pipeline_work_def send_work)
  next
    case 2
    then show ?thesis using drain_send [OF i 2 assms(5), of sq ch] upd [of Draining] assms(1)
      by (intro exI conjI, fast) (simp_all add: pipeline_work_def send_work)
  qed
qed

lemma reader_can_move:
  assumes "threads_ok qc s" and "producers_done s" and "r \<in> set (readers s)" and "r \<noteq> Returned"
    and open_: "\<And>key. receiver_accepts hash_of accepts key s"
  shows "\<exists>t. pipeline_step hash_of sq ch accepts s t \<and> pipeline_work qc cc t < pipeline_work qc cc s"
proof -
  obtain i where i: "i < length (readers s)" "readers s ! i = r"
    using assms(3) by (auto simp: in_set_conv_nth)
  show ?thesis
    using quiet_reader_moves [OF assms(1,2) i(1)] sending_reader_moves [OF assms(1,2) i(1) _ open_] i(2) assms(4)
    by (cases "to_send r") blast+
qed

lemma can_move:
  assumes "threads_ok qc s" and "producers_done s" and "\<not> completed cc s"
    and full: "\<And>c. \<not> accepts c \<Longrightarrow> cc c \<noteq> []"
  shows "\<exists>t. progress_step hash_of sq ch accepts s t"
proof -
  have "\<exists>t. pipeline_step hash_of sq ch accepts s t \<and> pipeline_work qc cc t < pipeline_work qc cc s"
  proof (cases "\<exists>w < length (channels s). cc (channels s ! w) \<noteq> []")
    case True
    then show ?thesis using worker_can_move assms(2) by blast
  next
    case False
    have "receiver_accepts hash_of accepts key s" for key
      using False full assms(1) route_less [of "length (channels s)" hash_of key]
      by (auto simp: receiver_accepts_def threads_ok_def n_shards_of_def)
    moreover obtain r where "r \<in> set (readers s)" "r \<noteq> Returned"
      using assms(3) False by (auto simp: completed_def in_set_conv_nth)
    ultimately show ?thesis using reader_can_move [OF assms(1,2)] by blast
  qed
  then show ?thesis by (auto simp: progress_step_def)
qed

lemma run_work:
  assumes "(progress_step hash_of sq ch accepts ^^ n) s t" and "threads_ok qc s" and "producers_done s"
  shows "n + pipeline_work qc cc t \<le> pipeline_work qc cc s \<and> threads_ok qc t \<and> producers_done t"
  using assms(1)
proof (induction n arbitrary: t)
  case (Suc n)
  then obtain u where u: "(progress_step hash_of sq ch accepts ^^ n) s u" "progress_step hash_of sq ch accepts u t" by auto
  with Suc.IH [OF u(1)] work_decreases [of hash_of accepts u t] threads_ok_step [of hash_of accepts u t] show ?case
    by (auto simp: progress_step_def)
qed (simp add: assms)

lemma completion_reachable:
  assumes "threads_ok qc s" and "producers_done s" and full: "\<And>c. \<not> accepts c \<Longrightarrow> cc c \<noteq> []"
  shows "\<exists>n t. (progress_step hash_of sq ch accepts ^^ n) s t \<and> completed cc t"
  using assms(1,2)
proof (induction "pipeline_work qc cc s" arbitrary: s rule: less_induct)
  case less
  show ?case
  proof (cases "completed cc s")
    case True
    then show ?thesis by (intro exI [of _ 0]) auto
  next
    case False
    from can_move [OF less.prems False full] obtain t where t: "progress_step hash_of sq ch accepts s t" by blast
    then have "(progress_step hash_of sq ch accepts ^^ 1) s t" by (simp only: relpowp_1)
    from run_work [OF this less.prems] less.hyps [of t] obtain n u
      where u: "(progress_step hash_of sq ch accepts ^^ n) t u" "completed cc u" by auto
    with relpowp_Suc_I2 [of "progress_step hash_of sq ch accepts", OF t u(1)] show ?thesis by blast
  qed
qed

end

text \<open>When the threads are through, every key has been given to \<open>on_key\<close>.\<close>

lemma all_keys_called:
  assumes "threads_ok qc s" and "called hash_of s" and "keys_kept qc cc s" and "completed cc s"
  shows "(snd \<circ> snd) ` set (on_key_calls s) = produced_keys s \<and> qc (key_queue s) = [] \<and> producers_done s"
proof -
  note inv = assms(1-3)
  obtain r where r: "r \<in> set (readers s)" using inv by (cases "readers s") (auto simp: threads_ok_def)
  then have ret: "Returned \<in> set (readers s)" using assms(4) by (auto simp: completed_def)
  then have empty: "qc (key_queue s) = []" and "producers_done s"
    using inv by (force simp: threads_ok_def)+
  have "all_of reader_keys (readers s) = {}" "all_of (chan_keys cc) (channels s) = {}"
    using assms(4) by (auto simp: completed_def all_of_def chan_keys_def)
  then have "produced_keys s = all_of id (seen_keys s)" using inv empty by (simp add: keys_kept_def)
  also have "\<dots> = (snd \<circ> snd) ` set (on_key_calls s)"
  proof (intro equalityI subsetI)
    fix k assume "k \<in> all_of id (seen_keys s)"
    then obtain w where "w < length (seen_keys s)" "k \<in> seen_keys s ! w"
      by (auto simp: all_of_def in_set_conv_nth)
    then show "k \<in> (snd \<circ> snd) ` set (on_key_calls s)" using inv by (force simp: called_def)
  next
    fix k assume "k \<in> (snd \<circ> snd) ` set (on_key_calls s)"
    then obtain w h where c: "(w, h, k) \<in> set (on_key_calls s)" by force
    then have w: "w < length (seen_keys s)" using inv by (auto simp: called_def threads_ok_def)
    then have "k \<in> seen_keys s ! w" using inv c by (auto simp: called_def)
    then show "k \<in> all_of id (seen_keys s)" using all_of_member [OF w, of id] by auto
  qed
  finally show ?thesis using empty \<open>producers_done s\<close> by simp
qed

section \<open>Runs\<close>

text \<open>The contract holds of a \<open>LocklessQueue\<close> feeding list channels.\<close>

interpretation lockless_pipeline: pipeline_queues "lockless_ops list_ops" lq_q list_ops "\<lambda>c. c"
  by (rule pipeline_queues.intro [OF lockless.fifo_axioms list_queue.fifo_axioms])

text \<open>A complete run: one key, two shards, one reader.\<close>

lemma sample_run:
  "\<exists>s0 s. shard_dedup_pubkeys list_ops list_ops [7 :: nat] {7} 2 1 = Some s0 \<and>
     reach (\<lambda>s. s = s0) (pipeline_step (\<lambda>_. 5) list_ops list_ops (\<lambda>_. True)) s \<and>
     completed (\<lambda>c. c) s \<and> on_key_calls s = [(1, 5, 7)]"
proof -
  let ?s0 = "\<lparr>key_queue = [7 :: nat], producers_done = False, readers = [Filling []],
      channels = [[], []], seen_keys = [{}, {}], on_key_calls = [], produced_keys = {7}\<rparr>"
  let ?R = "reach (\<lambda>s. s = ?s0) (pipeline_step (\<lambda>_. 5) list_ops list_ops (\<lambda>_. True))"
  have start: "shard_dedup_pubkeys list_ops list_ops [7 :: nat] {7} 2 1 = Some ?s0"
    by (simp add: shard_dedup_pubkeys_def list_ops_def numeral_2_eq_2)
  have r0: "?R ?s0" by (rule reach_init) simp
  have r1: "?R (?s0\<lparr>producers_done := True\<rparr>)"
    using reach_step [OF r0 finish] by simp
  have r2: "?R (?s0\<lparr>producers_done := True, key_queue := [], readers := [Filling [7]]\<rparr>)"
    using reach_step [OF r1 fill [of 0 _ "[]"]] by (simp add: list_ops_def BATCH_def)
  have r3: "?R (?s0\<lparr>producers_done := True, key_queue := [], readers := [Routing [7]]\<rparr>)"
    using reach_step [OF r2 fill_empty [of 0 _ "[7]"]] by (simp add: list_ops_def BATCH_def)
  have r4: "?R (?s0\<lparr>producers_done := True, key_queue := [], readers := [Routing []], channels := [[], [(5, 7)]]\<rparr>)"
    using reach_step [OF r3 route_one [of 0 _ 7 "[]"]]
    by (simp add: list_ops_def receiver_accepts_def send_key_def route_def n_shards_of_def Let_def)
  have r5: "?R (?s0\<lparr>producers_done := True, key_queue := [], readers := [Checking], channels := [[], [(5, 7)]]\<rparr>)"
    using reach_step [OF r4 route_end [of 0]] by simp
  have r6: "?R (?s0\<lparr>producers_done := True, key_queue := [], readers := [Draining], channels := [[], [(5, 7)]]\<rparr>)"
    using reach_step [OF r5 check [of 0]] by simp
  have r7: "?R (?s0\<lparr>producers_done := True, key_queue := [], readers := [Returned], channels := [[], [(5, 7)]]\<rparr>)"
    using reach_step [OF r6 drain_end [of 0]] by (simp add: list_ops_def)
  have r8: "?R (?s0\<lparr>producers_done := True, key_queue := [], readers := [Returned],
      seen_keys := [{}, {7}], on_key_calls := [(1, 5, 7)]\<rparr>)"
    using reach_step [OF r7 work [of 1 _ list_ops "(5, 7)" "[]"]]
    by (simp add: list_ops_def worker_body_def)
  show ?thesis
    by (intro exI conjI, rule start, rule r8) (simp_all add: completed_def)
qed

text \<open>
  C4: \<open>on_key\<close> is called at most once for a key, in the shard the key hashes to and with its
  hash, and only for keys that were pushed, at every moment of every interleaving of the
  producers, readers and workers.
\<close>

theorem on_key_once_per_key:
  assumes "fifo sq qc" and "fifo ch cc" and "n_shards < 2 ^ 64"
    and "shard_dedup_pubkeys sq ch q (set (qc q)) n_shards n_readers = Some s0"
    and "reach (\<lambda>s. s = s0) (pipeline_step hash_of sq ch accepts) s"
  shows "distinct (map (snd \<circ> snd) (on_key_calls s)) \<and>
    (\<forall>(w, h, k) \<in> set (on_key_calls s). k \<in> produced_keys s \<and> h = hash_of k \<and>
       w = unat (hash_of k mod word_of_nat (length (channels s))))"
proof -
  note inv = pipeline_queues.pipeline_reach [OF pipeline_queues.intro [OF assms(1,2)] assms(4,3,5)]
  have "k \<in> produced_keys s \<and> h = hash_of k \<and> w = unat (hash_of k mod word_of_nat (length (channels s)))"
    if c: "(w, h, k) \<in> set (on_key_calls s)" for w h k
  proof -
    have w: "w < length (seen_keys s)" "route hash_of k (n_shards_of s) = (h, w)"
      using inv c by (auto simp: called_def threads_ok_def)
    then have "k \<in> seen_keys s ! w" using inv c by (auto simp: called_def)
    then have "k \<in> all_of id (seen_keys s)" using all_of_member [OF w(1), of id] by auto
    then show ?thesis using inv w(2) by (auto simp: keys_kept_def route_def n_shards_of_def Let_def)
  qed
  then show ?thesis using inv by (auto simp: called_def)
qed

theorem on_key_once_per_key_witness:
  "\<exists>s0 s. shard_dedup_pubkeys list_ops list_ops [7 :: nat] {7} 2 1 = Some s0 \<and>
     reach (\<lambda>s. s = s0) (pipeline_step (\<lambda>_. 5) list_ops list_ops (\<lambda>_. True)) s \<and>
     on_key_calls s = [(1, 5, 7)] \<and> 7 \<in> produced_keys s"
proof -
  obtain s0 s where run: "shard_dedup_pubkeys list_ops list_ops [7 :: nat] {7} 2 1 = Some s0"
    "reach (\<lambda>s. s = s0) (pipeline_step (\<lambda>_. 5) list_ops list_ops (\<lambda>_. True)) s"
    "on_key_calls s = [(1, 5, 7)]" using sample_run by blast
  have "shard_dedup_pubkeys list_ops list_ops [7 :: nat] (set [7]) 2 1 = Some s0" using run(1) by simp
  from on_key_once_per_key [OF list_queue.fifo_axioms list_queue.fifo_axioms _ this run(2)] run show ?thesis
    by auto
qed

text \<open>
  C3: When the completion value is sent, \<open>on_key\<close> has been called for exactly the keys that
  were in the queue or were pushed before \<open>done\<close> was set: no key is lost on the way.
\<close>

theorem completion_covers_all_keys:
  assumes "fifo sq qc" and "fifo ch cc" and "n_shards < 2 ^ 64"
    and "shard_dedup_pubkeys sq ch q (set (qc q)) n_shards n_readers = Some s0"
    and "reach (\<lambda>s. s = s0) (pipeline_step hash_of sq ch accepts) s"
    and "completed cc s"
  shows "(snd \<circ> snd) ` set (on_key_calls s) = produced_keys s \<and> qc (key_queue s) = [] \<and> producers_done s"
  using all_keys_called [of qc s hash_of cc] assms(6)
    pipeline_queues.pipeline_reach [OF pipeline_queues.intro [OF assms(1,2)] assms(4,3,5)] by blast

theorem completion_covers_all_keys_witness:
  "\<exists>s0 s. shard_dedup_pubkeys list_ops list_ops [7 :: nat] {7} 2 1 = Some s0 \<and>
     reach (\<lambda>s. s = s0) (pipeline_step (\<lambda>_. 5) list_ops list_ops (\<lambda>_. True)) s \<and>
     completed (\<lambda>c. c) s \<and> produced_keys s = {7}"
proof -
  obtain s0 s where run: "shard_dedup_pubkeys list_ops list_ops [7 :: nat] {7} 2 1 = Some s0"
    "reach (\<lambda>s. s = s0) (pipeline_step (\<lambda>_. 5) list_ops list_ops (\<lambda>_. True)) s"
    "completed (\<lambda>c. c) s" "on_key_calls s = [(1, 5, 7)]" using sample_run by blast
  have "shard_dedup_pubkeys list_ops list_ops [7 :: nat] (set [7]) 2 1 = Some s0" using run(1) by simp
  from completion_covers_all_keys [OF list_queue.fifo_axioms list_queue.fifo_axioms _ this run(2,3)] run
  show ?thesis by auto
qed

text \<open>
  C5: Once the producers are done the pipeline completes, whatever the scheduler does: every run
  takes at most the remaining work in steps, it can only stop when the completion value is due,
  and completion stays reachable from every state on the way.  A channel refuses a key only while
  it holds others.
\<close>

theorem pipeline_completes:
  assumes "fifo sq qc" and "fifo ch cc" and "n_shards < 2 ^ 64"
    and "shard_dedup_pubkeys sq ch q (set (qc q)) n_shards n_readers = Some s0"
    and "reach (\<lambda>s. s = s0) (pipeline_step hash_of sq ch accepts) s" and "producers_done s"
    and full: "\<And>c. \<not> accepts c \<Longrightarrow> cc c \<noteq> []"
    and run: "(progress_step hash_of sq ch accepts ^^ n) s t"
  shows "n \<le> pipeline_work qc cc s \<and>
    ((\<nexists>u. progress_step hash_of sq ch accepts t u) \<longrightarrow> completed cc t) \<and>
    (\<exists>m u. (progress_step hash_of sq ch accepts ^^ m) t u \<and> completed cc u)"
proof -
  note P = pipeline_queues.intro [OF assms(1,2)]
  have "threads_ok qc s" using pipeline_queues.pipeline_reach [OF P assms(4,3,5)] by simp
  from pipeline_queues.run_work [OF P run this assms(6)]
  have t: "n \<le> pipeline_work qc cc s" "threads_ok qc t" "producers_done t" by auto
  with pipeline_queues.can_move [OF P t(2,3) _ full] pipeline_queues.completion_reachable [OF P t(2,3) full]
  show ?thesis by blast
qed

theorem pipeline_completes_witness:
  "\<exists>s. pipeline_work (\<lambda>q. q) (\<lambda>c. c) s = 9 \<and> \<not> completed (\<lambda>c. c) s \<and>
     (\<exists>m u. (progress_step (\<lambda>_ :: nat. 5) list_ops list_ops (\<lambda>c. length c < 65536) ^^ m) s u \<and>
        completed (\<lambda>c. c) u)"
proof -
  let ?start = "\<lparr>key_queue = [7 :: nat], producers_done = False, readers = [Filling []],
      channels = [[], []], seen_keys = [{}, {}], on_key_calls = [], produced_keys = {7 :: nat}\<rparr>"
  let ?done = "\<lparr>key_queue = [7 :: nat], producers_done = True, readers = [Filling []],
      channels = [[], []], seen_keys = [{}, {}], on_key_calls = [], produced_keys = {7 :: nat}\<rparr>"
  let ?R = "reach (\<lambda>s. s = ?start) (pipeline_step (\<lambda>_. 5) list_ops list_ops (\<lambda>c. length c < 65536))"
  have "shard_dedup_pubkeys list_ops list_ops [7 :: nat] {7} 2 1 = Some ?start"
    by (simp add: shard_dedup_pubkeys_def list_ops_def numeral_2_eq_2)
  then have start: "shard_dedup_pubkeys list_ops list_ops [7 :: nat] (set [7]) 2 1 = Some ?start" by simp
  have "?R ?start" by (rule reach_init) simp
  from reach_step [OF this finish]
  have r: "?R ?done" by simp
  have shards: "(2 :: nat) < 2 ^ 64" and full: "\<And>c :: (u64 \<times> nat) list. \<not> length c < 65536 \<Longrightarrow> c \<noteq> []"
    and none: "(progress_step (\<lambda>_ :: nat. 5) list_ops list_ops (\<lambda>c. length c < 65536) ^^ 0) ?done ?done"
    by auto
  have "\<exists>m u. (progress_step (\<lambda>_ :: nat. 5) list_ops list_ops (\<lambda>c. length c < 65536) ^^ m) ?done u \<and>
      completed (\<lambda>c. c) u"
    using pipeline_completes [OF list_queue.fifo_axioms list_queue.fifo_axioms shards start r _ full none] by simp
  then show ?thesis
    by (intro exI [of _ ?done]) (simp add: pipeline_work_def completed_def)
qed

end
