(* ===== verification/Shard_Panic.thy ===== *)
theory Shard_Panic
  imports Shard
begin

text \<open>
  \<open>src/shard.rs\<close>: the pipeline with its coordinator thread, when \<open>on_key\<close> may panic.  A panic ends the
  worker and drops its channel; readers ignore the failed sends (\<open>.ok()\<close>); the coordinator joins the
  readers, closes the channels, joins the workers in order and signals completion, or panics at the
  first worker that died, which drops the sender of the completion value instead.
\<close>

section \<open>The threads and their ends\<close>

datatype worker = Working | Ended | Died

datatype coordinator = Joining_readers | Joining_workers nat | Signalled | Failed

record ('k, 'q, 'c) pool =
  pool_pipe :: "('k, 'q, 'c) pipeline"
  pool_workers :: "worker list"
  pool_coord :: coordinator

definition pool_start :: "('k, 'q, 'c) pipeline \<Rightarrow> ('k, 'q, 'c) pool" where
  "pool_start s = \<lparr>pool_pipe = s, pool_workers = replicate (length (channels s)) Working, pool_coord = Joining_readers\<rparr>"

text \<open>Nobody sends to or receives from the channel of a worker that is gone.\<close>

definition untouched :: "worker list \<Rightarrow> ('k, 'q, 'c) pipeline \<Rightarrow> ('k, 'q, 'c) pipeline \<Rightarrow> bool" where
  "untouched ws s t \<longleftrightarrow> (\<forall>w < length ws. ws ! w \<noteq> Working \<longrightarrow> channels t ! w = channels s ! w)"

text \<open>
  \<open>on_key_panics\<close> is a turn of a worker whose call of \<open>on_key\<close> does not return; \<open>send_fails\<close> a send whose
  receiver is gone, which drops the key.
\<close>

definition after_send :: "'k reader \<Rightarrow> 'k reader" where
  "after_send r = (case r of Routing (key # b) \<Rightarrow> Routing b | _ \<Rightarrow> Draining)"

inductive pool_step ::
    "('k \<Rightarrow> u64) \<Rightarrow> ('k, 'q) queue_ops \<Rightarrow> (u64 \<times> 'k, 'c) queue_ops \<Rightarrow> ('c \<Rightarrow> bool) \<Rightarrow>
     ('k, 'q, 'c) pool \<Rightarrow> ('k, 'q, 'c) pool \<Rightarrow> bool"
  for hash_of sq ch accepts where
  threads: "pipeline_step hash_of sq ch accepts (pool_pipe s) p \<Longrightarrow> untouched (pool_workers s) (pool_pipe s) p \<Longrightarrow>
     pool_step hash_of sq ch accepts s (s\<lparr>pool_pipe := p\<rparr>)"
| on_key_panics: "w < length (channels (pool_pipe s)) \<Longrightarrow> pool_workers s ! w = Working \<Longrightarrow>
     op_pop ch (channels (pool_pipe s) ! w) = (Some m, c) \<Longrightarrow> snd m \<notin> seen_keys (pool_pipe s) ! w \<Longrightarrow>
     pool_step hash_of sq ch accepts s (s\<lparr>
       pool_pipe := worker_body w m ((pool_pipe s)\<lparr>channels := (channels (pool_pipe s))[w := c]\<rparr>),
       pool_workers := (pool_workers s)[w := Died]\<rparr>)"
| send_fails: "i < length (readers (pool_pipe s)) \<Longrightarrow> to_send (readers (pool_pipe s) ! i) = Some key \<Longrightarrow>
     pool_workers s ! snd (route hash_of key (n_shards_of (pool_pipe s))) = Died \<Longrightarrow>
     pool_step hash_of sq ch accepts s (s\<lparr>pool_pipe := (pool_pipe s)\<lparr>
       readers := (readers (pool_pipe s))[i := after_send (readers (pool_pipe s) ! i)]\<rparr>\<rparr>)"
| worker_ends: "w < length (pool_workers s) \<Longrightarrow> pool_workers s ! w = Working \<Longrightarrow>
     pool_coord s \<noteq> Joining_readers \<Longrightarrow> fst (op_pop ch (channels (pool_pipe s) ! w)) = None \<Longrightarrow>
     pool_step hash_of sq ch accepts s (s\<lparr>pool_workers := (pool_workers s)[w := Ended]\<rparr>)"
| readers_joined: "pool_coord s = Joining_readers \<Longrightarrow> \<forall>r \<in> set (readers (pool_pipe s)). r = Returned \<Longrightarrow>
     pool_step hash_of sq ch accepts s (s\<lparr>pool_coord := Joining_workers 0\<rparr>)"
| worker_joined: "pool_coord s = Joining_workers k \<Longrightarrow> k < length (pool_workers s) \<Longrightarrow> pool_workers s ! k = Ended \<Longrightarrow>
     pool_step hash_of sq ch accepts s (s\<lparr>pool_coord := Joining_workers (Suc k)\<rparr>)"
| join_fails: "pool_coord s = Joining_workers k \<Longrightarrow> k < length (pool_workers s) \<Longrightarrow> pool_workers s ! k = Died \<Longrightarrow>
     pool_step hash_of sq ch accepts s (s\<lparr>pool_coord := Failed\<rparr>)"
| signals: "pool_coord s = Joining_workers (length (pool_workers s)) \<Longrightarrow>
     pool_step hash_of sq ch accepts s (s\<lparr>pool_coord := Signalled\<rparr>)"

section \<open>The invariant\<close>

definition joined_ok :: "worker list \<Rightarrow> coordinator \<Rightarrow> bool" where
  "joined_ok ws c = (case c of
     Joining_readers \<Rightarrow> Ended \<notin> set ws
   | Joining_workers k \<Rightarrow> k \<le> length ws \<and> (\<forall>j < k. ws ! j = Ended)
   | Signalled \<Rightarrow> \<forall>j < length ws. ws ! j = Ended
   | Failed \<Rightarrow> Died \<in> set ws)"

definition pool_inv ::
    "('k \<Rightarrow> u64) \<Rightarrow> ('q \<Rightarrow> 'k list) \<Rightarrow> ('c \<Rightarrow> (u64 \<times> 'k) list) \<Rightarrow> ('k, 'q, 'c) pool \<Rightarrow> bool" where
  "pool_inv hash_of qc cc s \<longleftrightarrow> (let p = pool_pipe s; ws = pool_workers s in
     threads_ok qc p \<and> routed hash_of cc p \<and> called hash_of p \<and> (Died \<notin> set ws \<longrightarrow> keys_kept qc cc p) \<and>
     length ws = length (channels p) \<and> joined_ok ws (pool_coord s) \<and>
     (\<forall>w < length ws. ws ! w = Ended \<longrightarrow> cc (channels p ! w) = []) \<and>
     (pool_coord s \<noteq> Joining_readers \<longrightarrow> (\<forall>r \<in> set (readers p). r = Returned)))"

lemma all_returned_step:
  "pipeline_step hash_of sq ch accepts s t \<Longrightarrow> \<forall>r \<in> set (readers s). r = Returned \<Longrightarrow> \<forall>r \<in> set (readers t). r = Returned"
  by (induction rule: pipeline_step.induct) (auto simp: worker_body_def split_beta all_set_conv_all_nth)

lemma joined_ok_dies:
  "joined_ok ws c \<Longrightarrow> w < length ws \<Longrightarrow> ws ! w = Working \<Longrightarrow> joined_ok (ws[w := Died]) c"
  by (cases c) (auto simp: joined_ok_def nth_list_update set_update_memI dest!: update_members)

lemma update_keeps: "x \<in> set xs \<Longrightarrow> xs ! w \<noteq> x \<Longrightarrow> x \<in> set (xs[w := y])"
proof -
  assume "x \<in> set xs" "xs ! w \<noteq> x"
  then obtain i where "i < length xs" "xs ! i = x" "i \<noteq> w" by (auto simp: in_set_conv_nth)
  then show "x \<in> set (xs[w := y])" using nth_mem [of i "xs[w := y]"] by simp
qed

lemma joined_ok_ends:
  "joined_ok ws c \<Longrightarrow> w < length ws \<Longrightarrow> ws ! w = Working \<Longrightarrow> c \<noteq> Joining_readers \<Longrightarrow> joined_ok (ws[w := Ended]) c"
  by (cases c) (auto simp: joined_ok_def nth_list_update update_keeps)

context pipeline_queues
begin

lemma pool_start_inv:
  assumes "shard_dedup_pubkeys sq ch q (set (qc q)) n_shards n_readers = Some s" and "n_shards < 2 ^ 64"
  shows "pool_inv hash_of qc cc (pool_start s)"
proof -
  have "reach (\<lambda>t. t = s) (pipeline_step hash_of sq ch (\<lambda>_. True)) s" by (rule reach_init) simp
  from pipeline_reach [OF assms this] show ?thesis
    by (simp add: pool_inv_def pool_start_def joined_ok_def)
qed

lemma pool_inv_step:
  "pool_step hash_of sq ch accepts s t \<Longrightarrow> pool_inv hash_of qc cc s \<Longrightarrow> pool_inv hash_of qc cc t"
proof (induction rule: pool_step.induct)
  case (threads s p)
  then show ?case
    using threads_ok_step routed_step called_step keys_kept_step length_channels_step all_returned_step
    by (fastforce simp: pool_inv_def Let_def untouched_def)
next
  case (on_key_panics w s m c)
  note step = work [OF on_key_panics(1,3), of hash_of sq accepts]
  show ?case
    using on_key_panics threads_ok_step [OF step] routed_step [OF step] called_step [OF step]
      all_returned_step [OF step] joined_ok_dies [of "pool_workers s" "pool_coord s" w]
    by (auto simp: pool_inv_def Let_def nth_list_update set_update_memI)
next
  case (send_fails i s key)
  let ?p = "pool_pipe s"
  let ?r = "readers ?p ! i"
  have inv: "threads_ok qc ?p" "length (pool_workers s) = length (channels ?p)"
    "routed hash_of cc ?p" "called hash_of ?p" "joined_ok (pool_workers s) (pool_coord s)"
    "\<forall>w < length (pool_workers s). pool_workers s ! w = Ended \<longrightarrow> cc (channels ?p ! w) = []"
    "pool_coord s \<noteq> Joining_readers \<longrightarrow> (\<forall>r \<in> set (readers ?p). r = Returned)"
    using send_fails(4) by (simp_all add: pool_inv_def Let_def)
  have w: "snd (route hash_of key (n_shards_of ?p)) < length (pool_workers s)"
    using inv(1,2) route_less [of "length (channels ?p)" hash_of key] by (simp add: threads_ok_def n_shards_of_def)
  then have died: "Died \<in> set (pool_workers s)" using send_fails(3) by (metis nth_mem)
  have mem: "?r \<in> set (readers ?p)" using send_fails(1) by simp
  then have joining: "pool_coord s = Joining_readers" using inv(7) send_fails(2) by fastforce
  have "threads_ok qc (?p\<lparr>readers := (readers ?p)[i := after_send ?r]\<rparr>)"
  proof (cases ?r rule: to_send.cases)
    case (1 k b)
    then show ?thesis using inv(1) by (auto simp: threads_ok_def after_send_def dest!: update_members)
  next
    case (2 k)
    then have "producers_done ?p" using threads_past [OF inv(1) send_fails(1)] by simp
    then show ?thesis using 2 inv(1) by (auto simp: threads_ok_def after_send_def dest!: update_members)
  qed (use send_fails(2) in simp_all)
  then show ?case using inv died joining
    by (simp add: pool_inv_def Let_def routed_def called_def n_shards_of_def)
next
  case (worker_ends w s)
  then show ?case using joined_ok_ends [of "pool_workers s" "pool_coord s" w] update_keeps [of Died "pool_workers s" w Ended] ch.pop_value [of "channels (pool_pipe s) ! w"]
    by (auto simp: pool_inv_def Let_def nth_list_update split: list.splits dest!: update_members)
next
  case (worker_joined s k)
  then show ?case by (auto simp: pool_inv_def Let_def joined_ok_def less_Suc_eq)
next
  case (join_fails s k)
  then have "Died \<in> set (pool_workers s)" by (metis nth_mem)
  with join_fails(1,4) show ?case by (simp add: pool_inv_def Let_def joined_ok_def)
qed (auto simp: pool_inv_def Let_def joined_ok_def)

end

section \<open>Every run comes to an end\<close>

text \<open>What the threads and the coordinator have left once \<open>done\<close> is set.\<close>

fun coordinator_work :: "nat \<Rightarrow> coordinator \<Rightarrow> nat" where
  "coordinator_work n Joining_readers = n + 2"
| "coordinator_work n (Joining_workers k) = Suc n - k"
| "coordinator_work n Signalled = 0"
| "coordinator_work n Failed = 0"

definition worker_work :: "worker \<Rightarrow> nat" where
  "worker_work w = (if w = Working then 1 else 0)"

definition pool_work :: "('q \<Rightarrow> 'k list) \<Rightarrow> ('c \<Rightarrow> (u64 \<times> 'k) list) \<Rightarrow> ('k, 'q, 'c) pool \<Rightarrow> nat" where
  "pool_work qc cc s = pipeline_work qc cc (pool_pipe s) + sum_list (map worker_work (pool_workers s)) +
     coordinator_work (length (pool_workers s)) (pool_coord s)"

definition pool_progress ::
    "('k \<Rightarrow> u64) \<Rightarrow> ('k, 'q) queue_ops \<Rightarrow> (u64 \<times> 'k, 'c) queue_ops \<Rightarrow> ('c \<Rightarrow> bool) \<Rightarrow>
     ('k, 'q, 'c) pool \<Rightarrow> ('k, 'q, 'c) pool \<Rightarrow> bool" where
  "pool_progress hash_of sq ch accepts s t \<longleftrightarrow> pool_step hash_of sq ch accepts s t \<and> t \<noteq> s"

definition pool_ended :: "('k, 'q, 'c) pool \<Rightarrow> bool" where
  "pool_ended s \<longleftrightarrow> pool_coord s = Signalled \<or> pool_coord s = Failed"

context pipeline_queues
begin

lemma pool_work_decreases:
  "pool_step hash_of sq ch accepts s t \<Longrightarrow> pool_inv hash_of qc cc s \<Longrightarrow> producers_done (pool_pipe s) \<Longrightarrow>
   producers_done (pool_pipe t) \<and> (t = s \<or> pool_work qc cc t < pool_work qc cc s)"
proof (induction rule: pool_step.induct)
  case (threads s p)
  then show ?case using work_decreases [OF threads(1)] by (auto simp: pool_inv_def Let_def pool_work_def)
next
  case (on_key_panics w s m c)
  let ?p = "worker_body w m ((pool_pipe s)\<lparr>channels := (channels (pool_pipe s))[w := c]\<rparr>)"
  have "w < length (pool_workers s)" using on_key_panics by (simp add: pool_inv_def Let_def)
  from sum_list_map_update [OF this, of worker_work Died]
  have "sum_list (map worker_work ((pool_workers s)[w := Died])) \<le> sum_list (map worker_work (pool_workers s))"
    by (simp add: worker_work_def)
  moreover have "pipeline_work qc cc ?p < pipeline_work qc cc (pool_pipe s)"
    using pops(3) [OF on_key_panics(3)] sum_list_map_update [OF on_key_panics(1), of "length \<circ> cc" c]
    by (simp add: pipeline_work_def worker_body_def split_beta)
  ultimately show ?case using on_key_panics(6) by (simp add: pool_work_def worker_body_def split_beta)
next
  case (send_fails i s key)
  have "reader_work (after_send (readers (pool_pipe s) ! i)) < reader_work (readers (pool_pipe s) ! i)"
    using send_fails(2) by (cases "readers (pool_pipe s) ! i" rule: to_send.cases) (simp_all add: after_send_def)
  then show ?case using sum_list_map_update [OF send_fails(1), of reader_work "after_send (readers (pool_pipe s) ! i)"]
      send_fails(5) by (simp add: pool_work_def pipeline_work_def)
next
  case (worker_ends w s)
  then show ?case using sum_list_map_update [OF worker_ends(1), of worker_work Ended]
    by (simp add: pool_work_def worker_work_def)
qed (auto simp: pool_work_def)

text \<open>Until the coordinator has ended, some thread can move.\<close>

lemma untouched_update:
  "ws ! k = Working \<Longrightarrow> channels t = (channels s)[k := c] \<Longrightarrow> untouched ws s t"
  unfolding untouched_def by (metis nth_list_update_neq)

lemma pipe_changes: "p \<noteq> pool_pipe s \<Longrightarrow> s\<lparr>pool_pipe := p\<rparr> \<noteq> s"
  by (cases s) auto

lemma pool_worker_moves:
  assumes "pool_inv hash_of qc cc s" and "w < length (pool_workers s)" and "pool_workers s ! w = Working"
    and "cc (channels (pool_pipe s) ! w) \<noteq> []"
  shows "\<exists>t. pool_step hash_of sq ch accepts s t \<and> t \<noteq> s"
proof -
  have w: "w < length (channels (pool_pipe s))" using assms(1,2) by (simp add: pool_inv_def Let_def)
  obtain m c where pop: "op_pop ch (channels (pool_pipe s) ! w) = (Some m, c)"
    using ch.pop_value [of "channels (pool_pipe s) ! w"] assms(4)
    by (cases "op_pop ch (channels (pool_pipe s) ! w)") (auto split: list.splits)
  let ?p = "worker_body w m ((pool_pipe s)\<lparr>channels := (channels (pool_pipe s))[w := c]\<rparr>)"
  have "pipeline_step hash_of sq ch accepts (pool_pipe s) ?p" by (rule work [OF w pop])
  moreover have "untouched (pool_workers s) (pool_pipe s) ?p"
    by (rule untouched_update [OF assms(3)]) simp
  ultimately have "pool_step hash_of sq ch accepts s (s\<lparr>pool_pipe := ?p\<rparr>)" by (rule threads)
  moreover have "channels ?p ! w \<noteq> channels (pool_pipe s) ! w" using pops(3) [OF pop] w by auto
  then have "?p \<noteq> pool_pipe s" by metis
  then have "s\<lparr>pool_pipe := ?p\<rparr> \<noteq> s" by (rule pipe_changes)
  ultimately show ?thesis by blast
qed

lemma pool_reader_moves:
  assumes inv: "pool_inv hash_of qc cc s" and "producers_done (pool_pipe s)"
    and "r \<in> set (readers (pool_pipe s))" and "r \<noteq> Returned"
    and idle: "\<And>w. w < length (pool_workers s) \<Longrightarrow> pool_workers s ! w = Working \<Longrightarrow> cc (channels (pool_pipe s) ! w) = []"
    and full: "\<And>c. \<not> accepts c \<Longrightarrow> cc c \<noteq> []" and joining: "pool_coord s = Joining_readers"
  shows "\<exists>t. pool_step hash_of sq ch accepts s t \<and> t \<noteq> s"
proof -
  let ?p = "pool_pipe s"
  have ok: "threads_ok qc ?p" "length (pool_workers s) = length (channels ?p)" "Ended \<notin> set (pool_workers s)"
    using inv joining by (simp_all add: pool_inv_def Let_def joined_ok_def)
  obtain i where i: "i < length (readers ?p)" "readers ?p ! i = r" using assms(3) by (auto simp: in_set_conv_nth)
  have lift: "\<exists>t. pool_step hash_of sq ch accepts s t \<and> t \<noteq> s"
    if "pipeline_step hash_of sq ch accepts ?p p" "pipeline_work qc cc p < pipeline_work qc cc ?p"
      "untouched (pool_workers s) ?p p" for p
  proof -
    have "s\<lparr>pool_pipe := p\<rparr> \<noteq> s" using that(2) by (intro pipe_changes) auto
    then show ?thesis using threads [OF that(1,3)] by blast
  qed
  show ?thesis
  proof (cases "to_send r")
    case None
    from quiet_reader_moves [OF ok(1) assms(2) i(1)] i(2) assms(4) None obtain p where
      p: "pipeline_step hash_of sq ch accepts ?p p" "pipeline_work qc cc p < pipeline_work qc cc ?p"
      and same: "channels p = channels ?p" by blast
    have "untouched (pool_workers s) ?p p" unfolding untouched_def same by simp
    with p show ?thesis by (rule lift)
  next
    case (Some key)
    let ?w = "snd (route hash_of key (n_shards_of ?p))"
    have w: "?w < length (pool_workers s)"
      using ok(1,2) route_less [of "length (channels ?p)" hash_of key] by (simp add: threads_ok_def n_shards_of_def)
    then have "pool_workers s ! ?w \<noteq> Ended" using ok(3) by (metis nth_mem)
    then consider "pool_workers s ! ?w = Died" | "pool_workers s ! ?w = Working"
      by (cases "pool_workers s ! ?w") auto
    then show ?thesis
    proof cases
      case 1
      have "reader_work (after_send r) \<noteq> reader_work r"
        using Some by (cases r rule: to_send.cases) (simp_all add: after_send_def)
      then have "(readers ?p)[i := after_send r] \<noteq> readers ?p" using i by (metis nth_list_update_eq)
      then have "s\<lparr>pool_pipe := ?p\<lparr>readers := (readers ?p)[i := after_send r]\<rparr>\<rparr> \<noteq> s"
        by (cases s; cases ?p) auto
      then show ?thesis using send_fails [of i s key hash_of sq ch accepts] i Some 1 by auto
    next
      case 2
      then have "receiver_accepts hash_of accepts key ?p" using idle [OF w] full by (auto simp: receiver_accepts_def)
      from sending_reader_moves [OF ok(1) assms(2) i(1) _ this] i(2) Some obtain p where
        p: "pipeline_step hash_of sq ch accepts ?p p" "pipeline_work qc cc p < pipeline_work qc cc ?p"
        "channels p = send_key hash_of ch key ?p" by blast
      have "untouched (pool_workers s) ?p p"
        by (rule untouched_update [OF 2]) (simp add: p(3) send_key_def split_beta)
      then show ?thesis using p lift by blast
    qed
  qed
qed

lemma coordinator_moves:
  "pool_step hash_of sq ch accepts s (s\<lparr>pool_coord := c\<rparr>) \<Longrightarrow> pool_coord s \<noteq> c \<Longrightarrow>
   \<exists>t. pool_step hash_of sq ch accepts s t \<and> t \<noteq> s"
  by (rule exI [of _ "s\<lparr>pool_coord := c\<rparr>"]) (cases s; simp)

lemma pool_can_move:
  assumes inv: "pool_inv hash_of qc cc s" and "producers_done (pool_pipe s)" and "\<not> pool_ended s"
    and full: "\<And>c. \<not> accepts c \<Longrightarrow> cc c \<noteq> []"
  shows "\<exists>t. pool_progress hash_of sq ch accepts s t"
proof -
  have "\<exists>t. pool_step hash_of sq ch accepts s t \<and> t \<noteq> s"
  proof (cases "\<exists>w < length (pool_workers s). pool_workers s ! w = Working \<and> cc (channels (pool_pipe s) ! w) \<noteq> []")
    case True
    then show ?thesis using pool_worker_moves [OF inv] by blast
  next
    case idle: False
    show ?thesis
    proof (cases "pool_coord s")
      case Joining_readers
      show ?thesis
      proof (cases "\<forall>r \<in> set (readers (pool_pipe s)). r = Returned")
        case True
        then show ?thesis using coordinator_moves [OF readers_joined [OF Joining_readers True]] Joining_readers by simp
      next
        case False
        then show ?thesis using pool_reader_moves [OF inv assms(2) _ _ _ full Joining_readers] idle by blast
      qed
    next
      case (Joining_workers k)
      then have k: "k \<le> length (pool_workers s)" using inv by (simp add: pool_inv_def Let_def joined_ok_def)
      show ?thesis
      proof (cases "k = length (pool_workers s)")
        case True
        then show ?thesis using coordinator_moves [OF signals, of s] Joining_workers by simp
      next
        case False
        then have lt: "k < length (pool_workers s)" using k by simp
        show ?thesis
        proof (cases "pool_workers s ! k")
          case Working
          then have "fst (op_pop ch (channels (pool_pipe s) ! k)) = None"
            using idle lt ch.pop_value [of "channels (pool_pipe s) ! k"] by simp
          from worker_ends [OF lt Working _ this] Joining_workers have
            "pool_step hash_of sq ch accepts s (s\<lparr>pool_workers := (pool_workers s)[k := Ended]\<rparr>)" by simp
          moreover have "(pool_workers s)[k := Ended] \<noteq> pool_workers s"
            using Working lt by (metis nth_list_update_eq worker.distinct(1))
          then have "s\<lparr>pool_workers := (pool_workers s)[k := Ended]\<rparr> \<noteq> s" by (cases s) auto
          ultimately show ?thesis by blast
        next
          case Ended
          then show ?thesis using coordinator_moves [OF worker_joined [OF Joining_workers lt Ended]] Joining_workers by simp
        next
          case Died
          then show ?thesis using coordinator_moves [OF join_fails [OF Joining_workers lt Died]] Joining_workers by simp
        qed
      qed
    qed (use assms(3) in \<open>simp_all add: pool_ended_def\<close>)
  qed
  then show ?thesis by (simp add: pool_progress_def)
qed

lemma pool_reach_inv:
  assumes "pool_inv hash_of qc cc s0" and "reach (\<lambda>s. s = s0) (pool_step hash_of sq ch accepts) s"
  shows "pool_inv hash_of qc cc s"
  using assms(2,1) by (induction rule: reach.induct) (auto intro: pool_inv_step)

lemma pool_run_work:
  assumes "(pool_progress hash_of sq ch accepts ^^ n) s t" and "pool_inv hash_of qc cc s" and "producers_done (pool_pipe s)"
  shows "n + pool_work qc cc t \<le> pool_work qc cc s \<and> pool_inv hash_of qc cc t \<and> producers_done (pool_pipe t)"
  using assms(1)
proof (induction n arbitrary: t)
  case (Suc n)
  then obtain u where u: "(pool_progress hash_of sq ch accepts ^^ n) s u" "pool_progress hash_of sq ch accepts u t" by auto
  with Suc.IH [OF u(1)] pool_work_decreases [of hash_of accepts u t] pool_inv_step [of hash_of accepts u t] show ?case
    by (auto simp: pool_progress_def)
qed (simp add: assms)

end

lemma pool_outcome:
  assumes "pool_inv hash_of qc cc s"
  shows "pool_coord s = Signalled \<Longrightarrow> Died \<notin> set (pool_workers s) \<and> completed cc (pool_pipe s)"
    and "pool_coord s = Failed \<Longrightarrow> Died \<in> set (pool_workers s)"
  using assms by (auto simp: pool_inv_def joined_ok_def Let_def completed_def in_set_conv_nth)

section \<open>What a panic of \<open>on_key\<close> does\<close>

text \<open>
  C7: Whether or not \<open>on_key\<close> panics on the way, it is called at most once for a key; the completion
  value is sent only if no worker died, and then \<open>on_key\<close> has returned for every key that was
  queued.  Once a worker has died the completion value is never sent.
\<close>

theorem signal_excludes_panic:
  assumes "fifo sq qc" and "fifo ch cc" and "n_shards < 2 ^ 64"
    and "shard_dedup_pubkeys sq ch q (set (qc q)) n_shards n_readers = Some s0"
    and "reach (\<lambda>s. s = pool_start s0) (pool_step hash_of sq ch accepts) s"
  shows "distinct (map (snd \<circ> snd) (on_key_calls (pool_pipe s))) \<and>
    (pool_coord s = Signalled \<longrightarrow> Died \<notin> set (pool_workers s) \<and>
      (snd \<circ> snd) ` set (on_key_calls (pool_pipe s)) = produced_keys (pool_pipe s))"
proof -
  note P = pipeline_queues.intro [OF assms(1,2)]
  have inv: "pool_inv hash_of qc cc s"
    by (rule pipeline_queues.pool_reach_inv [OF P pipeline_queues.pool_start_inv [OF P assms(4,3)] assms(5)])
  then have calls: "threads_ok qc (pool_pipe s)" "called hash_of (pool_pipe s)"
    "Died \<notin> set (pool_workers s) \<longrightarrow> keys_kept qc cc (pool_pipe s)"
    by (simp_all add: pool_inv_def Let_def)
  then have "distinct (map (snd \<circ> snd) (on_key_calls (pool_pipe s)))" by (simp add: called_def)
  moreover have "Died \<notin> set (pool_workers s) \<and>
      (snd \<circ> snd) ` set (on_key_calls (pool_pipe s)) = produced_keys (pool_pipe s)"
    if "pool_coord s = Signalled"
    using pool_outcome(1) [OF inv that] all_keys_called [OF calls(1,2)] calls(3) by blast
  ultimately show ?thesis by blast
qed

text \<open>The complete run of the sample, with its coordinator.\<close>

lemma pool_lift:
  assumes "reach (\<lambda>s. s = s0) (pipeline_step hash_of sq ch accepts) s" and "length (channels s0) = n"
  shows "reach (\<lambda>s. s = pool_start s0) (pool_step hash_of sq ch accepts)
    \<lparr>pool_pipe = s, pool_workers = replicate n Working, pool_coord = Joining_readers\<rparr>"
  using assms(1)
proof (induction rule: reach.induct)
  case (reach_init s)
  then show ?case using assms(2) by (intro reach.reach_init) (simp add: pool_start_def)
next
  case (reach_step s t)
  from reach_step(2) have "pool_step hash_of sq ch accepts
      \<lparr>pool_pipe = s, pool_workers = replicate n Working, pool_coord = Joining_readers\<rparr>
      \<lparr>pool_pipe = t, pool_workers = replicate n Working, pool_coord = Joining_readers\<rparr>"
    using threads [of hash_of sq ch accepts "\<lparr>pool_pipe = s, pool_workers = replicate n Working, pool_coord = Joining_readers\<rparr>" t]
    by (simp add: untouched_def)
  with reach_step.IH show ?case by (rule reach.reach_step)
qed

lemma sample_pool_run:
  "\<exists>s0 s. shard_dedup_pubkeys list_ops list_ops [7 :: nat] {7} 2 1 = Some s0 \<and>
     reach (\<lambda>s. s = pool_start s0) (pool_step (\<lambda>_. 5) list_ops list_ops (\<lambda>_. True)) s \<and> pool_coord s = Signalled"
proof -
  obtain s0 s where run: "shard_dedup_pubkeys list_ops list_ops [7 :: nat] {7} 2 1 = Some s0"
    "reach (\<lambda>s. s = s0) (pipeline_step (\<lambda>_. 5) list_ops list_ops (\<lambda>_. True)) s" "completed (\<lambda>c. c) s"
    using sample_run by blast
  have n: "length (channels s0) = 2" using run(1) by (auto simp: shard_dedup_pubkeys_def list_ops_def)
  let ?S = "\<lambda>ws c. \<lparr>pool_pipe = s, pool_workers = ws, pool_coord = c\<rparr>"
  let ?R = "reach (\<lambda>s. s = pool_start s0) (pool_step (\<lambda>_. 5) list_ops list_ops (\<lambda>_. True))"
  have len: "length (channels s) = 2" using run(2) n
    by (induction rule: reach.induct) (auto dest: pipeline_queues.length_channels_step
        [OF pipeline_queues.intro [OF list_queue.fifo_axioms list_queue.fifo_axioms]])
  have empty: "channels s ! w = []" if "w < 2" for w using run(3) len that by (simp add: completed_def)
  have "?R (?S [Working, Working] Joining_readers)" using pool_lift [OF run(2) n] by (simp add: numeral_2_eq_2)
  from reach_step [OF this readers_joined] run(3) have "?R (?S [Working, Working] (Joining_workers 0))"
    by (simp add: completed_def)
  from reach_step [OF this worker_ends [of 0]] empty have "?R (?S [Ended, Working] (Joining_workers 0))"
    by (simp add: list_ops_def)
  from reach_step [OF this worker_ends [of 1]] empty have "?R (?S [Ended, Ended] (Joining_workers 0))"
    by (simp add: list_ops_def)
  from reach_step [OF this worker_joined [of _ 0]] have "?R (?S [Ended, Ended] (Joining_workers 1))" by simp
  from reach_step [OF this worker_joined [of _ 1]] have "?R (?S [Ended, Ended] (Joining_workers 2))"
    by (simp add: numeral_2_eq_2)
  from reach_step [OF this signals] have "?R (?S [Ended, Ended] Signalled)" by (simp add: numeral_2_eq_2)
  moreover have "pool_coord (?S [Ended, Ended] Signalled) = Signalled" by (rule pool.select_convs)
  ultimately show ?thesis using run(1) by blast
qed

theorem signal_excludes_panic_witness:
  "\<exists>s0 s. shard_dedup_pubkeys list_ops list_ops [7 :: nat] {7} 2 1 = Some s0 \<and>
     reach (\<lambda>s. s = pool_start s0) (pool_step (\<lambda>_. 5) list_ops list_ops (\<lambda>_. True)) s \<and> pool_coord s = Signalled \<and>
     Died \<notin> set (pool_workers s)"
proof -
  obtain s0 s where run: "shard_dedup_pubkeys list_ops list_ops [7 :: nat] {7} 2 1 = Some s0"
    "reach (\<lambda>s. s = pool_start s0) (pool_step (\<lambda>_. 5) list_ops list_ops (\<lambda>_. True)) s" "pool_coord s = Signalled"
    using sample_pool_run by blast
  have "shard_dedup_pubkeys list_ops list_ops [7 :: nat] (set [7]) 2 1 = Some s0" using run(1) by simp
  from signal_excludes_panic [OF list_queue.fifo_axioms list_queue.fifo_axioms _ this run(2)] run show ?thesis by auto
qed

text \<open>
  C6: A panic never hangs the pipeline: once the producers are done every run, panics included,
  takes at most the remaining work in steps and stops only when the coordinator has ended, by
  sending the completion value or, exactly when a worker it joined had died, by dropping its
  sender.
\<close>

theorem panic_never_hangs:
  assumes "fifo sq qc" and "fifo ch cc" and "n_shards < 2 ^ 64"
    and "shard_dedup_pubkeys sq ch q (set (qc q)) n_shards n_readers = Some s0"
    and "reach (\<lambda>s. s = pool_start s0) (pool_step hash_of sq ch accepts) s" and "producers_done (pool_pipe s)"
    and full: "\<And>c. \<not> accepts c \<Longrightarrow> cc c \<noteq> []"
    and run: "(pool_progress hash_of sq ch accepts ^^ n) s t"
  shows "n \<le> pool_work qc cc s \<and>
    ((\<nexists>u. pool_progress hash_of sq ch accepts t u) \<longrightarrow> pool_coord t = Signalled \<or> pool_coord t = Failed) \<and>
    (pool_coord t = Signalled \<longrightarrow> Died \<notin> set (pool_workers t)) \<and>
    (pool_coord t = Failed \<longrightarrow> Died \<in> set (pool_workers t))"
proof -
  note P = pipeline_queues.intro [OF assms(1,2)]
  have "pool_inv hash_of qc cc s"
    by (rule pipeline_queues.pool_reach_inv [OF P pipeline_queues.pool_start_inv [OF P assms(4,3)] assms(5)])
  from pipeline_queues.pool_run_work [OF P run this assms(6)]
  have t: "n \<le> pool_work qc cc s" "pool_inv hash_of qc cc t" "producers_done (pool_pipe t)" by auto
  with pipeline_queues.pool_can_move [OF P t(2,3) _ full] pool_outcome [OF t(2)] show ?thesis
    by (auto simp: pool_ended_def)
qed

theorem panic_never_hangs_witness:
  "\<exists>s0 s. shard_dedup_pubkeys list_ops list_ops [7 :: nat] {7} 2 1 = Some s0 \<and>
     reach (\<lambda>s. s = pool_start s0) (pool_step (\<lambda>_. 5) list_ops list_ops (\<lambda>c. length c < 65536)) s \<and>
     producers_done (pool_pipe s) \<and> (\<exists>u. pool_progress (\<lambda>_. 5) list_ops list_ops (\<lambda>c. length c < 65536) s u)"
proof -
  obtain s0 where s0: "shard_dedup_pubkeys list_ops list_ops [7 :: nat] {7} 2 1 = Some s0"
    by (simp add: shard_dedup_pubkeys_def)
  let ?s = "(pool_start s0)\<lparr>pool_pipe := s0\<lparr>producers_done := True\<rparr>\<rparr>"
  have "reach (\<lambda>s. s = pool_start s0) (pool_step (\<lambda>_. 5) list_ops list_ops (\<lambda>c. length c < 65536)) (pool_start s0)"
    by (rule reach_init) simp
  from reach_step [OF this threads [OF finish]] have r:
    "reach (\<lambda>s. s = pool_start s0) (pool_step (\<lambda>_. 5) list_ops list_ops (\<lambda>c. length c < 65536)) ?s"
    by (simp add: untouched_def pool_start_def)
  have fin: "producers_done (pool_pipe ?s)" by simp
  have full: "\<And>c :: (u64 \<times> nat) list. \<not> length c < 65536 \<Longrightarrow> c \<noteq> []"
    and none: "(pool_progress (\<lambda>_ :: nat. 5) list_ops list_ops (\<lambda>c. length c < 65536) ^^ 0) ?s ?s" by auto
  have "shard_dedup_pubkeys list_ops list_ops [7 :: nat] (set [7]) 2 1 = Some s0" using s0 by simp
  from panic_never_hangs [OF list_queue.fifo_axioms list_queue.fifo_axioms _ this r fin full none]
  have "\<exists>u. pool_progress (\<lambda>_. 5) list_ops list_ops (\<lambda>c. length c < 65536) ?s u" by (auto simp: pool_start_def)
  with s0 r fin show ?thesis by blast
qed

end
