(* ===== verification/Quic.thy ===== *)
theory Quic
  imports Errors Transitions
begin

text \<open>
  \<open>src/quic.rs\<close>: finding the leaders to send to, the request a client fills, the handler that
  sends it to the leaders and the background loop that refreshes the leaders and retries pending
  batches.  The RPC client, the parser of public keys and the QUIC sender are other crates': their
  answers are parameters.
\<close>

section \<open>Addresses\<close>

record 'ip socket_addr =
  sa_ip :: 'ip
  sa_port :: u16

definition saturating_add_u16 :: "u16 \<Rightarrow> u16 \<Rightarrow> u16" where
  "saturating_add_u16 a b = (if unat a + unat b < 2 ^ 16 then a + b else - 1)"

definition tpu_quic_port :: "u16 \<Rightarrow> u16" where
  "tpu_quic_port tpu_port = saturating_add_u16 tpu_port 6"

definition to_tpu_quic_addr :: "'ip socket_addr \<Rightarrow> 'ip socket_addr" where
  "to_tpu_quic_addr a = \<lparr>sa_ip = sa_ip a, sa_port = tpu_quic_port (sa_port a)\<rparr>"

section \<open>Leaders\<close>

text \<open>What the code reads of a cluster node, and the RPC queries it makes, each of which may fail.\<close>

record 'ip cluster_node =
  node_pubkey :: string
  node_tpu_quic :: "'ip socket_addr option"
  node_tpu :: "'ip socket_addr option"

record ('ip, 'pk) rpc_client =
  get_slot :: "string + u64"
  get_slot_leaders :: "u64 \<Rightarrow> u64 \<Rightarrow> string + 'pk list"
  get_cluster_nodes :: "string + 'ip cluster_node list"

record ('ip, 'pk) leader_tpu_info =
  li_pubkey :: 'pk
  li_slot :: u64
  li_addr :: "'ip socket_addr"

text \<open>\<open>map_err\<close> of an RPC answer, with the message of the query.\<close>

definition rpc_result :: "string \<Rightarrow> string + 'a \<Rightarrow> 'a result" where
  "rpc_result msg r = (case r of Inl e \<Rightarrow> Inl (ConnectionError (msg @ e)) | Inr x \<Rightarrow> Inr x)"

definition tpu_map_insert ::
    "(string \<Rightarrow> 'pk option) \<Rightarrow> 'ip cluster_node \<Rightarrow> ('pk \<rightharpoonup> 'ip socket_addr) \<Rightarrow> ('pk \<rightharpoonup> 'ip socket_addr)" where
  "tpu_map_insert parse node m = (case node_tpu_quic node of
     Some tpu_quic \<Rightarrow> (case parse (node_pubkey node) of
        Some pubkey \<Rightarrow> m(pubkey \<mapsto> tpu_quic)
      | None \<Rightarrow> m)
   | None \<Rightarrow> (case node_tpu node of
        Some tpu \<Rightarrow> (case parse (node_pubkey node) of
           Some pubkey \<Rightarrow> m(pubkey \<mapsto> to_tpu_quic_addr tpu)
         | None \<Rightarrow> m)
      | None \<Rightarrow> m))"

definition tpu_map :: "(string \<Rightarrow> 'pk option) \<Rightarrow> 'ip cluster_node list \<Rightarrow> ('pk \<rightharpoonup> 'ip socket_addr)" where
  "tpu_map parse nodes = fold (tpu_map_insert parse) nodes Map.empty"

text \<open>The loop over the leaders, from index \<open>i\<close> on; \<open>current_slot + i\<close> may overflow.\<close>

primrec collect_leaders ::
    "profile \<Rightarrow> ('pk \<rightharpoonup> 'ip socket_addr) \<Rightarrow> u64 \<Rightarrow> nat \<Rightarrow> 'pk list \<Rightarrow> ('ip, 'pk) leader_tpu_info list exec" where
  "collect_leaders p m current_slot i [] = ret []"
| "collect_leaders p m current_slot i (leader # leaders) = do {
     slot \<leftarrow> add_checked p current_slot (word_of_nat i);
     rest \<leftarrow> collect_leaders p m current_slot (i + 1) leaders;
     ret (case m leader of
       Some addr \<Rightarrow> \<lparr>li_pubkey = leader, li_slot = slot, li_addr = addr\<rparr> # rest
     | None \<Rightarrow> rest)
   }"

definition get_leader_tpu_addresses ::
    "profile \<Rightarrow> (string \<Rightarrow> 'pk option) \<Rightarrow> ('ip, 'pk) rpc_client \<Rightarrow> u64 option \<Rightarrow>
     ('ip, 'pk) leader_tpu_info list result exec" where
  "get_leader_tpu_addresses p parse rpc num_leaders =
     (let num_leaders = (case num_leaders of Some n \<Rightarrow> n | None \<Rightarrow> 4) in
      case rpc_result ''Failed to get current slot: '' (get_slot rpc) of
        Inl e \<Rightarrow> ret (Inl e)
      | Inr current_slot \<Rightarrow>
      case rpc_result ''Failed to get slot leaders: '' (get_slot_leaders rpc current_slot num_leaders) of
        Inl e \<Rightarrow> ret (Inl e)
      | Inr leaders \<Rightarrow>
      case rpc_result ''Failed to get cluster nodes: '' (get_cluster_nodes rpc) of
        Inl e \<Rightarrow> ret (Inl e)
      | Inr cluster_nodes \<Rightarrow> do {
          infos \<leftarrow> collect_leaders p (tpu_map parse cluster_nodes) current_slot 0 leaders;
          ret (Inr infos)
        })"

definition get_current_leader_tpu_address ::
    "profile \<Rightarrow> (string \<Rightarrow> 'pk option) \<Rightarrow> ('ip, 'pk) rpc_client \<Rightarrow> 'ip socket_addr result exec" where
  "get_current_leader_tpu_address p parse rpc = do {
     r \<leftarrow> get_leader_tpu_addresses p parse rpc (Some 1);
     ret (rbind r (\<lambda>leaders. case leaders of
       [] \<Rightarrow> Inl (ConnectionError ''No TPU address found for current leader'')
     | info # _ \<Rightarrow> Inr (li_addr info)))
   }"

section \<open>Requests\<close>

definition MAX_TX_BUNDLE_SIZE :: nat where
  "MAX_TX_BUNDLE_SIZE = 20"

definition MAX_TX_SIZE :: nat where
  "MAX_TX_SIZE = 1500"

record transaction_request =
  rq_count :: u8
  rq_list :: "u16 list"
  rq_data :: "u8 list"

definition default_request :: transaction_request where
  "default_request = \<lparr>rq_count = 0, rq_list = replicate MAX_TX_BUNDLE_SIZE 0,
     rq_data = replicate (MAX_TX_SIZE * MAX_TX_BUNDLE_SIZE) 0\<rparr>"

definition append_tx :: "profile \<Rightarrow> u8 list \<Rightarrow> transaction_request \<Rightarrow> (bool \<times> transaction_request) exec" where
  "append_tx p bytes rq =
     (if MAX_TX_BUNDLE_SIZE \<le> unat (rq_count rq) then ret (False, rq)
      else do {
        let i = rq_count rq;
        count \<leftarrow> add_checked p (rq_count rq) 1;
        let rq = rq\<lparr>rq_count := count\<rparr>;
        start \<leftarrow> (if i = 0 then ret 0 else index (rq_list rq) (unat i - 1));
        let start = unat start;
        if MAX_TX_SIZE < length bytes then ret (False, rq)
        else do {
          let finish = start + length bytes;
          d \<leftarrow> copy_into (rq_data rq) start finish bytes;
          ret (True, rq\<lparr>rq_data := d\<rparr>)
        }
      })"

section \<open>The request handler\<close>

record pending_batch =
  pb_txs :: "u8 list list"
  pb_sent_at :: nat

text \<open>
  The state shared with the background thread is \<open>l_leader\<close> and \<open>pending\<close>; \<open>sleep_ms\<close> is the
  background thread's own, and \<open>wire\<close> lists every batch handed to the QUIC sender.
\<close>

record ('ip, 'pk) handler =
  l_tx :: "u8 list list"
  sent_count :: u16
  l_leader :: "('ip, 'pk) leader_tpu_info list"
  pending :: "pending_batch list"
  sleep_ms :: u64
  wire :: "('ip socket_addr \<times> u8 list list) list"

primrec request_slices :: "transaction_request \<Rightarrow> nat list \<Rightarrow> nat \<Rightarrow> u8 list list exec" where
  "request_slices rq [] start = ret []"
| "request_slices rq (i # is) start = do {
     finish \<leftarrow> index (rq_list rq) i;
     tx \<leftarrow> slice (rq_data rq) start (unat finish);
     txs \<leftarrow> request_slices rq is (unat finish);
     ret (tx # txs)
   }"

text \<open>
  \<open>send\<close> says which sends succeed; the outcome of one may depend on every send before it, so
  that two sends to one address may differ.
\<close>

type_synonym 'ip sender = "('ip socket_addr \<times> u8 list list) list \<Rightarrow> 'ip socket_addr \<Rightarrow> u8 list list \<Rightarrow> bool"

primrec send_to_leaders ::
    "profile \<Rightarrow> 'ip sender \<Rightarrow> u8 list list \<Rightarrow>
     ('ip, 'pk) leader_tpu_info list \<Rightarrow> ('ip, 'pk) handler \<Rightarrow> ('ip, 'pk) handler exec" where
  "send_to_leaders p send txs [] h = ret h"
| "send_to_leaders p send txs (leader # leaders) h = do {
     let sent = send (wire h) (li_addr leader) txs;
     let h = h\<lparr>wire := wire h @ [(li_addr leader, txs)]\<rparr>;
     h \<leftarrow> (if sent then do {
            n \<leftarrow> add_checked p (sent_count h) 1;
            ret (h\<lparr>sent_count := n\<rparr>)
          } else ret h);
     send_to_leaders p send txs leaders h
   }"

definition on_request ::
    "profile \<Rightarrow> 'ip sender \<Rightarrow> nat \<Rightarrow> transaction_request \<Rightarrow>
     ('ip, 'pk) handler \<Rightarrow> (u16 result \<times> ('ip, 'pk) handler) exec" where
  "on_request p send now rq h = do {
     let n = unat (rq_count rq);
     txs \<leftarrow> request_slices rq [0..<n] 0;
     let h = h\<lparr>l_tx := txs, sent_count := 0\<rparr>;
     let h = h\<lparr>pending := pending h @ [\<lparr>pb_txs = txs, pb_sent_at = now\<rparr>]\<rparr>;
     h \<leftarrow> send_to_leaders p send txs (l_leader h) h;
     ret (if sent_count h = 0 then Inl OutofRange else Inr (sent_count h), h)
   }"

section \<open>The background loop\<close>

text \<open>Times are in milliseconds; \<open>duration_since\<close> saturates at zero, as subtraction does here.\<close>

definition PENDING_TX_TTL :: nat where
  "PENDING_TX_TTL = 30000"

definition sleep_steps :: "('ip, 'pk) handler \<Rightarrow> u64" where
  "sleep_steps h = max (sleep_ms h div 50) 1"

definition retry_pending ::
    "('ip, 'pk) leader_tpu_info list \<Rightarrow> pending_batch list \<Rightarrow> ('ip socket_addr \<times> u8 list list) list" where
  "retry_pending leaders batches =
     concat (map (\<lambda>b. map (\<lambda>l. (li_addr l, pb_txs b)) leaders) batches)"

definition refresh ::
    "('ip, 'pk) leader_tpu_info list result \<Rightarrow> nat \<Rightarrow> ('ip, 'pk) handler \<Rightarrow> ('ip, 'pk) handler" where
  "refresh answer now h = (case answer of
     Inr leaders \<Rightarrow>
       (let h = h\<lparr>sleep_ms := 400, l_leader := leaders\<rparr>;
            h = h\<lparr>pending := filter (\<lambda>b. now - pb_sent_at b < PENDING_TX_TTL) (pending h)\<rparr>
        in h\<lparr>wire := wire h @ retry_pending leaders (pending h)\<rparr>)
   | Inl e \<Rightarrow> h\<lparr>sleep_ms := min (sleep_ms h * 2) 5000\<rparr>)"

text \<open>
  A new service starts from the best-effort first answer of the leader query; the QUIC client of
  the background thread may fail to be created (\<open>SolanaQuicClient::new(..)?\<close>).
\<close>

definition start_handler :: "('ip, 'pk) leader_tpu_info list result \<Rightarrow> ('ip, 'pk) handler" where
  "start_handler initial = \<lparr>l_tx = [], sent_count = 0,
     l_leader = (case initial of Inr leaders \<Rightarrow> leaders | Inl e \<Rightarrow> []),
     pending = [], sleep_ms = 400, wire = []\<rparr>"

definition new_handler ::
    "('ip, 'pk) leader_tpu_info list result \<Rightarrow> 'client result \<Rightarrow> ('ip, 'pk) handler result" where
  "new_handler initial retry_quic = rbind retry_quic (\<lambda>_. Inr (start_handler initial))"

lemma new_handler_eq_Inr [simp]:
  "new_handler initial retry_quic = Inr h \<longleftrightarrow> (\<exists>c. retry_quic = Inr c) \<and> h = start_handler initial"
  by (auto simp: new_handler_def rbind_eq_Inr)

section \<open>Ports and leaders\<close>

text \<open>
  The QUIC port is the TPU port plus six, capped at the largest port, and the address keeps
  its host.
\<close>

lemma quic_port_saturates:
  "unat (tpu_quic_port port) = min (unat port + 6) 65535 \<and>
   sa_ip (to_tpu_quic_addr a) = sa_ip a \<and> sa_port (to_tpu_quic_addr a) = tpu_quic_port (sa_port a)"
proof -
  have "unat (tpu_quic_port port) = min (unat port + 6) 65535"
  proof (cases "unat port + 6 < 2 ^ 16")
    case True
    then have "unat (port + 6) = unat port + 6" by (simp add: unat_word_ariths)
    with True show ?thesis by (simp add: tpu_quic_port_def saturating_add_u16_def)
  next
    case False
    then show ?thesis
      by (simp add: tpu_quic_port_def saturating_add_u16_def unsigned_minus_1_eq_mask mask_eq_exp_minus_1)
  qed
  then show ?thesis by (simp add: to_tpu_quic_addr_def)
qed

lemma to_tpu_quic:
  "sa_ip (to_tpu_quic_addr a) = sa_ip a" "unat (sa_port (to_tpu_quic_addr a)) = min (unat (sa_port a) + 6) 65535"
  using quic_port_saturates [of "sa_port a" a] by simp_all

text \<open>The QUIC address a node publishes: its own, or the one computed from its TPU address.\<close>

definition node_quic_addr :: "'ip cluster_node \<Rightarrow> 'ip socket_addr option" where
  "node_quic_addr node = (case node_tpu_quic node of
     Some a \<Rightarrow> Some a
   | None \<Rightarrow> map_option to_tpu_quic_addr (node_tpu node))"

definition publishes :: "(string \<Rightarrow> 'pk option) \<Rightarrow> 'pk \<Rightarrow> 'ip cluster_node \<Rightarrow> bool" where
  "publishes parse pk node \<longleftrightarrow> parse (node_pubkey node) = Some pk \<and> node_quic_addr node \<noteq> None"

lemma tpu_map_insert_lookup:
  "tpu_map_insert parse node m pk = (if publishes parse pk node then node_quic_addr node else m pk)"
  by (auto simp: tpu_map_insert_def publishes_def node_quic_addr_def split: option.splits)

lemma fold_tpu_map:
  "fold (tpu_map_insert parse) nodes m pk =
     (if \<exists>node \<in> set nodes. publishes parse pk node
      then node_quic_addr (last (filter (publishes parse pk) nodes)) else m pk)"
  by (induction nodes arbitrary: m) (auto simp: tpu_map_insert_lookup filter_empty_conv)

text \<open>
  The address map takes, for each key, the last node of the cluster that parses to it and
  publishes an address; a published QUIC address is used as it is, a TPU address with its port
  moved to QUIC's; a key no such node has is absent.
\<close>

lemma tpu_map_last_publisher_wins:
  "tpu_map parse nodes pk =
     (if \<exists>node \<in> set nodes. publishes parse pk node
      then node_quic_addr (last (filter (publishes parse pk) nodes)) else None)"
  by (simp add: tpu_map_def fold_tpu_map)

definition leader_entries ::
    "('pk \<rightharpoonup> 'ip socket_addr) \<Rightarrow> u64 \<Rightarrow> (nat \<times> 'pk) list \<Rightarrow> ('ip, 'pk) leader_tpu_info list" where
  "leader_entries m slot ls =
     concat (map (\<lambda>(i, l). case m l of None \<Rightarrow> []
       | Some a \<Rightarrow> [\<lparr>li_pubkey = l, li_slot = slot + word_of_nat i, li_addr = a\<rparr>]) ls)"

text \<open>In the debug profile the loop panics at the first slot past the last of \<open>u64\<close>.\<close>

lemma collect_leaders_entries:
  "i + length ls \<le> 2 ^ 64 \<Longrightarrow> collect_leaders p m slot i ls =
     (if p = Debug \<and> ls \<noteq> [] \<and> 2 ^ 64 < unat slot + i + length ls then None
      else Some (leader_entries m slot (enumerate i ls)))"
proof (induction ls arbitrary: i)
  case (Cons l ls)
  then have i: "unat (word_of_nat i :: u64) = i" by (simp add: unat_of_nat)
  have IH: "collect_leaders p m slot (i + 1) ls = (if p = Debug \<and> ls \<noteq> [] \<and> 2 ^ 64 < unat slot + (i + 1) + length ls
      then None else Some (leader_entries m slot (enumerate (i + 1) ls)))"
    using Cons.prems by (intro Cons.IH) simp
  show ?case
  proof (cases "p = Debug \<and> 2 ^ 64 \<le> unat slot + i")
    case True
    then have "add_checked p slot (word_of_nat i) = None" using i by (simp add: add_checked_def)
    then show ?thesis using True by simp
  next
    case False
    then have "add_checked p slot (word_of_nat i) = Some (slot + word_of_nat i)" using i by (auto simp: add_checked_def)
    then show ?thesis using IH False by (cases ls) (auto simp: leader_entries_def split: option.splits)
  qed
qed (simp add: leader_entries_def)

lemma leader_entries_scheduled:
  "map (\<lambda>x. (li_pubkey x, li_slot x)) (leader_entries m slot ls) =
     [(l, slot + word_of_nat i). (i, l) \<leftarrow> ls, m l \<noteq> None]"
  by (induction ls) (auto simp: leader_entries_def split: option.splits)

lemma publishes_iff:
  "publishes parse pk node \<longleftrightarrow> parse (node_pubkey node) = Some pk \<and> (node_tpu_quic node \<noteq> None \<or> node_tpu node \<noteq> None)"
  by (auto simp: publishes_def node_quic_addr_def split: option.splits)

lemma tpu_map_known:
  "tpu_map parse nodes l \<noteq> None \<longleftrightarrow> (\<exists>node \<in> set nodes. parse (node_pubkey node) = Some l \<and>
     (node_tpu_quic node \<noteq> None \<or> node_tpu node \<noteq> None))"
proof -
  have "node_quic_addr (last (filter (publishes parse l) nodes)) \<noteq> None" if "\<exists>node \<in> set nodes. publishes parse l node"
  proof -
    from that have "filter (publishes parse l) nodes \<noteq> []" by (simp add: filter_empty_conv)
    then have "last (filter (publishes parse l) nodes) \<in> set (filter (publishes parse l) nodes)" by (rule last_in_set)
    then show ?thesis by (simp add: publishes_def)
  qed
  then show ?thesis unfolding publishes_iff [symmetric] tpu_map_last_publisher_wins by simp
qed

lemma tpu_map_addr:
  assumes "tpu_map parse nodes l = Some a"
  shows "\<exists>before node after. nodes = before @ node # after \<and> parse (node_pubkey node) = Some l \<and>
    (\<forall>later \<in> set after. parse (node_pubkey later) = Some l \<longrightarrow> node_tpu_quic later = None \<and> node_tpu later = None) \<and>
    (case node_tpu_quic node of Some quic \<Rightarrow> a = quic
     | None \<Rightarrow> \<exists>tpu. node_tpu node = Some tpu \<and> sa_ip a = sa_ip tpu \<and> unat (sa_port a) = min (unat (sa_port tpu) + 6) 65535)"
proof -
  from assms have some: "\<exists>node \<in> set nodes. publishes parse l node"
    and a: "node_quic_addr (last (filter (publishes parse l) nodes)) = Some a"
    by (auto simp: tpu_map_last_publisher_wins split: if_splits)
  from some obtain before node after where n: "nodes = before @ node # after" "publishes parse l node"
    "\<forall>later \<in> set after. \<not> publishes parse l later"
    using split_list_last_prop [OF some] by blast
  then have "filter (publishes parse l) after = []" by (simp add: filter_empty_conv)
  with n a have addr: "node_quic_addr node = Some a" by simp
  have "\<forall>later \<in> set after. parse (node_pubkey later) = Some l \<longrightarrow> node_tpu_quic later = None \<and> node_tpu later = None"
    using n(3) by (auto simp: publishes_iff)
  moreover have "case node_tpu_quic node of Some quic \<Rightarrow> a = quic
     | None \<Rightarrow> \<exists>tpu. node_tpu node = Some tpu \<and> sa_ip a = sa_ip tpu \<and> unat (sa_port a) = min (unat (sa_port tpu) + 6) 65535"
    using addr by (auto simp: node_quic_addr_def to_tpu_quic split: option.splits)
  ultimately show ?thesis using n(1,2) by (auto simp: publishes_def)
qed

lemma leader_entries_addr: "x \<in> set (leader_entries m slot ls) \<Longrightarrow> m (li_pubkey x) = Some (li_addr x)"
  by (auto simp: leader_entries_def split: option.splits)

text \<open>
  C29: The leader query decided.  The first of the queries for slot, schedule and nodes to fail is the
  error, with its message.  Otherwise, for a schedule of fewer than \<open>2 ^ 64\<close> leaders, the debug profile panics exactly when a scheduled slot is past
  the last of \<open>u64\<close>; if not, the result lists, in the order of the schedule and each at the slot of
  its position, the scheduled leaders that some node of the cluster with their key publishes an
  address for, and no other.  The address is that of the last such node: its QUIC address, or else
  its TPU address with the port six higher, capped at the largest port.
\<close>

theorem leader_addresses_follow_schedule:
  fixes rpc :: "('ip, 'pk) rpc_client" and p parse n
  defines "query \<equiv> get_leader_tpu_addresses p parse rpc n"
    and "schedule \<equiv> \<lambda>slot. get_slot_leaders rpc slot (case n of Some k \<Rightarrow> k | None \<Rightarrow> 4)"
  shows "(\<forall>e. get_slot rpc = Inl e \<longrightarrow>
      query = Some (Inl (ConnectionError (''Failed to get current slot: '' @ e)))) \<and>
    (\<forall>slot e. get_slot rpc = Inr slot \<and> schedule slot = Inl e \<longrightarrow>
      query = Some (Inl (ConnectionError (''Failed to get slot leaders: '' @ e)))) \<and>
    (\<forall>slot ls e. get_slot rpc = Inr slot \<and> schedule slot = Inr ls \<and> get_cluster_nodes rpc = Inl e \<longrightarrow>
      query = Some (Inl (ConnectionError (''Failed to get cluster nodes: '' @ e)))) \<and>
    (\<forall>slot ls nodes. get_slot rpc = Inr slot \<and> schedule slot = Inr ls \<and> get_cluster_nodes rpc = Inr nodes \<and>
        length ls < 2 ^ 64 \<longrightarrow>
      (if p = Debug \<and> 2 ^ 64 < unat slot + length ls then query = None
       else \<exists>infos. query = Some (Inr infos) \<and>
         map (\<lambda>x. (li_pubkey x, li_slot x)) infos = [(l, slot + word_of_nat i). (i, l) \<leftarrow> enumerate 0 ls,
           \<exists>node \<in> set nodes. parse (node_pubkey node) = Some l \<and> (node_tpu_quic node \<noteq> None \<or> node_tpu node \<noteq> None)] \<and>
         (\<forall>x \<in> set infos. \<exists>before node after. nodes = before @ node # after \<and>
            parse (node_pubkey node) = Some (li_pubkey x) \<and>
            (\<forall>later \<in> set after. parse (node_pubkey later) = Some (li_pubkey x) \<longrightarrow>
               node_tpu_quic later = None \<and> node_tpu later = None) \<and>
            (case node_tpu_quic node of Some quic \<Rightarrow> li_addr x = quic
             | None \<Rightarrow> \<exists>tpu. node_tpu node = Some tpu \<and> sa_ip (li_addr x) = sa_ip tpu \<and>
                 unat (sa_port (li_addr x)) = min (unat (sa_port tpu) + 6) 65535))))"
proof (intro conjI allI impI)
  note unf = query_def schedule_def get_leader_tpu_addresses_def rpc_result_def Let_def
  show "query = Some (Inl (ConnectionError (''Failed to get current slot: '' @ e)))" if "get_slot rpc = Inl e" for e
    using that by (simp add: unf)
  show "query = Some (Inl (ConnectionError (''Failed to get slot leaders: '' @ e)))"
    if "get_slot rpc = Inr slot \<and> schedule slot = Inl e" for slot e
    using that by (simp add: unf)
  show "query = Some (Inl (ConnectionError (''Failed to get cluster nodes: '' @ e)))"
    if "get_slot rpc = Inr slot \<and> schedule slot = Inr ls \<and> get_cluster_nodes rpc = Inl e" for slot ls e
    using that by (simp add: unf)
  fix slot ls nodes
  assume ok: "get_slot rpc = Inr slot \<and> schedule slot = Inr ls \<and> get_cluster_nodes rpc = Inr nodes \<and> length ls < 2 ^ 64"
  let ?m = "tpu_map parse nodes"
  let ?infos = "leader_entries ?m slot (enumerate 0 ls)"
  have slot: "unat slot < 2 ^ 64" by (rule order_less_le_trans [OF unsigned_less]) simp
  have "0 + length ls \<le> 2 ^ 64" using ok by simp
  from collect_leaders_entries [OF this, of p ?m slot]
  have q: "query = (if p = Debug \<and> 2 ^ 64 < unat slot + length ls then None else Some (Inr ?infos))"
    using ok slot by (cases ls) (auto simp: unf)
  have "map (\<lambda>x. (li_pubkey x, li_slot x)) ?infos = [(l, slot + word_of_nat i). (i, l) \<leftarrow> enumerate 0 ls,
           \<exists>node \<in> set nodes. parse (node_pubkey node) = Some l \<and> (node_tpu_quic node \<noteq> None \<or> node_tpu node \<noteq> None)]"
    by (simp only: leader_entries_scheduled tpu_map_known)
  then show "if p = Debug \<and> 2 ^ 64 < unat slot + length ls then query = None
       else \<exists>infos. query = Some (Inr infos) \<and>
         map (\<lambda>x. (li_pubkey x, li_slot x)) infos = [(l, slot + word_of_nat i). (i, l) \<leftarrow> enumerate 0 ls,
           \<exists>node \<in> set nodes. parse (node_pubkey node) = Some l \<and> (node_tpu_quic node \<noteq> None \<or> node_tpu node \<noteq> None)] \<and>
         (\<forall>x \<in> set infos. \<exists>before node after. nodes = before @ node # after \<and>
            parse (node_pubkey node) = Some (li_pubkey x) \<and>
            (\<forall>later \<in> set after. parse (node_pubkey later) = Some (li_pubkey x) \<longrightarrow>
               node_tpu_quic later = None \<and> node_tpu later = None) \<and>
            (case node_tpu_quic node of Some quic \<Rightarrow> li_addr x = quic
             | None \<Rightarrow> \<exists>tpu. node_tpu node = Some tpu \<and> sa_ip (li_addr x) = sa_ip tpu \<and>
                 unat (sa_port (li_addr x)) = min (unat (sa_port tpu) + 6) 65535))"
    using q tpu_map_addr [OF leader_entries_addr [of _ ?m slot "enumerate 0 ls"]] by auto
qed

theorem leader_addresses_follow_schedule_witness:
  "get_leader_tpu_addresses Debug (\<lambda>s. if s = ''a'' then Some (CHR ''x'') else None)
     \<lparr>get_slot = Inr 100, get_slot_leaders = (\<lambda>_ _. Inr [CHR ''y'', CHR ''x'']),
      get_cluster_nodes = Inr [\<lparr>node_pubkey = ''a'', node_tpu_quic = None,
        node_tpu = Some \<lparr>sa_ip = (), sa_port = 8000\<rparr>\<rparr>]\<rparr> None =
   Some (Inr [\<lparr>li_pubkey = CHR ''x'', li_slot = 101, li_addr = \<lparr>sa_ip = (), sa_port = 8006\<rparr>\<rparr>])"
proof -
  let ?node = "\<lparr>node_pubkey = ''a'', node_tpu_quic = None, node_tpu = Some \<lparr>sa_ip = (), sa_port = 8000\<rparr>\<rparr>"
  let ?rpc = "\<lparr>get_slot = Inr 100, get_slot_leaders = (\<lambda>_ _. Inr [CHR ''y'', CHR ''x'']), get_cluster_nodes = Inr [?node]\<rparr>"
  let ?parse = "\<lambda>s. if s = ''a'' then Some (CHR ''x'') else None"
  have known: "get_slot ?rpc = Inr 100 \<and>
      get_slot_leaders ?rpc 100 (case None of Some k \<Rightarrow> k | None \<Rightarrow> 4) = Inr [CHR ''y'', CHR ''x''] \<and>
      get_cluster_nodes ?rpc = Inr [?node] \<and> length [CHR ''y'', CHR ''x''] < 2 ^ 64" by simp
  note q = leader_addresses_follow_schedule [of ?rpc Debug ?parse None, THEN conjunct2, THEN conjunct2, THEN conjunct2,
    THEN spec, THEN spec, THEN spec, THEN mp, OF known]
  have "\<not> (Debug = Debug \<and> 2 ^ 64 < unat (100 :: u64) + length [CHR ''y'', CHR ''x''])" by simp
  from q [unfolded if_not_P [OF this]] show ?thesis
  proof (elim exE conjE, goal_cases)
    case (1 infos)
    have "[(l, 100 + word_of_nat i). (i, l) \<leftarrow> enumerate 0 [CHR ''y'', CHR ''x''], \<exists>node \<in> set [?node].
        ?parse (node_pubkey node) = Some l \<and> (node_tpu_quic node \<noteq> None \<or> node_tpu node \<noteq> None)] = [(CHR ''x'', 101 :: u64)]"
      by simp
    with 1(2) obtain x where x: "infos = [x]" "li_pubkey x = CHR ''x''" "li_slot x = 101" by auto
    have "x \<in> set infos" using x(1) by simp
    from 1(3) [rule_format, OF this] obtain before node after where n: "[?node] = before @ node # after"
      "case node_tpu_quic node of Some quic \<Rightarrow> li_addr x = quic
       | None \<Rightarrow> \<exists>tpu. node_tpu node = Some tpu \<and> sa_ip (li_addr x) = sa_ip tpu \<and>
           unat (sa_port (li_addr x)) = min (unat (sa_port tpu) + 6) 65535"
      by (elim exE conjE) (rule that)
    from n(1) have "node = ?node" by (cases before) simp_all
    with n(2) have "unat (sa_port (li_addr x)) = unat (8006 :: u16)" by simp
    then have "sa_port (li_addr x) = 8006" by (simp only: word_unat_eq_iff)
    then have "x = \<lparr>li_pubkey = CHR ''x'', li_slot = 101, li_addr = \<lparr>sa_ip = (), sa_port = 8006\<rparr>\<rparr>"
      using x(2,3) by (cases x; cases "li_addr x") simp
    with 1(1) x(1) show ?case by simp
  qed
qed

section \<open>Requests\<close>

text \<open>Cutting the data at the ends \<open>es\<close>, each slice from the end before it.\<close>

primrec cut :: "u8 list \<Rightarrow> nat \<Rightarrow> nat list \<Rightarrow> u8 list list exec" where
  "cut data start [] = Some []"
| "cut data start (e # es) = do { tx \<leftarrow> slice data start e; txs \<leftarrow> cut data e es; ret (tx # txs) }"

definition request_ends :: "transaction_request \<Rightarrow> nat list" where
  "request_ends rq = map unat (take (unat (rq_count rq)) (rq_list rq))"

lemma request_slices_cut:
  "k \<le> n \<Longrightarrow> n \<le> length (rq_list rq) \<Longrightarrow>
   request_slices rq [k..<n] s = cut (rq_data rq) s (map unat (drop k (take n (rq_list rq))))"
proof (induction "n - k" arbitrary: k s)
  case 0
  then show ?case by simp
next
  case (Suc m)
  then have k: "k < n" "k < length (rq_list rq)" by simp_all
  then have "drop k (take n (rq_list rq)) = rq_list rq ! k # drop (Suc k) (take n (rq_list rq))"
    by (simp add: Cons_nth_drop_Suc [symmetric])
  moreover have "[k..<n] = k # [Suc k..<n]" using k(1) by (rule upt_conv_Cons)
  moreover have "request_slices rq [Suc k..<n] e = cut (rq_data rq) e (map unat (drop (Suc k) (take n (rq_list rq))))" for e
    using Suc k by (intro Suc.hyps(1)) simp_all
  ultimately show ?case using k by (simp add: slice_simps)
qed

lemma request_slices_short:
  "k \<le> length (rq_list rq) \<Longrightarrow> length (rq_list rq) < n \<Longrightarrow> request_slices rq [k..<n] s = None"
proof (induction "length (rq_list rq) - k" arbitrary: k s)
  case 0
  then have "[k..<n] = k # [Suc k..<n]" by (intro upt_conv_Cons) simp
  with 0 show ?case by (simp add: index_def)
next
  case (Suc m)
  then have "[k..<n] = k # [Suc k..<n]" by (intro upt_conv_Cons) simp
  moreover have "request_slices rq [Suc k..<n] e = None" for e using Suc by (intro Suc.hyps(1)) simp_all
  ultimately show ?case by (simp add: bind_eq_None_conv)
qed

lemma cut_eq:
  "cut data s es = (if sorted (s # es) \<and> (\<forall>e \<in> set es. e \<le> length data)
     then Some (map (\<lambda>(a, b). take (b - a) (drop a data)) (zip (s # es) es)) else None)"
proof (induction es arbitrary: s)
  case (Cons e es)
  show ?case
  proof (cases "s \<le> e \<and> e \<le> length data")
    case True
    then show ?thesis using Cons.IH [of e] by (auto simp: slice_simps)
  next
    case False
    then show ?thesis by (auto simp: slice_def)
  qed
qed simp

lemma cut_concat:
  "sorted (s # es) \<Longrightarrow> concat (map (\<lambda>(a, b). take (b - a) (drop a data)) (zip (s # es) es)) =
     take (last (s # es) - s) (drop s data)"
proof (induction es arbitrary: s)
  case (Cons e es)
  have le: "e \<le> last (e # es)" using Cons.prems by (cases "es = []") (auto simp: last_in_set)
  have se: "s \<le> e" using Cons.prems by simp
  have "take (e - s) (drop s data) @ take (last (e # es) - e) (drop e data) =
      take (last (e # es) - s) (drop s data)"
    using le se take_add [of "e - s" "last (e # es) - e" "drop s data"] by simp
  with Cons show ?case by simp
qed simp

text \<open>A request whose ends lie in the table, ascend and stay inside the data.\<close>

definition request_ok :: "transaction_request \<Rightarrow> bool" where
  "request_ok rq \<longleftrightarrow> unat (rq_count rq) \<le> length (rq_list rq) \<and> sorted (request_ends rq) \<and>
     (\<forall>e \<in> set (request_ends rq). e \<le> length (rq_data rq))"

text \<open>Its transactions: transaction \<open>i\<close> reaches from end \<open>i - 1\<close> to end \<open>i\<close>.\<close>

definition request_txs :: "transaction_request \<Rightarrow> u8 list list" where
  "request_txs rq = map (\<lambda>(a, b). take (b - a) (drop a (rq_data rq))) (zip (0 # request_ends rq) (request_ends rq))"

lemma request_slices_eq:
  "request_slices rq [0..<unat (rq_count rq)] 0 = (if request_ok rq then Some (request_txs rq) else None)"
  using request_slices_cut [of 0 "unat (rq_count rq)" rq 0] request_slices_short [of 0 rq "unat (rq_count rq)" 0]
  by (cases "unat (rq_count rq) \<le> length (rq_list rq)")
     (auto simp: request_ends_def [symmetric] cut_eq request_ok_def request_txs_def)

text \<open>The leaders a batch reaches, after the sends \<open>w\<close>.\<close>

primrec reached ::
    "'ip sender \<Rightarrow> ('ip socket_addr \<times> u8 list list) list \<Rightarrow> u8 list list \<Rightarrow> ('ip, 'pk) leader_tpu_info list \<Rightarrow> nat" where
  "reached send w txs [] = 0"
| "reached send w txs (l # ls) =
     (if send w (li_addr l) txs then 1 else 0) + reached send (w @ [(li_addr l, txs)]) txs ls"

lemma reached_le: "reached send w txs ls \<le> length ls"
  by (induction ls arbitrary: w) (auto intro: le_SucI)

lemma send_to_leaders_eq:
  "unat (sent_count h) + length leaders < 2 ^ 16 \<Longrightarrow>
   send_to_leaders p send txs leaders h = Some (h\<lparr>
     sent_count := sent_count h + word_of_nat (reached send (wire h) txs leaders),
     wire := wire h @ map (\<lambda>l. (li_addr l, txs)) leaders\<rparr>)"
proof (induction leaders arbitrary: h)
  case Nil
  then show ?case by (cases h) simp
next
  case (Cons l leaders)
  have add: "add_checked p (sent_count h) 1 = Some (sent_count h + 1)"
    using Cons.prems by (intro add_checked_no_overflow) simp
  have "unat (sent_count h + 1) = unat (sent_count h) + 1"
    using Cons.prems by (simp add: unat_word_ariths)
  then show ?case using Cons add by (cases h) simp
qed

lemma on_request_eq:
  assumes "length (l_leader h) < 2 ^ 16"
  shows "on_request p send now rq h =
    (if request_ok rq then
       let txs = request_txs rq; k = reached send (wire h) txs (l_leader h) in
       Some (if k = 0 then Inl OutofRange else Inr (word_of_nat k),
         h\<lparr>l_tx := txs, sent_count := word_of_nat k,
           pending := pending h @ [\<lparr>pb_txs = txs, pb_sent_at = now\<rparr>],
           wire := wire h @ map (\<lambda>l. (li_addr l, txs)) (l_leader h)\<rparr>)
     else None)"
proof -
  define k where "k = reached send (wire h) (request_txs rq) (l_leader h)"
  have "k < 2 ^ 16" using assms by (simp add: k_def le_less_trans [OF reached_le])
  then have zero: "(word_of_nat k :: u16) = 0 \<longleftrightarrow> k = 0" by (simp add: word_unat_eq_iff unat_of_nat)
  show ?thesis
    using assms zero
    by (simp add: on_request_def request_slices_eq Let_def send_to_leaders_eq k_def [symmetric])
qed

text \<open>
  C11: A request is served unless its table of ends is malformed, in which case the handler
  panics: otherwise its transactions are the consecutive slices of the data, they are queued once
  for retry and handed once to every leader, and the answer is the number of leaders reached, or
  an error when none was.  The slices cover the data up to the last end.
\<close>

theorem on_request_serves:
  assumes "length (l_leader h) < 2 ^ 16"
  shows "on_request p send now rq h =
    (if request_ok rq then
       let txs = request_txs rq; k = reached send (wire h) txs (l_leader h) in
       Some (if k = 0 then Inl OutofRange else Inr (word_of_nat k),
         h\<lparr>l_tx := txs, sent_count := word_of_nat k,
           pending := pending h @ [\<lparr>pb_txs = txs, pb_sent_at = now\<rparr>],
           wire := wire h @ map (\<lambda>l. (li_addr l, txs)) (l_leader h)\<rparr>)
     else None) \<and>
    (request_ok rq \<longrightarrow> length (request_txs rq) = unat (rq_count rq) \<and>
       concat (request_txs rq) = take (last (0 # request_ends rq)) (rq_data rq))"
  using on_request_eq [OF assms] cut_concat [of 0 "request_ends rq" "rq_data rq"]
  by (auto simp: request_ok_def request_txs_def) (simp add: request_ends_def)

theorem on_request_serves_witness:
  "\<exists>h'. on_request Debug (\<lambda>_ _ _. True) 5 \<lparr>rq_count = 1, rq_list = [2], rq_data = [7, 8, 9]\<rparr>
      (start_handler (Inr [\<lparr>li_pubkey = (), li_slot = 1, li_addr = \<lparr>sa_ip = (), sa_port = 8006\<rparr>\<rparr>])) =
      Some (Inr 1, h') \<and> pending h' = [\<lparr>pb_txs = [[7, 8]], pb_sent_at = 5\<rparr>]"
proof -
  let ?rq = "\<lparr>rq_count = 1, rq_list = [2], rq_data = [7, 8, 9]\<rparr>"
  let ?h = "start_handler (Inr [\<lparr>li_pubkey = (), li_slot = 1, li_addr = \<lparr>sa_ip = (), sa_port = 8006\<rparr>\<rparr>])"
  have ok: "request_ok ?rq" "request_txs ?rq = [[7, 8]]"
    by (simp_all add: request_ok_def request_txs_def request_ends_def)
  have h: "length (l_leader ?h) < 2 ^ 16" by (simp add: start_handler_def)
  from on_request_serves [OF h, of Debug "\<lambda>_ _ _. True" 5 ?rq] ok show ?thesis
    by (simp add: start_handler_def Let_def)
qed

section \<open>Filling a request\<close>

definition append_step :: "profile \<Rightarrow> transaction_request \<Rightarrow> transaction_request \<Rightarrow> bool" where
  "append_step p rq rq' \<longleftrightarrow> (\<exists>bytes ok. append_tx p bytes rq = Some (ok, rq'))"

definition fill_inv :: "transaction_request \<Rightarrow> bool" where
  "fill_inv rq \<longleftrightarrow> rq_list rq = replicate 20 0 \<and> length (rq_data rq) = 30000 \<and> unat (rq_count rq) \<le> 20"

lemma append_tx_eq:
  assumes "fill_inv rq"
  shows "append_tx p bytes rq = Some (
    if unat (rq_count rq) = 20 then (False, rq)
    else if 1500 < length bytes then (False, rq\<lparr>rq_count := rq_count rq + 1\<rparr>)
    else (True, rq\<lparr>rq_count := rq_count rq + 1, rq_data := bytes @ drop (length bytes) (rq_data rq)\<rparr>))"
proof (cases "unat (rq_count rq) = 20")
  case True
  then show ?thesis by (simp add: append_tx_def MAX_TX_BUNDLE_SIZE_def)
next
  case False
  then have lt: "unat (rq_count rq) < 20" using assms by (simp add: fill_inv_def)
  have add: "add_checked p (rq_count rq) 1 = Some (rq_count rq + 1)"
    using lt by (intro add_checked_no_overflow) simp
  show ?thesis
    using assms lt by (simp add: append_tx_def MAX_TX_BUNDLE_SIZE_def MAX_TX_SIZE_def add
        copy_into_def fill_inv_def Let_def slice_simps)
qed

lemma fill_inv_append:
  "fill_inv rq \<Longrightarrow> append_tx p bytes rq = Some (ok, rq') \<Longrightarrow> fill_inv rq'"
proof -
  assume inv: "fill_inv rq" and a: "append_tx p bytes rq = Some (ok, rq')"
  have "unat (rq_count rq + 1) = unat (rq_count rq) + 1" if "unat (rq_count rq) \<noteq> 20"
    using inv that by (simp add: fill_inv_def unat_word_ariths)
  with inv a show "fill_inv rq'"
    by (auto simp: append_tx_eq fill_inv_def split: if_splits)
qed

interpretation filling: invariant_system "\<lambda>rq. rq = default_request" "append_step p" fill_inv for p
proof unfold_locales
  fix rq assume "rq = default_request"
  then show "fill_inv rq"
    by (simp add: fill_inv_def default_request_def MAX_TX_BUNDLE_SIZE_def MAX_TX_SIZE_def)
next
  fix rq rq' assume "fill_inv rq" "append_step p rq rq'"
  then show "fill_inv rq'" by (auto simp: append_step_def intro: fill_inv_append)
qed

text \<open>
  Filling a request never panics; a transaction is taken exactly when there is room for one
  more and it has at most 1500 bytes, and its bytes then stand at the start of the data; but the
  count also moves when a transaction is refused for its size.
\<close>

lemma append_outcome:
  assumes "reach (\<lambda>rq. rq = default_request) (append_step p) rq"
  shows "\<exists>ok rq'. append_tx q bytes rq = Some (ok, rq') \<and>
    (ok \<longleftrightarrow> unat (rq_count rq) < 20 \<and> length bytes \<le> 1500) \<and>
    (ok \<longrightarrow> take (length bytes) (rq_data rq') = bytes) \<and>
    unat (rq_count rq') = min 20 (unat (rq_count rq) + 1)"
proof -
  have inv: "fill_inv rq" by (rule filling.inv_reach [OF assms])
  have "unat (rq_count rq + 1) = unat (rq_count rq) + 1" if "unat (rq_count rq) \<noteq> 20"
    using inv that by (simp add: fill_inv_def unat_word_ariths)
  with inv show ?thesis by (auto simp: append_tx_eq fill_inv_def)
qed

lemma one_append:
  "\<exists>rq. reach (\<lambda>rq. rq = default_request) (append_step Debug) rq \<and> rq_count rq = 1 \<and>
     append_tx Debug [7, 8] default_request = Some (True, rq)"
proof -
  have d: "fill_inv default_request"
    by (simp add: fill_inv_def default_request_def MAX_TX_BUNDLE_SIZE_def MAX_TX_SIZE_def)
  obtain rq where a: "append_tx Debug [7, 8] default_request = Some (True, rq)" "rq_count rq = 1"
    using append_tx_eq [OF d, of Debug "[7, 8]"] by (simp add: default_request_def)
  have "reach (\<lambda>rq. rq = default_request) (append_step Debug) rq"
    by (rule reach_step [OF reach_init]) (use a(1) in \<open>auto simp: append_step_def\<close>)
  with a show ?thesis by blast
qed

lemma append_outcome_witness:
  "\<exists>rq ok rq'. reach (\<lambda>rq. rq = default_request) (append_step Debug) rq \<and> rq_count rq = 1 \<and>
     append_tx Debug (replicate 1501 9) rq = Some (ok, rq') \<and> \<not> ok \<and> unat (rq_count rq') = 2"
proof -
  obtain rq where r: "reach (\<lambda>rq. rq = default_request) (append_step Debug) rq" "rq_count rq = 1"
    using one_append by blast
  with append_outcome [OF r(1), of Debug "replicate 1501 9"] show ?thesis by fastforce
qed

text \<open>
  C17: The bytes a client appends never reach a leader: the table of ends is not written, so for a
  request filled by \<open>append\<close> the handler sends, and queues for retry, as many transactions as
  were counted, all of them empty.
\<close>

theorem appended_bytes_never_sent:
  assumes "reach (\<lambda>rq. rq = default_request) (append_step p) rq"
    and "length (l_leader h) < 2 ^ 16"
  shows "\<exists>r h'. on_request q send now rq h = Some (r, h') \<and>
    pending h' = pending h @ [\<lparr>pb_txs = replicate (unat (rq_count rq)) [], pb_sent_at = now\<rparr>] \<and>
    wire h' = wire h @ map (\<lambda>l. (li_addr l, replicate (unat (rq_count rq)) [])) (l_leader h)"
proof -
  have inv: "fill_inv rq" by (rule filling.inv_reach [OF assms(1)])
  then have ends: "request_ends rq = replicate (unat (rq_count rq)) 0"
    by (simp add: fill_inv_def request_ends_def map_replicate)
  moreover have "map (\<lambda>(a, b). take (b - a) (drop a d)) (zip (0 # replicate n 0) (replicate n 0)) = replicate n []"
    for n and d :: "u8 list" by (induction n) simp_all
  ultimately have txs: "request_txs rq = replicate (unat (rq_count rq)) []"
    by (simp add: request_txs_def)
  have "request_ok rq" using inv ends by (simp add: request_ok_def fill_inv_def sorted_replicate)
  then show ?thesis using on_request_eq [OF assms(2), of q send now rq] by (simp add: txs Let_def)
qed

theorem appended_bytes_never_sent_witness:
  "\<exists>rq r h'. append_tx Debug [7, 8] default_request = Some (True, rq) \<and>
     on_request Debug (\<lambda>_ _ _. True) 5 rq
       (start_handler (Inr [\<lparr>li_pubkey = (), li_slot = 1, li_addr = \<lparr>sa_ip = (), sa_port = 8006\<rparr>\<rparr>])) =
       Some (r, h') \<and> wire h' = [(\<lparr>sa_ip = (), sa_port = 8006\<rparr>, [[]])]"
proof -
  let ?h = "start_handler (Inr [\<lparr>li_pubkey = (), li_slot = 1, li_addr = \<lparr>sa_ip = (), sa_port = 8006\<rparr>\<rparr>])"
  obtain rq where a: "reach (\<lambda>rq. rq = default_request) (append_step Debug) rq" "rq_count rq = 1"
    "append_tx Debug [7, 8] default_request = Some (True, rq)" using one_append by blast
  have h: "length (l_leader ?h) < 2 ^ 16" by (simp add: start_handler_def)
  from appended_bytes_never_sent [OF a(1) h, of Debug "\<lambda>_ _ _. True" 5] a(2,3)
  show ?thesis by (auto simp: start_handler_def)
qed

section \<open>Requests and refreshes over time\<close>

text \<open>
  The handler thread and the background thread share the handler under its locks; the clock
  does not run backwards.
\<close>

inductive service_step ::
    "profile \<Rightarrow> ('ip, 'pk) handler \<times> nat \<Rightarrow> ('ip, 'pk) handler \<times> nat \<Rightarrow> bool" for p where
  serve_request: "t \<le> now \<Longrightarrow> on_request p send now rq h = Some (r, h') \<Longrightarrow> service_step p (h, t) (h', now)"
| refresh_leaders: "t \<le> now \<Longrightarrow> service_step p (h, t) (refresh answer now h, now)"

abbreviation service_init :: "('ip, 'pk) handler \<times> nat \<Rightarrow> bool" where
  "service_init s \<equiv> \<exists>answer client :: unit result. new_handler answer client = Inr (fst s)"

definition service_inv :: "('ip, 'pk) handler \<times> nat \<Rightarrow> bool" where
  "service_inv s \<longleftrightarrow> 400 \<le> unat (sleep_ms (fst s)) \<and> unat (sleep_ms (fst s)) \<le> 5000 \<and>
     (\<forall>b \<in> set (pending (fst s)). pb_sent_at b \<le> snd s)"

lemma send_to_leaders_keeps:
  "send_to_leaders p send txs leaders h = Some h' \<Longrightarrow> pending h' = pending h \<and> sleep_ms h' = sleep_ms h"
proof (induction leaders arbitrary: h)
  case (Cons l leaders)
  then show ?case by (fastforce simp: Option.bind_eq_Some_conv Let_def split: if_splits)
qed simp

lemma on_request_keeps:
  assumes "on_request p send now rq h = Some (r, h')"
  shows "sleep_ms h' = sleep_ms h \<and> (\<exists>txs. pending h' = pending h @ [\<lparr>pb_txs = txs, pb_sent_at = now\<rparr>])"
  using assms by (auto simp: on_request_def Option.bind_eq_Some_conv Let_def dest!: send_to_leaders_keeps)

lemma backoff:
  assumes "unat s \<le> (5000 :: nat)"
  shows "unat (min (s * 2) 5000 :: u64) = min (unat s * 2) 5000"
proof -
  have "unat (s * 2) = unat s * 2" using assms by (simp add: unat_word_ariths)
  then show ?thesis by (simp add: min_def word_le_nat_alt)
qed

interpretation service: invariant_system service_init "service_step p" service_inv for p
proof unfold_locales
  fix s :: "('a, 'b) handler \<times> nat" assume "service_init s"
  then show "service_inv s" by (auto simp: service_inv_def start_handler_def)
next
  fix s s' :: "('a, 'b) handler \<times> nat" assume inv: "service_inv s" and step: "service_step p s s'"
  from step inv show "service_inv s'"
  proof (induction rule: service_step.induct)
    case (serve_request t now send rq h r h')
    from on_request_keeps [OF serve_request(2)] serve_request(1,3) show ?case
      by (auto simp: service_inv_def intro: le_trans)
  next
    case (refresh_leaders t now h answer)
    then have "\<forall>b \<in> set (pending h). pb_sent_at b \<le> now"
      by (auto simp: service_inv_def intro: le_trans)
    with refresh_leaders show ?case
      by (cases answer) (simp_all add: service_inv_def refresh_def Let_def backoff)
  qed
qed

text \<open>
  The refresh interval stays between 400 ms and 5 s in every run of the service, so the
  background thread looks at its stop flag between 8 and 100 times per interval; after a success
  it is 400 ms, and \<open>k\<close> failures in a row double it \<open>k\<close> times up to the cap.
\<close>

lemma refresh_interval_bounded:
  assumes "reach service_init (service_step p) (h, t)"
  shows "400 \<le> unat (sleep_ms h) \<and> unat (sleep_ms h) \<le> 5000 \<and>
    8 \<le> unat (sleep_steps h) \<and> unat (sleep_steps h) \<le> 100 \<and>
    unat (sleep_ms ((refresh (Inl e) now ^^ k) (refresh (Inr leaders) t h))) = min (400 * 2 ^ k) 5000"
proof -
  have inv: "service_inv (h, t)" by (rule service.inv_reach [OF assms])
  then have b: "400 \<le> unat (sleep_ms h)" "unat (sleep_ms h) \<le> 5000" by (simp_all add: service_inv_def)
  have "unat (sleep_ms h div 50) = unat (sleep_ms h) div 50" by (simp add: unat_div)
  then have "8 \<le> unat (sleep_ms h div 50)" "unat (sleep_ms h div 50) \<le> 100" using b by simp_all
  then have steps: "8 \<le> unat (sleep_steps h)" "unat (sleep_steps h) \<le> 100"
    by (auto simp: sleep_steps_def max_def word_le_nat_alt)
  have "unat (sleep_ms ((refresh (Inl e) now ^^ k) (refresh (Inr leaders) t h))) = min (400 * 2 ^ k) 5000"
  proof (induction k)
    case 0
    then show ?case by (simp add: refresh_def Let_def)
  next
    case (Suc k)
    then show ?case by (simp add: refresh_def backoff)
  qed
  with b steps show ?thesis by simp
qed

lemma refresh_interval_bounded_witness:
  "unat (sleep_ms ((refresh (Inl OutofRange) 9 ^^ 2)
     (refresh (Inr []) 0 (start_handler (Inr []) :: (unit, unit) handler)))) = 1600"
proof -
  have "reach service_init (service_step Debug) (start_handler (Inr []) :: (unit, unit) handler, 0)"
    by (rule reach_init) auto
  from refresh_interval_bounded [OF this, where e = OutofRange and now = 9 and k = 2 and leaders = "[]"] show ?thesis by simp
qed

text \<open>
  C26: A refresh retries exactly the batches submitted less than 30 s ago, each once to every
  leader of the fresh schedule, and forgets the others; an unsuccessful refresh sends nothing and
  forgets nothing.
\<close>

theorem refresh_retries_fresh_batches:
  assumes "reach service_init (service_step p) (h, t)" and "t \<le> now"
  shows "set (pending (refresh (Inr leaders) now h)) =
      {b \<in> set (pending h). pb_sent_at b \<le> now \<and> now < pb_sent_at b + 30000} \<and>
    (\<exists>sent. wire (refresh (Inr leaders) now h) = wire h @ sent \<and>
      length sent = length leaders * length (pending (refresh (Inr leaders) now h)) \<and>
      set sent = {(li_addr l, pb_txs b) | l b. l \<in> set leaders \<and> b \<in> set (pending h) \<and> now < pb_sent_at b + 30000}) \<and>
    pending (refresh (Inl e) now h) = pending h \<and> wire (refresh (Inl e) now h) = wire h"
proof -
  have inv: "service_inv (h, t)" by (rule service.inv_reach [OF assms(1)])
  then have past: "pb_sent_at b \<le> now" if "b \<in> set (pending h)" for b
    using that assms(2) by (fastforce simp: service_inv_def)
  then have fresh: "now - pb_sent_at b < PENDING_TX_TTL \<longleftrightarrow> now < pb_sent_at b + 30000"
    if "b \<in> set (pending h)" for b
    using that by (fastforce simp: PENDING_TX_TTL_def)
  have len: "length (retry_pending leaders bs) = length leaders * length bs" for bs
    by (induction bs) (simp_all add: retry_pending_def)
  have "set (retry_pending leaders bs) = {(li_addr l, pb_txs b) | l b. l \<in> set leaders \<and> b \<in> set bs}" for bs
    by (auto simp: retry_pending_def)
  moreover have "filter (\<lambda>b. now - pb_sent_at b < PENDING_TX_TTL) (pending h) =
      filter (\<lambda>b. now < pb_sent_at b + 30000) (pending h)"
    using fresh by (rule filter_cong [OF refl])
  ultimately show ?thesis using past len
    by (simp add: refresh_def Let_def) blast
qed

theorem refresh_retries_fresh_batches_witness:
  "\<exists>h :: (unit, unit) handler. reach service_init (service_step Debug) (h, 5) \<and>
     pending (refresh (Inr []) 10 h) = [\<lparr>pb_txs = [[7]], pb_sent_at = 5\<rparr>] \<and>
     pending (refresh (Inr []) 30005 h) = []"
proof -
  let ?h = "(start_handler (Inl OutofRange) :: (unit, unit) handler)
    \<lparr>l_tx := [[7]], pending := [\<lparr>pb_txs = [[7]], pb_sent_at = 5\<rparr>]\<rparr>"
  have "on_request Debug (\<lambda>_ _ _. True) 5 \<lparr>rq_count = 1, rq_list = [1], rq_data = [7]\<rparr>
      (start_handler (Inl OutofRange) :: (unit, unit) handler) = Some (Inl OutofRange, ?h)"
    by (simp add: on_request_def start_handler_def slice_simps Let_def)
  from serve_request [OF _ this, of 0] have "service_step Debug (start_handler (Inl OutofRange), 0) (?h, 5)" by simp
  then have r: "reach service_init (service_step Debug) (?h, 5)"
    by (rule reach_step [OF reach_init, rotated]) auto
  have "set (pending (refresh (Inr []) 10 ?h)) = {\<lparr>pb_txs = [[7]], pb_sent_at = 5\<rparr>}"
    "set (pending (refresh (Inr []) 30005 ?h)) = {}"
    using refresh_retries_fresh_batches [OF r, of 10 "[]" OutofRange]
      refresh_retries_fresh_batches [OF r, of 30005 "[]" OutofRange] by auto
  with r show ?thesis
    by (intro exI [of _ ?h]) (simp add: refresh_def PENDING_TX_TTL_def)
qed

text \<open>An RPC server of one leader, for the sample runs.\<close>

definition demo_rpc :: "(unit, unit) rpc_client" where
  "demo_rpc = \<lparr>get_slot = Inr 7, get_slot_leaders = (\<lambda>_ _. Inr [()]),
     get_cluster_nodes = Inr [\<lparr>node_pubkey = [], node_tpu_quic = Some \<lparr>sa_ip = (), sa_port = 8006\<rparr>, node_tpu = None\<rparr>]\<rparr>"

lemma demo_leaders:
  "get_leader_tpu_addresses Debug (\<lambda>_. Some ()) demo_rpc (Some 8) =
     Some (Inr [\<lparr>li_pubkey = (), li_slot = 7, li_addr = \<lparr>sa_ip = (), sa_port = 8006\<rparr>\<rparr>])"
  by (simp add: get_leader_tpu_addresses_def demo_rpc_def rpc_result_def tpu_map_def tpu_map_insert_def
      add_checked_def Let_def)

end
