(* ===== verification/Quic_Client.thy ===== *)
theory Quic_Client
  imports Quic
begin

text \<open>
  \<open>src/quic.rs\<close>: \<open>SolanaQuicClient\<close>, the sender behind the request handler.  The QUIC stack and its
  connection cache, the keypairs and the transaction serialiser are other crates': they are
  parameters.  The outcome of a send may depend on all sends before it, which the state lists.
\<close>

section \<open>Configuration and creation\<close>

text \<open>The timeout is in milliseconds.\<close>

record quic_client_config =
  connection_timeout :: nat
  skip_preflight :: bool
  connection_pool_size :: nat

definition default_config :: quic_client_config where
  "default_config = \<lparr>connection_timeout = 10000, skip_preflight = True, connection_pool_size = 4\<rparr>"

type_synonym 'ip sends = "('ip socket_addr \<times> u8 list list) list"

record ('key, 'pk, 'staked, 'conf, 'cache, 'ip) quic_lib =
  quic_config_new :: "string + 'conf"
  update_client_certificate :: "'key \<Rightarrow> 'conf \<Rightarrow> 'conf"
  set_staked_nodes :: "'staked \<Rightarrow> 'pk \<Rightarrow> 'conf \<Rightarrow> 'conf"
  connection_cache_new :: "string \<Rightarrow> 'conf \<Rightarrow> nat \<Rightarrow> string + 'cache"
  key_pubkey :: "'key \<Rightarrow> 'pk"
  read_keypair_file :: "string \<Rightarrow> string + 'key"
  send_data :: "'cache \<Rightarrow> 'ip sends \<Rightarrow> 'ip socket_addr \<Rightarrow> u8 list \<Rightarrow> string + unit"
  send_data_batch :: "'cache \<Rightarrow> 'ip sends \<Rightarrow> 'ip socket_addr \<Rightarrow> u8 list list \<Rightarrow> string + unit"

record ('key, 'cache) quic_client =
  qc_keypair :: 'key
  qc_config :: quic_client_config
  qc_cache :: 'cache

text \<open>\<open>map_err\<close> into a \<open>ConfigError\<close>, with the message of the step that failed.\<close>

definition config_result :: "string \<Rightarrow> string + 'a \<Rightarrow> 'a result" where
  "config_result msg r = (case r of Inl e \<Rightarrow> Inl (ConfigError (msg @ e)) | Inr x \<Rightarrow> Inr x)"

definition quic_new ::
    "('key, 'pk, 'staked, 'conf, 'cache, 'ip) quic_lib \<Rightarrow> 'key \<Rightarrow> quic_client_config option \<Rightarrow>
     ('key, 'cache) quic_client result" where
  "quic_new lib keypair config =
     (let config = (case config of Some c \<Rightarrow> c | None \<Rightarrow> default_config) in
      rbind (config_result ''Failed to create QUIC config: '' (quic_config_new lib)) (\<lambda>quic_config.
      let quic_config = update_client_certificate lib keypair quic_config in
      rbind (config_result ''Failed to create connection cache: ''
        (connection_cache_new lib ''catscope-quic-client'' quic_config (connection_pool_size config))) (\<lambda>cache.
      Inr \<lparr>qc_keypair = keypair, qc_config = config, qc_cache = cache\<rparr>)))"

definition quic_new_with_staked_nodes ::
    "('key, 'pk, 'staked, 'conf, 'cache, 'ip) quic_lib \<Rightarrow> 'key \<Rightarrow> 'staked \<Rightarrow> quic_client_config option \<Rightarrow>
     ('key, 'cache) quic_client result" where
  "quic_new_with_staked_nodes lib keypair staked_nodes config =
     (let config = (case config of Some c \<Rightarrow> c | None \<Rightarrow> default_config) in
      rbind (config_result ''Failed to create QUIC config: '' (quic_config_new lib)) (\<lambda>quic_config.
      let quic_config = update_client_certificate lib keypair quic_config;
          quic_config = set_staked_nodes lib staked_nodes (key_pubkey lib keypair) quic_config in
      rbind (config_result ''Failed to create connection cache: ''
        (connection_cache_new lib ''catscope-quic-client-staked'' quic_config (connection_pool_size config))) (\<lambda>cache.
      Inr \<lparr>qc_keypair = keypair, qc_config = config, qc_cache = cache\<rparr>)))"

definition from_keypair_file ::
    "('key, 'pk, 'staked, 'conf, 'cache, 'ip) quic_lib \<Rightarrow> string \<Rightarrow> quic_client_config option \<Rightarrow>
     ('key, 'cache) quic_client result" where
  "from_keypair_file lib keypair_path config =
     rbind (config_result ''Failed to read keypair: '' (read_keypair_file lib keypair_path))
       (\<lambda>keypair. quic_new lib keypair config)"

definition quic_pubkey ::
    "('key, 'pk, 'staked, 'conf, 'cache, 'ip) quic_lib \<Rightarrow> ('key, 'cache) quic_client \<Rightarrow> 'pk" where
  "quic_pubkey lib c = key_pubkey lib (qc_keypair c)"

section \<open>Sending\<close>

definition send_wire_transaction ::
    "('key, 'pk, 'staked, 'conf, 'cache, 'ip) quic_lib \<Rightarrow> ('key, 'cache) quic_client \<Rightarrow>
     'ip socket_addr \<Rightarrow> u8 list \<Rightarrow> 'ip sends \<Rightarrow> unit result \<times> 'ip sends" where
  "send_wire_transaction lib c tpu_addr wire_transaction w =
     (rpc_result ''QUIC send error: '' (send_data lib (qc_cache c) w tpu_addr wire_transaction),
      w @ [(tpu_addr, [wire_transaction])])"

definition send_wire_transactions_batch ::
    "('key, 'pk, 'staked, 'conf, 'cache, 'ip) quic_lib \<Rightarrow> ('key, 'cache) quic_client \<Rightarrow>
     'ip socket_addr \<Rightarrow> u8 list list \<Rightarrow> 'ip sends \<Rightarrow> unit result \<times> 'ip sends" where
  "send_wire_transactions_batch lib c tpu_addr wire_transactions w =
     (rpc_result ''QUIC batch send error: '' (send_data_batch lib (qc_cache c) w tpu_addr wire_transactions),
      w @ [(tpu_addr, wire_transactions)])"

text \<open>\<open>serialize\<close> is the serialiser of transactions.\<close>

definition send_transaction ::
    "('tx \<Rightarrow> string + u8 list) \<Rightarrow> ('key, 'pk, 'staked, 'conf, 'cache, 'ip) quic_lib \<Rightarrow>
     ('key, 'cache) quic_client \<Rightarrow> 'ip socket_addr \<Rightarrow> 'tx \<Rightarrow> 'ip sends \<Rightarrow> unit result \<times> 'ip sends" where
  "send_transaction serialize lib c tpu_addr transaction w =
     (case config_result ''Serialization error: '' (serialize transaction) of
        Inl e \<Rightarrow> (Inl e, w)
      | Inr wire_tx \<Rightarrow> send_wire_transaction lib c tpu_addr wire_tx w)"

text \<open>\<open>iter().map(..).collect::<Result<Vec<_>, _>>()\<close>: all of them, or the first error.\<close>

primrec collect_results :: "('a \<Rightarrow> 'e + 'b) \<Rightarrow> 'a list \<Rightarrow> 'e + 'b list" where
  "collect_results f [] = Inr []"
| "collect_results f (x # xs) = rbind (f x) (\<lambda>y. rbind (collect_results f xs) (\<lambda>ys. Inr (y # ys)))"

definition send_transactions_batch ::
    "('tx \<Rightarrow> string + u8 list) \<Rightarrow> ('key, 'pk, 'staked, 'conf, 'cache, 'ip) quic_lib \<Rightarrow>
     ('key, 'cache) quic_client \<Rightarrow> 'ip socket_addr \<Rightarrow> 'tx list \<Rightarrow> 'ip sends \<Rightarrow> unit result \<times> 'ip sends" where
  "send_transactions_batch serialize lib c tpu_addr transactions w =
     (case config_result ''Serialization error: '' (collect_results serialize transactions) of
        Inl e \<Rightarrow> (Inl e, w)
      | Inr wire_txs \<Rightarrow> send_wire_transactions_batch lib c tpu_addr wire_txs w)"

section \<open>What a client is\<close>

lemma config_result_eq_Inr [simp]: "config_result msg r = Inr x \<longleftrightarrow> r = Inr x"
  by (simp add: config_result_def split: sum.splits)

lemma config_result_eq_Inl [simp]: "config_result msg r = Inl e \<longleftrightarrow> (\<exists>m. r = Inl m \<and> e = ConfigError (msg @ m))"
  by (auto simp: config_result_def split: sum.splits)

text \<open>
  A client has the identity and the configuration it was asked for, staked or not, and its
  connections carry the certificate of its key; creation fails with a \<open>ConfigError\<close> only.
\<close>

lemma client_identity:
  assumes "quic_new lib keypair config = Inr c \<or> quic_new_with_staked_nodes lib keypair staked config = Inr c"
  shows "qc_keypair c = keypair \<and> quic_pubkey lib c = key_pubkey lib keypair \<and>
    qc_config c = (case config of Some c \<Rightarrow> c | None \<Rightarrow> default_config)"
  using assms
  by (auto simp: quic_new_def quic_new_with_staked_nodes_def quic_pubkey_def rbind_eq_Inr Let_def)

lemma creation_error_code:
  "from_keypair_file lib path config = Inl e \<Longrightarrow> error_code e = 6"
  "quic_new lib keypair config = Inl e \<Longrightarrow> error_code e = 6"
  "quic_new_with_staked_nodes lib keypair staked config = Inl e \<Longrightarrow> error_code e = 6"
  by (auto simp: from_keypair_file_def quic_new_def quic_new_with_staked_nodes_def rbind_eq_Inl Let_def)

section \<open>Batches\<close>

lemma collect_results_Inr:
  "collect_results f xs = Inr ys \<longleftrightarrow> map f xs = map Inr ys"
  by (induction xs arbitrary: ys) (auto simp: rbind_eq_Inr Cons_eq_map_conv)

lemma collect_results_Inl:
  "collect_results f xs = Inl e \<longleftrightarrow> (\<exists>i < length xs. f (xs ! i) = Inl e \<and> (\<forall>j < i. \<exists>y. f (xs ! j) = Inr y))"
proof (induction xs)
  case (Cons x xs)
  show ?case
  proof (cases "f x")
    case (Inl m)
    then show ?thesis by (auto simp: less_Suc_eq_0_disj nth_Cons')
  next
    case (Inr y)
    then have "collect_results f (x # xs) = Inl e \<longleftrightarrow> collect_results f xs = Inl e"
      by (auto simp: rbind_def split: sum.splits)
    also have "\<dots> \<longleftrightarrow> (\<exists>i < length (x # xs). f ((x # xs) ! i) = Inl e \<and>
        (\<forall>j < i. \<exists>y. f ((x # xs) ! j) = Inr y))"
      unfolding Cons.IH by (simp add: Inr Ex_less_Suc2 All_less_Suc2)
    finally show ?thesis .
  qed
qed simp

text \<open>
  A batch of transactions is all or nothing up to the network: if one does not serialise,
  the error of the first such is returned and nothing is sent, to anyone; otherwise all of them go
  to the leader in order in one send, whose failure is a connection error.
\<close>

lemma batch_all_or_nothing:
  "(\<forall>i e. i < length txs \<and> serialize (txs ! i) = Inl e \<and> (\<forall>j < i. \<exists>b. serialize (txs ! j) = Inr b) \<longrightarrow>
      send_transactions_batch serialize lib c addr txs w = (Inl (ConfigError (''Serialization error: '' @ e)), w)) \<and>
   (\<forall>bs. map serialize txs = map Inr bs \<longrightarrow>
      send_transactions_batch serialize lib c addr txs w =
        (case send_data_batch lib (qc_cache c) w addr bs of
           Inl e \<Rightarrow> Inl (ConnectionError (''QUIC batch send error: '' @ e)) | Inr u \<Rightarrow> Inr u,
         w @ [(addr, bs)]))"
proof (intro conjI allI impI)
  fix i e assume i: "i < length txs \<and> serialize (txs ! i) = Inl e \<and> (\<forall>j < i. \<exists>b. serialize (txs ! j) = Inr b)"
  then have "collect_results serialize txs = Inl e" unfolding collect_results_Inl by blast
  then show "send_transactions_batch serialize lib c addr txs w = (Inl (ConfigError (''Serialization error: '' @ e)), w)"
    by (simp add: send_transactions_batch_def config_result_def)
next
  fix bs assume "map serialize txs = map Inr bs"
  then have "collect_results serialize txs = Inr bs" by (simp add: collect_results_Inr)
  then show "send_transactions_batch serialize lib c addr txs w =
      (case send_data_batch lib (qc_cache c) w addr bs of
         Inl e \<Rightarrow> Inl (ConnectionError (''QUIC batch send error: '' @ e)) | Inr u \<Rightarrow> Inr u, w @ [(addr, bs)])"
    by (simp add: send_transactions_batch_def config_result_def send_wire_transactions_batch_def rpc_result_def)
qed

text \<open>A stack that accepts everything, with keys and caches of type \<open>unit\<close>.\<close>

definition open_lib :: "(unit, unit, unit, unit, unit, unit) quic_lib" where
  "open_lib = \<lparr>quic_config_new = Inr (), update_client_certificate = (\<lambda>_ c. c), set_staked_nodes = (\<lambda>_ _ c. c),
     connection_cache_new = (\<lambda>_ _ _. Inr ()), key_pubkey = (\<lambda>_. ()), read_keypair_file = (\<lambda>_. Inr ()),
     send_data = (\<lambda>_ _ _ _. Inr ()), send_data_batch = (\<lambda>_ _ _ _. Inr ())\<rparr>"

lemma batch_all_or_nothing_witness:
  "send_transactions_batch (\<lambda>n. if n = 0 then Inl ''bad'' else Inr [n]) open_lib
     \<lparr>qc_keypair = (), qc_config = default_config, qc_cache = ()\<rparr> \<lparr>sa_ip = (), sa_port = 1\<rparr> [5, 0, 7] [] =
   (Inl (ConfigError ''Serialization error: bad''), []) \<and>
   send_transactions_batch (\<lambda>n. if n = 0 then Inl ''bad'' else Inr [n]) open_lib
     \<lparr>qc_keypair = (), qc_config = default_config, qc_cache = ()\<rparr> \<lparr>sa_ip = (), sa_port = 1\<rparr> [5, 7] [] =
   (Inr (), [(\<lparr>sa_ip = (), sa_port = 1\<rparr>, [[5], [7]])])"
proof -
  let ?ser = "\<lambda>n :: u8. if n = 0 then Inl ''bad'' else Inr [n]"
  let ?c = "\<lparr>qc_keypair = (), qc_config = default_config, qc_cache = ()\<rparr>"
  have "1 < length [5 :: u8, 0, 7] \<and> ?ser ([5, 0, 7] ! 1) = Inl ''bad'' \<and> (\<forall>j < 1. \<exists>b. ?ser ([5, 0, 7] ! j) = Inr b)"
    by simp
  with batch_all_or_nothing [of "[5, 0, 7]" ?ser open_lib ?c "\<lparr>sa_ip = (), sa_port = 1\<rparr>" "[]"]
  have "send_transactions_batch ?ser open_lib ?c \<lparr>sa_ip = (), sa_port = 1\<rparr> [5, 0, 7] [] =
      (Inl (ConfigError (''Serialization error: '' @ ''bad'')), [])" by blast
  moreover have "map ?ser [5, 7] = map Inr [[5], [7]]" by simp
  with batch_all_or_nothing [of "[5, 7]" ?ser open_lib ?c "\<lparr>sa_ip = (), sa_port = 1\<rparr>" "[]"]
  have "send_transactions_batch ?ser open_lib ?c \<lparr>sa_ip = (), sa_port = 1\<rparr> [5, 7] [] =
      (Inr (), [(\<lparr>sa_ip = (), sa_port = 1\<rparr>, [[5], [7]])])" by (simp add: open_lib_def)
  ultimately show ?thesis by simp
qed

section \<open>The handler over the client\<close>

text \<open>The sends the handler makes are calls of the client's \<open>send_wire_transactions_batch\<close>.\<close>

definition client_sender ::
    "('key, 'pk, 'staked, 'conf, 'cache, 'ip) quic_lib \<Rightarrow> ('key, 'cache) quic_client \<Rightarrow> 'ip sender" where
  "client_sender lib c w addr txs = (case fst (send_wire_transactions_batch lib c addr txs w) of
     Inr _ \<Rightarrow> True | Inl _ \<Rightarrow> False)"

primrec send_each ::
    "('key, 'pk, 'staked, 'conf, 'cache, 'ip) quic_lib \<Rightarrow> ('key, 'cache) quic_client \<Rightarrow> u8 list list \<Rightarrow>
     ('ip, 'lpk) leader_tpu_info list \<Rightarrow> 'ip sends \<Rightarrow> unit result list \<times> 'ip sends" where
  "send_each lib c txs [] w = ([], w)"
| "send_each lib c txs (l # ls) w = (case send_wire_transactions_batch lib c (li_addr l) txs w of
     (r, w) \<Rightarrow> case send_each lib c txs ls w of (rs, w) \<Rightarrow> (r # rs, w))"

lemma send_each_reached:
  "reached (client_sender lib c) w txs ls = length (filter (\<lambda>r. r = Inr ()) (fst (send_each lib c txs ls w))) \<and>
   snd (send_each lib c txs ls w) = w @ map (\<lambda>l. (li_addr l, txs)) ls"
  by (induction ls arbitrary: w)
     (auto simp: client_sender_def send_wire_transactions_batch_def split_beta split: sum.splits)

text \<open>
  The request handler over the QUIC client: on a well-formed request its sends are exactly one
  call of the client per leader, in order and each after the ones before it; it answers the number
  of calls that succeeded, and an error when none did, whatever the errors of the others.
\<close>

lemma handler_sends_through_client:
  fixes lib :: "('key, 'pk, 'staked, 'conf, 'cache, 'ip) quic_lib" and h :: "('ip, 'lpk) handler"
  assumes "length (l_leader h) < 2 ^ 16" and "request_ok rq"
    and "send_each lib c (request_txs rq) (l_leader h) (wire h) = (rs, w)"
  shows "\<exists>h'. on_request p (client_sender lib c) now rq h =
      Some (if Inr () \<in> set rs then Inr (word_of_nat (length (filter (\<lambda>r. r = Inr ()) rs))) else Inl OutofRange, h') \<and>
    wire h' = w \<and> length rs = length (l_leader h)"
proof -
  have len: "length (fst (send_each lib c txs ls w)) = length ls"
    for txs w and ls :: "('ip, 'lpk) leader_tpu_info list"
    by (induction ls arbitrary: w) (simp_all add: split_beta)
  show ?thesis
    using on_request_eq [OF assms(1), of p "client_sender lib c" now rq] assms(2,3)
      len [of "request_txs rq" "l_leader h" "wire h"] send_each_reached [of lib c "wire h" "request_txs rq" "l_leader h"]
    by (auto simp: Let_def filter_empty_conv)
qed

lemma handler_sends_through_client_witness:
  "\<exists>h'. on_request Debug (client_sender open_lib \<lparr>qc_keypair = (), qc_config = default_config, qc_cache = ()\<rparr>) 5
      \<lparr>rq_count = 1, rq_list = [2], rq_data = [7, 8, 9]\<rparr>
      (start_handler (Inr [\<lparr>li_pubkey = (), li_slot = 1, li_addr = \<lparr>sa_ip = (), sa_port = 8006\<rparr>\<rparr>])) =
    Some (Inr 1, h') \<and> wire h' = [(\<lparr>sa_ip = (), sa_port = 8006\<rparr>, [[7, 8]])]"
proof -
  let ?rq = "\<lparr>rq_count = 1, rq_list = [2], rq_data = [7, 8, 9]\<rparr>"
  let ?h = "start_handler (Inr [\<lparr>li_pubkey = (), li_slot = 1, li_addr = \<lparr>sa_ip = (), sa_port = 8006\<rparr>\<rparr>])"
  let ?c = "\<lparr>qc_keypair = (), qc_config = default_config, qc_cache = ()\<rparr>"
  have ok: "request_ok ?rq" "request_txs ?rq = [[7, 8]]"
    by (simp_all add: request_ok_def request_txs_def request_ends_def)
  have h: "length (l_leader ?h) < 2 ^ 16" by (simp add: start_handler_def)
  have s: "send_each open_lib ?c (request_txs ?rq) (l_leader ?h) (wire ?h) =
      ([Inr ()], [(\<lparr>sa_ip = (), sa_port = 8006\<rparr>, [[7, 8]])])"
    by (simp add: ok(2) start_handler_def send_wire_transactions_batch_def open_lib_def rpc_result_def)
  from handler_sends_through_client [OF h ok(1) s, of Debug 5] show ?thesis by auto
qed

end
