(* ===== verification/Forwarder.thy ===== *)
theory Forwarder
  imports Errors
begin

text \<open>
  \<open>src/txfwd.rs\<close>: the request/response server of \<open>catfwd\<close>; \<open>src/write.rs\<close>: the default
  batch submission.  The shared-memory service (\<open>iceoryx2\<close>) is a parameter: what it delivers to
  the server is the input, what the server hands it the output.
\<close>

section \<open>The server\<close>

text \<open>
  A response is the handler's answer, or the one-byte code of its error
  (\<open>JobResult { r: Result<S, TxFwdErrorCode> }\<close>).  A handler that panics takes the server with it.
\<close>

definition answer_request :: "('t \<Rightarrow> 'h \<Rightarrow> ('s result \<times> 'h) exec) \<Rightarrow> 't \<Rightarrow> 'h \<Rightarrow> ((u8 + 's) \<times> 'h) exec" where
  "answer_request on_request payload h = do {
     (r, h) \<leftarrow> on_request payload h;
     ret (case r of Inr x \<Rightarrow> Inr x | Inl e \<Rightarrow> Inl (error_code e), h)
   }"

text \<open>
  One pass of the inner loop: the service delivers requests until it has none left or fails
  (\<open>receive()?\<close>); sending a response may fail too (\<open>send_copy(..)?\<close>): a delivery says whether it will.
  \<open>Inl\<close> is the error the server returns; the list holds the responses sent.
\<close>

datatype 't delivery = Request 't "string option" | Receive_Failed string

primrec serve_pass ::
    "('t \<Rightarrow> 'h \<Rightarrow> ('s result \<times> 'h) exec) \<Rightarrow> 't delivery list \<Rightarrow> 'h \<Rightarrow>
     ((string + unit) \<times> (u8 + 's) list \<times> 'h) exec" where
  "serve_pass on_request [] h = ret (Inr (), [], h)"
| "serve_pass on_request (d # ds) h = (case d of
     Receive_Failed e \<Rightarrow> ret (Inl e, [], h)
   | Request payload send_error \<Rightarrow> do {
       (r, h) \<leftarrow> answer_request on_request payload h;
       case send_error of
         Some e \<Rightarrow> ret (Inl e, [], h)
       | None \<Rightarrow> do {
           (q, rs, h) \<leftarrow> serve_pass on_request ds h;
           ret (q, r # rs, h)
         }
     })"

text \<open>
  The outer loop, one entry per turn: the shutdown flag as read at its head, and what the service
  delivers in the turn.  A server that is never shut down is still running at the end of the
  input: its result is \<open>None\<close>.
\<close>

primrec server_loop ::
    "('t \<Rightarrow> 'h \<Rightarrow> ('s result \<times> 'h) exec) \<Rightarrow> (bool \<times> 't delivery list) list \<Rightarrow> 'h \<Rightarrow>
     ((string + unit) option \<times> (u8 + 's) list \<times> 'h) exec" where
  "server_loop on_request [] h = ret (None, [], h)"
| "server_loop on_request (turn # turns) h = (case turn of (shutdown, ds) \<Rightarrow>
     if shutdown then ret (Some (Inr ()), [], h)
     else do {
       (q, rs, h) \<leftarrow> serve_pass on_request ds h;
       case q of
         Inl e \<Rightarrow> ret (Some (Inl e), rs, h)
       | Inr _ \<Rightarrow> do {
           (q, rs', h) \<leftarrow> server_loop on_request turns h;
           ret (q, rs @ rs', h)
         }
     })"

section \<open>Batch submission\<close>

text \<open>\<open>TransactionProcessor::batch\<close>: \<open>send\<close> is the implementor's, on its state \<open>w\<close>.\<close>

primrec batch :: "('d \<Rightarrow> 'w \<Rightarrow> unit result \<times> 'w) \<Rightarrow> 'd list \<Rightarrow> 'w \<Rightarrow> unit result \<times> 'w" where
  "batch send [] w = (Inr (), w)"
| "batch send (single # txs) w = (case send single w of
     (Inl e, w) \<Rightarrow> (Inl e, w)
   | (Inr _, w) \<Rightarrow> batch send txs w)"

section \<open>What the server answers\<close>

primrec answer_all :: "('t \<Rightarrow> 'h \<Rightarrow> ('s result \<times> 'h) exec) \<Rightarrow> 't list \<Rightarrow> 'h \<Rightarrow> ((u8 + 's) list \<times> 'h) exec" where
  "answer_all on_request [] h = ret ([], h)"
| "answer_all on_request (x # xs) h = do {
     (r, h) \<leftarrow> answer_request on_request x h;
     (rs, h) \<leftarrow> answer_all on_request xs h;
     ret (r # rs, h)
   }"

text \<open>A turn in which the service delivers the requests \<open>xs\<close> and sends every response.\<close>

abbreviation good_turn :: "'t list \<Rightarrow> bool \<times> 't delivery list" where
  "good_turn xs \<equiv> (False, map (\<lambda>x. Request x None) xs)"

lemma answer_all_append:
  "answer_all f (xs @ ys) h = do {
     (rs, h) \<leftarrow> answer_all f xs h; (rs', h) \<leftarrow> answer_all f ys h; ret (rs @ rs', h) }"
  by (induction xs arbitrary: h) (simp_all add: case_prod_unfold)

lemma length_answer_all: "answer_all f xs h = Some (rs, h') \<Longrightarrow> length rs = length xs"
  by (induction xs arbitrary: h rs h') (auto simp: Option.bind_eq_Some_conv)

lemma serve_pass_good:
  "serve_pass f (map (\<lambda>x. Request x None) xs) h = do { (rs, h) \<leftarrow> answer_all f xs h; ret (Inr (), rs, h) }"
  by (induction xs arbitrary: h) (simp_all add: case_prod_unfold)

lemma serve_pass_failed:
  "serve_pass f (map (\<lambda>x. Request x None) xs @ Receive_Failed e # ds) h =
     do { (rs, h) \<leftarrow> answer_all f xs h; ret (Inl e, rs, h) }"
  by (induction xs arbitrary: h) (simp_all add: case_prod_unfold)

lemma server_loop_good:
  "server_loop f (map good_turn xss @ rest) h = do {
     (rs, h) \<leftarrow> answer_all f (concat xss) h;
     (q, rs', h) \<leftarrow> server_loop f rest h;
     ret (q, rs @ rs', h) }"
  by (induction xss arbitrary: h) (simp_all add: serve_pass_good answer_all_append case_prod_unfold)

text \<open>
  While the service delivers and sends without failing, the server answers every request
  exactly once, in the order of arrival, with the handler's answer or the code of its error, until
  the turn at whose head it reads the shutdown flag; it then returns normally and takes no request
  of that turn or a later one.  A failure to receive ends it with that error, after the answers
  before it.  It panics exactly when the handler does on one of these requests.
\<close>

lemma server_answers_each_once:
  "server_loop on_request (map good_turn xss @ (True, ds) # turns) h =
     do { (rs, h) \<leftarrow> answer_all on_request (concat xss) h; ret (Some (Inr ()), rs, h) } \<and>
   server_loop on_request (map good_turn xss @
       (False, map (\<lambda>x. Request x None) ys @ Receive_Failed e # ds) # turns) h =
     do { (rs, h) \<leftarrow> answer_all on_request (concat xss @ ys) h; ret (Some (Inl e), rs, h) } \<and>
   (\<forall>rs h'. answer_all on_request (concat xss) h = Some (rs, h') \<longrightarrow> length rs = length (concat xss))"
  using length_answer_all [of on_request "concat xss" h]
  by (simp add: server_loop_good serve_pass_failed answer_all_append case_prod_unfold)

lemma server_answers_each_once_witness:
  "server_loop (\<lambda>x h. Some (if x = 0 then Inl OutofRange else Inr x, h + 1)) 
     [good_turn [4, 0], good_turn [6], (True, [Request 9 None])] (0 :: nat) =
   Some (Some (Inr ()), [Inr (4 :: nat), Inl 5, Inr 6], 3)"
proof -
  let ?f = "\<lambda>x h. Some (if x = 0 then Inl OutofRange else Inr (x :: nat), h + 1 :: nat)"
  from server_answers_each_once [of ?f "[[4, 0], [6]]" "[Request 9 None]" "[]" 0]
  show ?thesis by (simp add: answer_request_def)
qed

text \<open>
  The states of the implementor a bundle passes through, one per transaction sent, and the
  answer to each.
\<close>

primrec sends :: "('d \<Rightarrow> 'w \<Rightarrow> unit result \<times> 'w) \<Rightarrow> 'd list \<Rightarrow> 'w \<Rightarrow> 'w" where
  "sends send [] w = w"
| "sends send (d # ds) w = sends send ds (snd (send d w))"

definition send_answer :: "('d \<Rightarrow> 'w \<Rightarrow> unit result \<times> 'w) \<Rightarrow> 'd list \<Rightarrow> 'w \<Rightarrow> nat \<Rightarrow> unit result" where
  "send_answer send txs w k = fst (send (txs ! k) (sends send (take k txs) w))"

lemma send_answer_Suc [simp]:
  "send_answer send (d # ds) w (Suc k) = send_answer send ds (snd (send d w)) k"
  "send_answer send (d # ds) w 0 = fst (send d w)"
  by (simp_all add: send_answer_def)

lemma batch_ok:
  "\<forall>j < length txs. send_answer send txs w j = Inr () \<Longrightarrow>
   batch send txs w = (Inr (), sends send txs w)"
proof (induction txs arbitrary: w)
  case (Cons d ds)
  obtain r w1 where d: "send d w = (r, w1)" by fastforce
  have "send_answer send (d # ds) w 0 = Inr ()" using Cons.prems by blast
  then have "r = Inr ()" using d by simp
  moreover have "\<forall>j < length ds. send_answer send ds w1 j = Inr ()"
  proof (intro allI impI)
    fix j assume "j < length ds"
    then have "send_answer send (d # ds) w (Suc j) = Inr ()" using Cons.prems by (metis Suc_less_eq length_Cons)
    then show "send_answer send ds w1 j = Inr ()" using d by simp
  qed
  ultimately show ?case using Cons.IH d by simp
qed simp

lemma batch_error:
  "k < length txs \<Longrightarrow> send_answer send txs w k = Inl e \<Longrightarrow>
   \<forall>j < k. send_answer send txs w j = Inr () \<Longrightarrow>
   batch send txs w = (Inl e, sends send (take (Suc k) txs) w)"
proof (induction txs arbitrary: w k)
  case (Cons d ds)
  obtain r w1 where d: "send d w = (r, w1)" by fastforce
  show ?case
  proof (cases k)
    case 0
    then show ?thesis using Cons.prems d by simp
  next
    case (Suc n)
    then have "r = Inr ()" using Cons.prems(3) d by (metis send_answer_Suc(2) fst_conv zero_less_Suc)
    moreover have "\<forall>j < n. send_answer send ds w1 j = Inr ()"
      using Cons.prems(3) d Suc by (metis send_answer_Suc(1) snd_conv Suc_less_eq)
    ultimately show ?thesis using Cons.IH [of n w1] Cons.prems(1,2) d Suc by simp
  qed
qed simp

text \<open>
  The default \<open>batch\<close> sends the transactions in order up to the first that fails and returns
  that error; it succeeds exactly when all of them do, and then it has sent all of them.
\<close>

lemma batch_stops_at_first_error:
  "((\<forall>j < length txs. send_answer send txs w j = Inr ()) \<longrightarrow>
      batch send txs w = (Inr (), sends send txs w)) \<and>
   (k < length txs \<and> send_answer send txs w k = Inl e \<and>
      (\<forall>j < k. send_answer send txs w j = Inr ()) \<longrightarrow>
      batch send txs w = (Inl e, sends send (take (Suc k) txs) w))"
  by (rule conjI; rule impI) (rule batch_ok, assumption, elim conjE, rule batch_error, assumption+)

lemma batch_stops_at_first_error_witness:
  "batch (\<lambda>d w. (if d = 0 then Inl BufferFull else Inr (), w @ [d])) [5, 0, 7 :: nat] [] = (Inl BufferFull, [5, 0])"
proof -
  let ?send = "\<lambda>d w. (if d = 0 then Inl BufferFull else Inr (), w @ [d :: nat])"
  have a: "send_answer ?send [5, 0, 7] [] 1 = Inl BufferFull" "send_answer ?send [5, 0, 7] [] 0 = Inr ()"
    by (simp_all add: send_answer_def)
  then have "1 < length [5, 0, 7 :: nat] \<and> send_answer ?send [5, 0, 7] [] 1 = Inl BufferFull \<and>
      (\<forall>j < 1. send_answer ?send [5, 0, 7] [] j = Inr ())" by simp
  from mp [OF conjunct2 [OF batch_stops_at_first_error] this] show ?thesis by simp
qed

end
