(* ===== verification/Catfwd.thy ===== *)
theory Catfwd
  imports Quic_Client Forwarder
begin

text \<open>
  \<open>src/bin/catfwd.rs\<close>: the forwarder process, from its environment variables to the end of the
  server, with the construction of the shared-memory service in \<open>src/txfwd.rs\<close>.  The environment,
  the signal handler, the key file, the RPC server and the service library are parameters.
\<close>

section \<open>The service\<close>

record ('node, 'name, 'service, 'server) ipc_lib =
  node_create :: "bool \<Rightarrow> string + 'node"
  service_name_new :: "string \<Rightarrow> string + 'name"
  open_or_create :: "'node \<Rightarrow> 'name \<Rightarrow> nat \<Rightarrow> nat \<Rightarrow> string + 'service"
  server_create :: "'service \<Rightarrow> string + 'server"

text \<open>
  \<open>name\<close> is the path as text, \<open>None\<close> if it is none: \<open>to_str().unwrap()\<close> then panics, after the node was
  created, with \<open>cleanup_dead_nodes_on_creation\<close> set.
\<close>

definition server_setup ::
    "('node, 'name, 'service, 'server) ipc_lib \<Rightarrow> string option \<Rightarrow> nat \<Rightarrow> (string + 'server) exec" where
  "server_setup ipc name max_client = (case node_create ipc True of
     Inl e \<Rightarrow> ret (Inl e)
   | Inr node \<Rightarrow> do {
       name \<leftarrow> name;
       ret (rbind (service_name_new ipc name) (\<lambda>sn.
            rbind (open_or_create ipc node sn max_client 256) (\<lambda>service. server_create ipc service)))
     })"

definition server ::
    "('node, 'name, 'service, 'server) ipc_lib \<Rightarrow> string option \<Rightarrow> ('t \<Rightarrow> 'h \<Rightarrow> ('s result \<times> 'h) exec) \<Rightarrow> nat \<Rightarrow>
     (bool \<times> 't delivery list) list \<Rightarrow> 'h \<Rightarrow> ((string + unit) option \<times> (u8 + 's) list \<times> 'h) exec" where
  "server ipc name handle max_client turns h = do {
     r \<leftarrow> server_setup ipc name max_client;
     case r of
       Inl e \<Rightarrow> ret (Some (Inl e), [], h)
     | Inr s \<Rightarrow> server_loop handle turns h
   }"

section \<open>The number of clients\<close>

text \<open>\<open>str::parse::<usize>\<close>: an optional plus sign and decimal digits, at least one, below \<open>2 ^ 64\<close>.\<close>

primrec parse_digits :: "nat \<Rightarrow> string \<Rightarrow> nat option" where
  "parse_digits acc [] = Some acc"
| "parse_digits acc (c # cs) = (let d = of_char c in
     if d < 48 \<or> 57 < d then None
     else let acc = acc * 10 + (d - 48) in if acc < 2 ^ 64 then parse_digits acc cs else None)"

definition parse_usize :: "string \<Rightarrow> nat option" where
  "parse_usize s = (let digits = (if take 1 s = ''+'' then drop 1 s else s) in
     if digits = [] then None else parse_digits 0 digits)"

definition max_clients :: "string option \<Rightarrow> nat exec" where
  "max_clients var = (case var of Some x \<Rightarrow> parse_usize x | None \<Rightarrow> ret 6)"

section \<open>The process\<close>

record 'key process_env =
  env_var :: "string \<Rightarrow> string option"
  read_key :: "string \<Rightarrow> string + 'key"
  register_signals :: "string + unit"

definition catfwd_config :: quic_client_config where
  "catfwd_config = \<lparr>connection_timeout = 1000, skip_preflight = True, connection_pool_size = 2\<rparr>"

text \<open>
  \<open>rpc\<close> is the RPC server behind a URL; \<open>retry_lib\<close> the library as the second client, of the retry
  thread, meets it.  A request comes with its time.  The result is how \<open>server\<close> ended, if it did,
  the responses and the handler; \<open>main\<close> unwraps it, so an \<open>Inl\<close> is a panic of the process after the
  responses.
\<close>

definition catfwd_main ::
    "profile \<Rightarrow> (string \<Rightarrow> 'pk option) \<Rightarrow> (string \<Rightarrow> ('ip, 'pk) rpc_client) \<Rightarrow>
     ('key, 'kp, 'staked, 'conf, 'cache, 'ip) quic_lib \<Rightarrow> ('key, 'kp, 'staked, 'conf, 'cache, 'ip) quic_lib \<Rightarrow>
     ('node, 'name, 'service, 'server) ipc_lib \<Rightarrow> 'key process_env \<Rightarrow>
     (bool \<times> (nat \<times> transaction_request) delivery list) list \<Rightarrow>
     ((string + unit) option \<times> (u8 + u16) list \<times> ('ip, 'pk) handler) exec" where
  "catfwd_main p parse rpc lib retry_lib ipc env turns = do {
     u \<leftarrow> unwrap (register_signals env);
     rpc_url \<leftarrow> env_var env ''RPC_URL'';
     key_path \<leftarrow> env_var env ''KEYPAIR'';
     keypair \<leftarrow> unwrap (read_key env key_path);
     quic_client \<leftarrow> unwrap (quic_new lib keypair (Some catfwd_config));
     initial \<leftarrow> get_leader_tpu_addresses p parse (rpc rpc_url) (Some 8);
     handler \<leftarrow> unwrap (new_handler initial
       (quic_new retry_lib (qc_keypair quic_client) (Some (qc_config quic_client))));
     path \<leftarrow> env_var env ''BUFFER_PATH'';
     max_client \<leftarrow> max_clients (env_var env ''MAX_CLIENT'');
     server ipc (Some path) (\<lambda>(now, rq). on_request p (client_sender lib quic_client) now rq) max_client turns handler
   }"

lemma parse_digits_bound: "parse_digits acc s = Some n \<Longrightarrow> acc < 2 ^ 64 \<Longrightarrow> n < 2 ^ 64"
  by (induction s arbitrary: acc) (auto simp: Let_def split: if_splits)

lemma max_clients_fits: "max_clients v = Some n \<Longrightarrow> n < 2 ^ 64"
  using parse_digits_bound [of 0 _ n]
  by (auto simp: max_clients_def parse_usize_def Let_def split: option.splits if_splits)

section \<open>How a server ends\<close>

lemma serve_pass_ok:
  "serve_pass f ds h = Some (Inr (), rs, h') \<Longrightarrow>
   \<exists>xs. ds = map (\<lambda>x. Request x None) xs \<and> length rs = length xs"
proof (induction ds arbitrary: h rs)
  case (Cons d ds)
  then obtain x rs' h1 r where x: "d = Request x None" "serve_pass f ds h1 = Some (Inr (), rs', h')" "rs = r # rs'"
    by (auto simp: Option.bind_eq_Some_conv split: delivery.splits option.splits)
  from Cons.IH [OF x(2)] obtain xs where "ds = map (\<lambda>x. Request x None) xs" "length rs' = length xs" by blast
  with x show ?case by (intro exI [of _ "x # xs"]) simp
qed simp

lemma server_loop_turn:
  assumes "server_loop f (turn # turns) h = Some (r, rs, h')" and "\<forall>e. r \<noteq> Some (Inl e)"
  shows "(\<exists>ds. turn = (True, ds) \<and> r = Some (Inr ()) \<and> rs = []) \<or>
    (\<exists>xs rs1 rs2 h1. turn = good_turn xs \<and> rs = rs1 @ rs2 \<and> length rs1 = length xs \<and>
      server_loop f turns h1 = Some (r, rs2, h'))"
proof (cases "fst turn")
  case True
  then show ?thesis using assms by (cases turn) auto
next
  case False
  then obtain q rs1 h1 where p: "turn = (False, snd turn)" "serve_pass f (snd turn) h = Some (q, rs1, h1)"
    using assms(1) by (cases turn) (auto simp: Option.bind_eq_Some_conv)
  with assms have q: "q = Inr ()" by (cases turn; cases q) (auto simp: Option.bind_eq_Some_conv)
  then obtain rs2 where "server_loop f turns h1 = Some (r, rs2, h')" "rs = rs1 @ rs2"
    using assms(1) p by (cases turn) (auto simp: Option.bind_eq_Some_conv)
  moreover obtain xs where "snd turn = map (\<lambda>x. Request x None) xs" "length rs1 = length xs"
    using serve_pass_ok [OF p(2) [unfolded q]] by blast
  ultimately show ?thesis using p(1) by metis
qed

lemma server_returns:
  "server_loop f turns h = Some (Some (Inr u), rs, h') \<Longrightarrow>
   \<exists>xss ds rest. turns = map good_turn xss @ (True, ds) # rest \<and> length rs = length (concat xss)"
proof (induction turns arbitrary: h rs)
  case (Cons turn turns)
  from server_loop_turn [OF Cons.prems] consider (stop) ds where "turn = (True, ds)" "rs = []"
    | (go) xs rs1 rs2 h1 where "turn = good_turn xs" "rs = rs1 @ rs2" "length rs1 = length xs"
        "server_loop f turns h1 = Some (Some (Inr u), rs2, h')" by auto
  then show ?case
  proof cases
    case stop
    then show ?thesis by (intro exI [of _ "[]"] exI [of _ ds] exI [of _ turns]) simp
  next
    case go
    from Cons.IH [OF go(4)] obtain xss ds rest where
      "turns = map good_turn xss @ (True, ds) # rest" "length rs2 = length (concat xss)" by blast
    with go show ?thesis by (intro exI [of _ "xs # xss"] exI [of _ ds] exI [of _ rest]) simp
  qed
qed simp

lemma server_runs_on:
  "server_loop f turns h = Some (None, rs, h') \<Longrightarrow>
   \<exists>xss. turns = map good_turn xss \<and> length rs = length (concat xss)"
proof (induction turns arbitrary: h rs)
  case (Cons turn turns)
  from server_loop_turn [OF Cons.prems] obtain xs rs1 rs2 h1 where go: "turn = good_turn xs" "rs = rs1 @ rs2"
    "length rs1 = length xs" "server_loop f turns h1 = Some (None, rs2, h')" by auto
  from Cons.IH [OF go(4)] obtain xss where "turns = map good_turn xss" "length rs2 = length (concat xss)" by blast
  with go show ?case by (intro exI [of _ "xs # xss"]) simp
qed simp

text \<open>
  The process gets as far as serving only when it is configured: \<open>RPC_URL\<close>, \<open>KEYPAIR\<close> and
  \<open>BUFFER_PATH\<close> are set, the key file reads, the QUIC clients are created and \<open>MAX_CLIENT\<close> is a
  number or absent, which counts as six.  It returns normally only when it read its shutdown flag
  at the head of a turn, having answered every request of the turns before, and otherwise it is
  still answering every request.
\<close>

lemma catfwd_returns_on_shutdown:
  assumes "catfwd_main p parse rpc lib retry_lib ipc env turns = Some (r, rs, h)"
  shows "(\<exists>url key_path key path c n. env_var env ''RPC_URL'' = Some url \<and> env_var env ''KEYPAIR'' = Some key_path \<and>
      read_key env key_path = Inr key \<and> quic_new lib key (Some catfwd_config) = Inr c \<and>
      env_var env ''BUFFER_PATH'' = Some path \<and> n < 2 ^ 64 \<and>
      (case env_var env ''MAX_CLIENT'' of None \<Rightarrow> n = 6 | Some x \<Rightarrow> parse_usize x = Some n) \<and>
      ((\<forall>e. r \<noteq> Some (Inl e)) \<longrightarrow> (\<exists>srv. server_setup ipc (Some path) n = Some (Inr srv)))) \<and>
    (r = Some (Inr ()) \<longrightarrow>
      (\<exists>xss ds rest. turns = map good_turn xss @ (True, ds) # rest \<and> length rs = length (concat xss))) \<and>
    (r = None \<longrightarrow> (\<exists>xss. turns = map good_turn xss \<and> length rs = length (concat xss)))"
proof -
  obtain url key_path key c initial h0 path n where m: "env_var env ''RPC_URL'' = Some url"
    "env_var env ''KEYPAIR'' = Some key_path" "read_key env key_path = Inr key"
    "quic_new lib key (Some catfwd_config) = Inr c" "env_var env ''BUFFER_PATH'' = Some path"
    "max_clients (env_var env ''MAX_CLIENT'') = Some n"
    "server ipc (Some path) (\<lambda>(now, rq). on_request p (client_sender lib c) now rq) n turns h0 = Some (r, rs, h)"
    using assms by (auto simp: catfwd_main_def Option.bind_eq_Some_conv)
  then obtain s where s: "server_setup ipc (Some path) n = Some s"
    by (auto simp: server_def Option.bind_eq_Some_conv)
  let ?f = "\<lambda>(now, rq). on_request p (client_sender lib c) now rq"
  have ended: "case s of Inl e \<Rightarrow> r = Some (Inl e) | Inr srv \<Rightarrow> server_loop ?f turns h0 = Some (r, rs, h)"
    using m(7) unfolding server_def s by (cases s) simp_all
  then have run: "server_loop ?f turns h0 = Some (r, rs, h)" if "\<forall>e. r \<noteq> Some (Inl e)"
    using that by (cases s) simp_all
  have srv: "\<exists>srv. s = Inr srv" if "\<forall>e. r \<noteq> Some (Inl e)"
    using ended that by (cases s) simp_all
  have conf: "n < 2 ^ 64" "case env_var env ''MAX_CLIENT'' of None \<Rightarrow> n = 6 | Some x \<Rightarrow> parse_usize x = Some n"
    using m(6) max_clients_fits [OF m(6)] by (auto simp: max_clients_def split: option.splits)
  have "\<exists>srv. server_setup ipc (Some path) n = Some (Inr srv)" if "\<forall>e. r \<noteq> Some (Inl e)"
    using srv [OF that] s by auto
  moreover have "\<exists>xss ds rest. turns = map good_turn xss @ (True, ds) # rest \<and> length rs = length (concat xss)"
    if "r = Some (Inr ())"
    using server_returns [of ?f turns h0 "()" rs h] run that by simp
  moreover have "\<exists>xss. turns = map good_turn xss \<and> length rs = length (concat xss)" if "r = None"
    using server_runs_on [of ?f turns h0 rs h] run that by simp
  moreover have "\<exists>url key_path key path c n. env_var env ''RPC_URL'' = Some url \<and>
      env_var env ''KEYPAIR'' = Some key_path \<and> read_key env key_path = Inr key \<and>
      quic_new lib key (Some catfwd_config) = Inr c \<and> env_var env ''BUFFER_PATH'' = Some path \<and> n < 2 ^ 64 \<and>
      (case env_var env ''MAX_CLIENT'' of None \<Rightarrow> n = 6 | Some x \<Rightarrow> parse_usize x = Some n) \<and>
      ((\<forall>e. r \<noteq> Some (Inl e)) \<longrightarrow> (\<exists>srv. server_setup ipc (Some path) n = Some (Inr srv)))"
    if up: "(\<exists>e. r = Some (Inl e)) \<or> (\<exists>srv. server_setup ipc (Some path) n = Some (Inr srv))"
    by (rule exI [of _ url], rule exI [of _ key_path], rule exI [of _ key], rule exI [of _ path], rule exI [of _ c],
        rule exI [of _ n]) (use m(1-5) conf up in auto)
  ultimately show ?thesis by blast
qed

text \<open>A process environment and a service library in which everything is there.\<close>

definition demo_env :: "unit process_env" where
  "demo_env = \<lparr>env_var = (\<lambda>x. if x = ''MAX_CLIENT'' then None else Some x), read_key = (\<lambda>_. Inr ()),
     register_signals = Inr ()\<rparr>"

definition demo_ipc :: "(unit, unit, unit, unit) ipc_lib" where
  "demo_ipc = \<lparr>node_create = (\<lambda>_. Inr ()), service_name_new = (\<lambda>_. Inr ()),
     open_or_create = (\<lambda>_ _ _ _. Inr ()), server_create = (\<lambda>_. Inr ())\<rparr>"

lemma demo_facts:
  "quic_new open_lib () (Some catfwd_config) = Inr \<lparr>qc_keypair = (), qc_config = catfwd_config, qc_cache = ()\<rparr>"
  "server_setup demo_ipc (Some ''BUFFER_PATH'') 6 = Some (Inr ())"
  by (simp_all add: quic_new_def open_lib_def config_result_def server_setup_def demo_ipc_def Let_def)

lemma catfwd_returns_on_shutdown_witness:
  "\<exists>rs h. catfwd_main Debug (\<lambda>_. Some ()) (\<lambda>_. demo_rpc) open_lib open_lib demo_ipc demo_env
      [good_turn [(5, \<lparr>rq_count = 1, rq_list = [2], rq_data = [7, 8, 9]\<rparr>)], (True, [])] = Some (Some (Inr ()), rs, h) \<and>
    length rs = 1"
proof -
  let ?rq = "\<lparr>rq_count = 1, rq_list = [2], rq_data = [7, 8, 9]\<rparr>"
  have ok: "request_ok ?rq" by (simp add: request_ok_def request_ends_def)
  let ?c = "\<lparr>qc_keypair = (), qc_config = catfwd_config, qc_cache = ()\<rparr>"
  let ?h = "start_handler (Inr [\<lparr>li_pubkey = (), li_slot = 7, li_addr = \<lparr>sa_ip = (), sa_port = 8006\<rparr>\<rparr>])"
  have h: "length (l_leader ?h) < 2 ^ 16" by (simp add: start_handler_def)
  obtain r h' where run: "on_request Debug (client_sender open_lib ?c) 5 ?rq ?h = Some (r, h')"
    using on_request_eq [OF h, of Debug "client_sender open_lib ?c" 5 ?rq] ok by (simp add: Let_def)
  have main: "\<exists>rs h. catfwd_main Debug (\<lambda>_. Some ()) (\<lambda>_. demo_rpc) open_lib open_lib demo_ipc demo_env
      [good_turn [(5, ?rq)], (True, [])] = Some (Some (Inr ()), rs, h)"
    using run by (cases r) (simp_all add: catfwd_main_def demo_env_def demo_facts demo_leaders new_handler_def max_clients_def
        server_def answer_request_def)
  then obtain rs h where m: "catfwd_main Debug (\<lambda>_. Some ()) (\<lambda>_. demo_rpc) open_lib open_lib demo_ipc demo_env
      [good_turn [(5, ?rq)], (True, [])] = Some (Some (Inr ()), rs, h)" by blast
  from catfwd_returns_on_shutdown [OF m] obtain xss ds rest where
    x: "[good_turn [(5 :: nat, ?rq)], (True, [])] = map good_turn xss @ (True, ds) # rest" "length rs = length (concat xss)" by auto
  then have "length (concat xss) = 1" by (cases xss; cases "tl xss") auto
  with m x(2) show ?thesis by auto
qed

end
