(* ===== verification/Error_Text.thy ===== *)
theory Error_Text
  imports Errors
begin

text \<open>
  \<open>src/err.rs\<close>: the text of an error, as \<open>Debug\<close> and \<open>Display\<close> print it.  A character stands for the
  code point of its number; \<open>{:?}\<close> of a string is Rust's, on these code points.
\<close>

section \<open>Quoted strings\<close>

definition hex_digit :: "nat \<Rightarrow> char" where
  "hex_digit n = ''0123456789abcdef'' ! n"

definition lower_hex :: "nat \<Rightarrow> string" where
  "lower_hex n = (if n < 16 then [hex_digit n] else [hex_digit (n div 16), hex_digit (n mod 16)])"

text \<open>
  Backslash escapes; what is not printable, blanks other than the space included, by its number.
\<close>

definition escape_char :: "char \<Rightarrow> string" where
  "escape_char c = (let n = of_char c :: nat in
     if n = 0 then [CHR 0x5C, CHR ''0'']
     else if n = 9 then [CHR 0x5C, CHR ''t'']
     else if n = 10 then [CHR 0x5C, CHR ''n'']
     else if n = 13 then [CHR 0x5C, CHR ''r'']
     else if n = 34 \<or> n = 92 then [CHR 0x5C, c]
     else if n < 32 \<or> 127 \<le> n \<and> n \<le> 160 \<or> n = 173 then [CHR 0x5C, CHR ''u'', CHR 0x7B] @ lower_hex n @ [CHR 0x7D]
     else [c])"

definition debug_str :: "string \<Rightarrow> string" where
  "debug_str s = CHR 0x22 # concat (map escape_char s) @ [CHR 0x22]"

text \<open>\<open>f.debug_tuple(name)\<close> with its fields: the name alone when there is none.\<close>

fun debug_tuple :: "string \<Rightarrow> string list \<Rightarrow> string" where
  "debug_tuple name [] = name"
| "debug_tuple name (x # xs) = name @ ''('' @ x @ concat (map (\<lambda>y. '', '' @ y) xs) @ '')''"

section \<open>The two impls\<close>

fun error_debug :: "zerohop_error \<Rightarrow> string" where
  "error_debug (Unknown arg0) = debug_tuple ''Unknown'' [debug_str arg0]"
| "error_debug NotImplemented = debug_tuple ''Not implemented'' []"
| "error_debug UnalignedMemory = debug_tuple ''UnalignedMemory'' []"
| "error_debug OutofRange = debug_tuple ''OutofRange'' []"
| "error_debug (TransactionFailure e) = ''TransactionFailure '' @ e"
| "error_debug (ConfigError msg) = debug_tuple ''ConfigError'' [debug_str msg]"
| "error_debug (ConnectionError msg) = debug_tuple ''ConnectionError'' [debug_str msg]"
| "error_debug ConnectionCanceled = debug_tuple ''ConnectionCanceled'' []"
| "error_debug BufferFull = debug_tuple ''BufferFull'' []"

fun error_display :: "zerohop_error \<Rightarrow> string" where
  "error_display (Unknown arg0) = debug_tuple ''Unknown'' [debug_str arg0]"
| "error_display NotImplemented = debug_tuple ''Not implemented'' []"
| "error_display UnalignedMemory = debug_tuple ''UnalignedMemory'' []"
| "error_display OutofRange = debug_tuple ''OutofRange'' []"
| "error_display (TransactionFailure e) = ''TransactionFailure '' @ e"
| "error_display (ConfigError msg) = debug_tuple ''ConfigError'' [debug_str msg]"
| "error_display (ConnectionError msg) = debug_tuple ''ConnectionError'' [debug_str msg]"
| "error_display ConnectionCanceled = debug_tuple ''ConnectionCanceled'' []"
| "error_display BufferFull = debug_tuple ''BufferFull'' []"

section \<open>Reading a text back\<close>

text \<open>The first character of an escaped text, and the rest.\<close>

definition unhex :: "char \<Rightarrow> nat" where
  "unhex c = (let n = of_char c in if n < 58 then n - 48 else n - 87)"

fun read_hex :: "nat \<Rightarrow> string \<Rightarrow> (nat \<times> string) option" where
  "read_hex n [] = None"
| "read_hex n (c # cs) = (if c = CHR 0x7D then Some (n, cs) else read_hex (16 * n + unhex c) cs)"

definition read_char :: "string \<Rightarrow> (char \<times> string) option" where
  "read_char s = (case s of
     [] \<Rightarrow> None
   | c # cs \<Rightarrow> if c \<noteq> CHR 0x5C then Some (c, cs) else (case cs of
       [] \<Rightarrow> None
     | d # ds \<Rightarrow>
         if d = CHR ''0'' then Some (CHR 0x00, ds)
         else if d = CHR ''t'' then Some (CHR 0x09, ds)
         else if d = CHR ''n'' then Some (CHR 0x0A, ds)
         else if d = CHR ''r'' then Some (CHR 0x0D, ds)
         else if d = CHR ''u'' then map_option (\<lambda>(n, r). (char_of n, r)) (read_hex 0 (drop 1 ds))
         else Some (d, ds)))"

lemma hex_cases: "n < 16 \<Longrightarrow> n \<in> {0, 1, 2, 3, 4, 5, 6, 7, 8, 9, 10, 11, 12, 13, 14, 15 :: nat}"
  by simp presburger

lemma unhex_digit: "n < 16 \<Longrightarrow> unhex (hex_digit n) = n \<and> hex_digit n \<noteq> CHR 0x7D"
  by (drule hex_cases) (auto simp: unhex_def hex_digit_def)

lemma read_lower_hex: "n < 256 \<Longrightarrow> read_hex 0 (lower_hex n @ CHR 0x7D # r) = Some (n, r)"
  using unhex_digit [of n] unhex_digit [of "n div 16"] unhex_digit [of "n mod 16"]
  by (auto simp: lower_hex_def)

lemma special_chars [simp]:
  "of_char c = (0 :: nat) \<longleftrightarrow> c = CHR 0x00" "of_char c = (9 :: nat) \<longleftrightarrow> c = CHR 0x09"
  "of_char c = (10 :: nat) \<longleftrightarrow> c = CHR 0x0A" "of_char c = (13 :: nat) \<longleftrightarrow> c = CHR 0x0D"
  "of_char c = (34 :: nat) \<longleftrightarrow> c = CHR 0x22" "of_char c = (92 :: nat) \<longleftrightarrow> c = CHR 0x5C"
  using of_char_eq_iff [of c "CHR 0x00", where ?'a = nat] of_char_eq_iff [of c "CHR 0x09", where ?'a = nat]
    of_char_eq_iff [of c "CHR 0x0A", where ?'a = nat] of_char_eq_iff [of c "CHR 0x0D", where ?'a = nat]
    of_char_eq_iff [of c "CHR 0x22", where ?'a = nat] of_char_eq_iff [of c "CHR 0x5C", where ?'a = nat]
  by simp_all

lemma read_escaped: "read_char (escape_char c @ r) = Some (c, r)"
proof -
  consider "c \<in> {CHR 0x00, CHR 0x09, CHR 0x0A, CHR 0x0D, CHR 0x22, CHR 0x5C}"
    | "c \<notin> {CHR 0x00, CHR 0x09, CHR 0x0A, CHR 0x0D, CHR 0x22, CHR 0x5C}" by blast
  then show ?thesis
  proof cases
    case 1
    then show ?thesis by (auto simp: escape_char_def read_char_def)
  next
    case 2
    then show ?thesis using read_lower_hex [of "of_char c" r]
      by (simp add: escape_char_def read_char_def Let_def)
  qed
qed

lemma escaped_not_quote: "escape_char c @ r \<noteq> CHR 0x22 # t"
proof
  assume eq: "escape_char c @ r = CHR 0x22 # t"
  have "read_char (CHR 0x22 # t) = Some (c, r)" unfolding eq [symmetric] by (rule read_escaped)
  then have "c = CHR 0x22" by (simp add: read_char_def)
  then show False using eq by (simp add: escape_char_def)
qed

lemma quoted_inject:
  "concat (map escape_char s) @ CHR 0x22 # r = concat (map escape_char s') @ CHR 0x22 # r' \<Longrightarrow> s = s' \<and> r = r'"
proof (induction s arbitrary: s')
  case Nil
  show ?case
  proof (cases s')
    case (Cons c' s'')
    then show ?thesis using Nil escaped_not_quote [of c' "concat (map escape_char s'') @ CHR 0x22 # r'" r] by simp
  qed (use Nil in simp)
next
  case (Cons c s)
  let ?x = "concat (map escape_char s) @ CHR 0x22 # r"
  show ?case
  proof (cases s')
    case Nil
    then show ?thesis using Cons.prems escaped_not_quote [of c ?x r'] by simp
  next
    case s': (Cons c' s'')
    let ?y = "concat (map escape_char s'') @ CHR 0x22 # r'"
    have "escape_char c @ ?x = escape_char c' @ ?y" using Cons.prems s' by simp
    then have "read_char (escape_char c @ ?x) = read_char (escape_char c' @ ?y)" by (rule arg_cong)
    then have "c = c'" "?x = ?y" unfolding read_escaped by simp_all
    with Cons.IH [of s''] s' show ?thesis by simp
  qed
qed

lemma debug_str_eq [simp]: "debug_str s = debug_str s' \<longleftrightarrow> s = s'"
  using quoted_inject [of s "[]" s' "[]"] by (auto simp: debug_str_def)

text \<open>
  An error prints the same under \<open>Debug\<close> and \<open>Display\<close>, and its text identifies it, message
  included: no message, whatever quotes or brackets it holds, makes two errors print alike.
\<close>

lemma error_text_identifies:
  "error_display a = error_debug a \<and> (error_debug a = error_debug b \<longleftrightarrow> a = b)"
proof
  show "error_display a = error_debug a" by (cases a) simp_all
  show "error_debug a = error_debug b \<longleftrightarrow> a = b" by (cases a; cases b) simp_all
qed

end
