(* ===== verification/Background.thy ===== *)
theory Background
  imports Quic
begin

text \<open>
  \<open>src/quic.rs\<close>: the background thread of \<open>QuicRequestHandler\<close> with its stop flag, and the drop of
  the handler, which sets the flag and joins the thread.
\<close>

section \<open>The thread\<close>

text \<open>
  Where the thread stands: about to check the flag with some 50 ms sleeps left before the next
  refresh, about to refresh, returned, or dead of a panic in the leader query.
\<close>

datatype bg_pc = Sleeping nat | Refreshing | Stopped | Panicked

text \<open>The handler is served, being dropped (its \<open>drop\<close> waits for the thread), or gone.\<close>

datatype owner = Serving | Dropping | Dropped

record ('ip, 'pk) quic_service =
  qs_handler :: "('ip, 'pk) handler"
  qs_stop :: bool
  qs_pc :: bg_pc
  qs_owner :: owner
  qs_clock :: nat

text \<open>What \<open>new\<close> leaves running: the thread enters its loop with its first interval.\<close>

definition spawn_background :: "nat \<Rightarrow> ('ip, 'pk) handler \<Rightarrow> ('ip, 'pk) quic_service" where
  "spawn_background now h = \<lparr>qs_handler = h, qs_stop = False, qs_pc = Sleeping (unat (sleep_steps h)),
     qs_owner = Serving, qs_clock = now\<rparr>"

text \<open>One action of the thread at time \<open>now\<close>, with what the RPC client answers if it asks.\<close>

definition bg_action ::
    "profile \<Rightarrow> (string \<Rightarrow> 'pk option) \<Rightarrow> ('ip, 'pk) rpc_client \<Rightarrow> nat \<Rightarrow> ('ip, 'pk) quic_service \<Rightarrow>
     ('ip, 'pk) quic_service" where
  "bg_action p parse rpc now s = (let s = s\<lparr>qs_clock := now\<rparr> in
     case qs_pc s of
       Sleeping 0 \<Rightarrow> s\<lparr>qs_pc := Refreshing\<rparr>
     | Sleeping (Suc k) \<Rightarrow> if qs_stop s then s\<lparr>qs_pc := Stopped\<rparr> else s\<lparr>qs_pc := Sleeping k\<rparr>
     | Refreshing \<Rightarrow> (case get_leader_tpu_addresses p parse rpc (Some 8) of
           None \<Rightarrow> s\<lparr>qs_pc := Panicked\<rparr>
         | Some answer \<Rightarrow> let h = refresh answer now (qs_handler s) in
             s\<lparr>qs_handler := h, qs_pc := Sleeping (unat (sleep_steps h))\<rparr>)
     | Stopped \<Rightarrow> s
     | Panicked \<Rightarrow> s)"

definition bg_running :: "bg_pc \<Rightarrow> bool" where
  "bg_running pc \<longleftrightarrow> pc \<noteq> Stopped \<and> pc \<noteq> Panicked"

section \<open>The handler's owner\<close>

definition drop_handler :: "('ip, 'pk) quic_service \<Rightarrow> ('ip, 'pk) quic_service" where
  "drop_handler s = s\<lparr>qs_stop := True, qs_owner := Dropping\<rparr>"

text \<open>
  The interleavings.  A request that panics leaves the handler half-way (any queue, any wire; the
  leaders and the interval are the background thread's), and the unwinding drops it; joining a
  thread that died is no error (\<open>let _ = t.join()\<close>).
\<close>

inductive quic_step ::
    "profile \<Rightarrow> (string \<Rightarrow> 'pk option) \<Rightarrow> ('ip, 'pk) quic_service \<Rightarrow> ('ip, 'pk) quic_service \<Rightarrow> bool"
  for p parse where
  thread_acts: "bg_running (qs_pc s) \<Longrightarrow> qs_clock s \<le> now \<Longrightarrow> quic_step p parse s (bg_action p parse rpc now s)"
| request: "qs_owner s = Serving \<Longrightarrow> qs_clock s \<le> now \<Longrightarrow>
     on_request p send now rq (qs_handler s) = Some (r, h) \<Longrightarrow>
     quic_step p parse s (s\<lparr>qs_handler := h, qs_clock := now\<rparr>)"
| request_panics: "qs_owner s = Serving \<Longrightarrow> qs_clock s \<le> now \<Longrightarrow>
     on_request p send now rq (qs_handler s) = None \<Longrightarrow>
     l_leader h = l_leader (qs_handler s) \<Longrightarrow> sleep_ms h = sleep_ms (qs_handler s) \<Longrightarrow>
     quic_step p parse s (drop_handler (s\<lparr>qs_handler := h, qs_clock := now\<rparr>))"
| drops: "qs_owner s = Serving \<Longrightarrow> quic_step p parse s (drop_handler s)"
| joins: "qs_owner s = Dropping \<Longrightarrow> \<not> bg_running (qs_pc s) \<Longrightarrow> quic_step p parse s (s\<lparr>qs_owner := Dropped\<rparr>)"

inductive_simps quic_step_simps: "quic_step p parse s t"

section \<open>Shutdown\<close>

text \<open>The thread's and the owner's actions still to come once the flag is set.\<close>

fun bg_left :: "bg_pc \<Rightarrow> nat" where
  "bg_left (Sleeping 0) = 3"
| "bg_left Refreshing = 2"
| "bg_left (Sleeping (Suc k)) = 1"
| "bg_left Stopped = 0"
| "bg_left Panicked = 0"

fun owner_left :: "owner \<Rightarrow> nat" where
  "owner_left Serving = 2"
| "owner_left Dropping = 1"
| "owner_left Dropped = 0"

definition stop_inv :: "('ip, 'pk) quic_service \<Rightarrow> bool" where
  "stop_inv s \<longleftrightarrow> (qs_stop s \<longleftrightarrow> qs_owner s \<noteq> Serving) \<and> (qs_pc s = Stopped \<longrightarrow> qs_stop s) \<and>
     (qs_owner s = Dropped \<longrightarrow> \<not> bg_running (qs_pc s))"

lemma sleep_steps_pos: "\<exists>k. unat (sleep_steps h) = Suc k"
proof -
  have "(1 :: u64) \<le> sleep_steps h" by (simp add: sleep_steps_def)
  then have "0 < unat (sleep_steps h)" by (simp add: word_le_nat_alt)
  then show ?thesis using gr0_implies_Suc by blast
qed

lemma bg_action_keeps:
  "qs_stop (bg_action p parse rpc now s) = qs_stop s" "qs_owner (bg_action p parse rpc now s) = qs_owner s"
  by (simp_all add: bg_action_def Let_def split: bg_pc.splits nat.splits option.splits)

lemma bg_action_left:
  assumes "bg_running (qs_pc s)" and "qs_stop s"
  shows "bg_left (qs_pc (bg_action p parse rpc now s)) < bg_left (qs_pc s)"
proof (cases "qs_pc s")
  case (Sleeping n)
  then show ?thesis using assms(2) by (cases n) (simp_all add: bg_action_def Let_def)
next
  case Refreshing
  have "bg_left (Sleeping (unat (sleep_steps h))) = 1" for h :: "('a, 'b) handler"
    using sleep_steps_pos [of h] by auto
  with Refreshing show ?thesis by (simp add: bg_action_def Let_def split: option.splits)
qed (use assms(1) in \<open>simp_all add: bg_running_def\<close>)

lemma bg_action_stopped:
  "bg_running (qs_pc s) \<Longrightarrow> qs_pc (bg_action p parse rpc now s) = Stopped \<Longrightarrow> qs_stop s"
  by (auto simp: bg_action_def Let_def bg_running_def split: bg_pc.splits nat.splits option.splits if_splits)

interpretation quic_stop: invariant_system "\<lambda>s. \<exists>now h. s = spawn_background now h" "quic_step p parse" stop_inv
  for p parse
proof unfold_locales
  fix s :: "('a, 'b) quic_service" assume "\<exists>now h. s = spawn_background now h"
  then show "stop_inv s" by (auto simp: spawn_background_def stop_inv_def)
next
  fix s t :: "('a, 'b) quic_service" assume inv: "stop_inv s" and step: "quic_step p parse s t"
  from step inv show "stop_inv t"
  proof (induction rule: quic_step.induct)
    case (thread_acts s now rpc)
    then show ?case using bg_action_stopped [of s p parse rpc now]
      by (auto simp: stop_inv_def bg_action_keeps)
  qed (auto simp: stop_inv_def drop_handler_def)
qed

lemma step_left:
  assumes "quic_step p parse s t" and "stop_inv s" and "qs_stop s"
  shows "bg_left (qs_pc t) + owner_left (qs_owner t) < bg_left (qs_pc s) + owner_left (qs_owner s) \<and> qs_stop t"
  using assms
  by (induction rule: quic_step.induct) (auto simp: stop_inv_def bg_action_keeps bg_action_left)

lemma can_step:
  assumes "stop_inv s" and "qs_stop s" and "qs_owner s \<noteq> Dropped"
  shows "\<exists>t. quic_step p parse s t"
proof (cases "bg_running (qs_pc s)")
  case True
  then show ?thesis using thread_acts [of s "qs_clock s" p parse] by blast
next
  case False
  have "qs_owner s = Dropping" using assms by (cases "qs_owner s") (auto simp: stop_inv_def)
  then show ?thesis using False joins [of s p parse] by blast
qed

lemma stop_run:
  "(quic_step p parse ^^ n) s t \<Longrightarrow> stop_inv s \<Longrightarrow> qs_stop s \<Longrightarrow>
   n + (bg_left (qs_pc t) + owner_left (qs_owner t)) \<le> bg_left (qs_pc s) + owner_left (qs_owner s) \<and> stop_inv t \<and> qs_stop t"
proof (induction n arbitrary: t)
  case (Suc n)
  then obtain u where u: "(quic_step p parse ^^ n) s u" "quic_step p parse u t" by auto
  with Suc.IH [OF u(1)] Suc.prems step_left [of p parse u t] quic_stop.inv_step [of u p parse t] show ?case
    by fastforce
qed simp

text \<open>
  Dropping the handler returns: from the moment the stop flag is set, the thread and the owner
  together take at most four more actions, whatever the RPC client answers or the refresh interval
  is; they halt exactly when the handler is gone, and then the thread has ended.
\<close>

lemma drop_returns:
  assumes "reach (\<lambda>s. \<exists>now h. s = spawn_background now h) (quic_step p parse) s" and "qs_stop s"
    and "(quic_step p parse ^^ n) s t"
  shows "n \<le> 4 \<and> ((\<nexists>u. quic_step p parse t u) \<longleftrightarrow> qs_owner t = Dropped) \<and>
    (qs_owner t = Dropped \<longrightarrow> qs_pc t = Stopped \<or> qs_pc t = Panicked)"
proof -
  have inv: "stop_inv s" by (rule quic_stop.inv_reach [OF assms(1)])
  have "bg_left (qs_pc s) \<le> 3" by (cases "qs_pc s" rule: bg_left.cases) simp_all
  moreover have "owner_left (qs_owner s) \<le> 1" using inv assms(2) by (cases "qs_owner s") (auto simp: stop_inv_def)
  ultimately have four: "bg_left (qs_pc s) + owner_left (qs_owner s) \<le> 4" by simp
  from stop_run [OF assms(3) inv assms(2)]
  have t: "stop_inv t" "qs_stop t" and n: "n \<le> 4" using four by auto
  have "\<not> quic_step p parse t u" if "qs_owner t = Dropped" for u
    using that t by (auto simp: quic_step_simps stop_inv_def)
  with t n can_step [OF t] show ?thesis by (auto simp: stop_inv_def bg_running_def)
qed

lemma drop_returns_witness:
  "\<exists>s t. reach (\<lambda>s. \<exists>now h. s = spawn_background now h) (quic_step Debug (\<lambda>_. None)) s \<and> qs_stop s \<and>
     (quic_step Debug (\<lambda>_. None) ^^ 2) s (t :: (unit, unit) quic_service) \<and> qs_owner t = Dropped \<and>
     (\<nexists>u. quic_step Debug (\<lambda>_. None) t u) \<and> qs_pc t = Stopped"
proof -
  let ?parse = "\<lambda>_. None :: unit option"
  let ?start = "spawn_background 0 (start_handler (Inr [])) :: (unit, unit) quic_service"
  let ?dropped = "drop_handler ?start"
  let ?halted = "?dropped\<lparr>qs_pc := Stopped\<rparr>"
  let ?gone = "?halted\<lparr>qs_owner := Dropped\<rparr>"
  let ?R = "reach (\<lambda>s. \<exists>now h. s = spawn_background now h) (quic_step Debug ?parse)"
  have sleeping: "qs_pc ?start = Sleeping 8"
    by (simp add: spawn_background_def start_handler_def sleep_steps_def)
  have "?R ?start" by (rule reach_init) blast
  then have r: "?R ?dropped" by (rule reach_step) (rule drops, simp add: spawn_background_def)
  have act: "bg_action Debug ?parse rpc 0 ?dropped = ?halted" for rpc
    using sleeping by (simp add: bg_action_def drop_handler_def Let_def spawn_background_def)
  have "quic_step Debug ?parse ?dropped ?halted"
    unfolding act [symmetric, of undefined] by (rule thread_acts) (simp_all add: bg_running_def drop_handler_def sleeping spawn_background_def)
  moreover have "quic_step Debug ?parse ?halted ?gone"
    by (rule joins) (simp_all add: drop_handler_def bg_running_def)
  ultimately have two: "(quic_step Debug ?parse ^^ 2) ?dropped ?gone"
    by (auto simp: numeral_2_eq_2)
  have stop: "qs_stop ?dropped" by (simp add: drop_handler_def)
  from drop_returns [OF r stop two] r stop two show ?thesis
    by (intro exI [of _ ?dropped] exI [of _ ?gone]) simp
qed

end
