(* ===== verification/Float32.thy ===== *)
theory Float32
  imports Prelude
begin

text \<open>
  Rust's \<open>f32\<close> as the 32 bits of an IEEE binary32 number, as far as \<open>src/relay/server.rs\<close> uses it:
  comparison and subtraction, rounded to nearest, ties to even.  Every finite number is a whole
  number of units of \<open>2 ^ -149\<close>, which is what the model computes with.  Which NaN an operation
  returns is not specified: it is an argument.
\<close>

type_synonym f32 = u32

definition f32_negative :: "f32 \<Rightarrow> bool" where
  "f32_negative x \<longleftrightarrow> bit x 31"

definition f32_exponent :: "f32 \<Rightarrow> nat" where
  "f32_exponent x = unat x div 2 ^ 23 mod 2 ^ 8"

definition f32_fraction :: "f32 \<Rightarrow> nat" where
  "f32_fraction x = unat x mod 2 ^ 23"

definition f32_is_nan :: "f32 \<Rightarrow> bool" where
  "f32_is_nan x \<longleftrightarrow> f32_exponent x = 255 \<and> f32_fraction x \<noteq> 0"

definition f32_is_infinite :: "f32 \<Rightarrow> bool" where
  "f32_is_infinite x \<longleftrightarrow> f32_exponent x = 255 \<and> f32_fraction x = 0"

text \<open>
  The magnitude in units, for an infinity a number above every finite magnitude, and the signed
  value.
\<close>

definition f32_magnitude :: "f32 \<Rightarrow> nat" where
  "f32_magnitude x = (if f32_exponent x = 0 then f32_fraction x
     else (2 ^ 23 + f32_fraction x) * 2 ^ (f32_exponent x - 1))"

definition f32_value :: "f32 \<Rightarrow> int" where
  "f32_value x = (if f32_negative x then - int (f32_magnitude x) else int (f32_magnitude x))"

definition f32_less :: "f32 \<Rightarrow> f32 \<Rightarrow> bool" where
  "f32_less x y \<longleftrightarrow> \<not> f32_is_nan x \<and> \<not> f32_is_nan y \<and> f32_value x < f32_value y"

text \<open>
  Rounding a magnitude of \<open>n\<close> units: \<open>excess_bits n\<close> of its bits do not fit the 24 of the
  significand.  The rounded significand, which may be \<open>2 ^ 24\<close>, is added to the exponent field, so
  that it carries into the next exponent, at last into the infinity.
\<close>

fun excess_bits :: "nat \<Rightarrow> nat" where
  "excess_bits n = (if n < 2 ^ 24 then 0 else Suc (excess_bits (n div 2)))"

declare excess_bits.simps [simp del]

definition round_half_even :: "nat \<Rightarrow> nat \<Rightarrow> nat" where
  "round_half_even n s = (let q = n div 2 ^ s; r = n mod 2 ^ s in
     if 2 * r < 2 ^ s \<or> 2 * r = 2 ^ s \<and> even q then q else q + 1)"

definition f32_round_bits :: "nat \<Rightarrow> nat" where
  "f32_round_bits n = min (excess_bits n * 2 ^ 23 + round_half_even n (excess_bits n)) (255 * 2 ^ 23)"

definition f32_sub :: "f32 \<Rightarrow> f32 \<Rightarrow> f32 \<Rightarrow> f32" where
  "f32_sub nan x y =
     (if f32_is_nan x \<or> f32_is_nan y \<or>
         f32_is_infinite x \<and> f32_is_infinite y \<and> f32_negative x = f32_negative y then nan
      else if f32_is_infinite x then x
      else if f32_is_infinite y then (if f32_negative y then y - 2 ^ 31 else y + 2 ^ 31)
      else let d = f32_value x - f32_value y in
        if d = 0 then (if f32_negative x \<and> \<not> f32_negative y then 2 ^ 31 else 0)
        else word_of_nat ((if d < 0 then 2 ^ 31 else 0) + f32_round_bits (nat \<bar>d\<bar>)))"

definition f32_zero :: f32 where
  "f32_zero = 0"

definition f32_one :: f32 where
  "f32_one = 0x3F800000"

section \<open>Rounding\<close>

text \<open>The magnitude a rounding gives.\<close>

definition rounded :: "nat \<Rightarrow> nat" where
  "rounded n = round_half_even n (excess_bits n) * 2 ^ excess_bits n"

lemma excess_bits_small: "n < 2 ^ 24 \<Longrightarrow> excess_bits n = 0"
  by (simp add: excess_bits.simps)

lemma excess_bits_bounds: "2 ^ 24 \<le> n \<Longrightarrow> 2 ^ (23 + excess_bits n) \<le> n"
  and excess_bits_less: "n < 2 ^ (24 + excess_bits n)"
proof -
  have "n < 2 ^ (24 + excess_bits n) \<and> (2 ^ 24 \<le> n \<longrightarrow> 2 ^ (23 + excess_bits n) \<le> n)"
  proof (induction n rule: excess_bits.induct)
    case (1 n)
    show ?case
    proof (cases "n < 2 ^ 24")
      case True
      then show ?thesis by (simp add: excess_bits_small)
    next
      case False
      then have e: "excess_bits n = Suc (excess_bits (n div 2))" by (simp add: excess_bits.simps [of n])
      have ih: "n div 2 < 2 ^ (24 + excess_bits (n div 2))"
        "2 ^ 24 \<le> n div 2 \<longrightarrow> 2 ^ (23 + excess_bits (n div 2)) \<le> n div 2"
        using 1 False by auto
      have "2 ^ (23 + excess_bits (n div 2)) \<le> n div 2"
      proof (cases "n div 2 < 2 ^ 24")
        case True
        then have "excess_bits (n div 2) = 0" by (rule excess_bits_small)
        then show ?thesis using False by simp
      qed (use ih in simp)
      then have "2 * 2 ^ (23 + excess_bits (n div 2)) \<le> n" by linarith
      then have "2 ^ (23 + excess_bits n) \<le> n" unfolding e by (simp add: power_add)
      moreover have "n < 2 * 2 ^ (24 + excess_bits (n div 2))" using ih(1) by linarith
      then have "n < 2 ^ (24 + excess_bits n)" unfolding e by (simp add: power_add)
      ultimately show ?thesis by blast
    qed
  qed
  then show "n < 2 ^ (24 + excess_bits n)" "2 ^ 24 \<le> n \<Longrightarrow> 2 ^ (23 + excess_bits n) \<le> n" by blast+
qed

lemma excess_bits_mono: "n \<le> m \<Longrightarrow> excess_bits n \<le> excess_bits m"
proof (rule ccontr)
  assume "n \<le> m" "\<not> excess_bits n \<le> excess_bits m"
  then have gt: "excess_bits m < excess_bits n" by simp
  then have "2 ^ 24 \<le> n" using excess_bits_small [of n] by (cases "n < 2 ^ 24") auto
  then have "2 ^ (23 + excess_bits n) \<le> n" by (rule excess_bits_bounds)
  moreover have "m < 2 ^ (24 + excess_bits m)" by (rule excess_bits_less)
  moreover have "(2 :: nat) ^ (24 + excess_bits m) \<le> 2 ^ (23 + excess_bits n)"
    using gt by (intro power_increasing) auto
  ultimately show False using \<open>n \<le> m\<close> by linarith
qed

lemma round_half_even_bounds:
  "n div 2 ^ s \<le> round_half_even n s" "round_half_even n s \<le> n div 2 ^ s + 1"
  by (simp_all add: round_half_even_def Let_def)

lemma round_half_even_mono: "n \<le> m \<Longrightarrow> round_half_even n s \<le> round_half_even m s"
proof -
  assume le: "n \<le> m"
  then have q: "n div 2 ^ s \<le> m div 2 ^ s" by (rule div_le_mono)
  show ?thesis
  proof (cases "n div 2 ^ s = m div 2 ^ s")
    case True
    have "m div 2 ^ s * 2 ^ s + n mod 2 ^ s \<le> m div 2 ^ s * 2 ^ s + m mod 2 ^ s"
      using le unfolding True [symmetric] by (metis True div_mult_mod_eq)
    then have "n mod 2 ^ s \<le> m mod 2 ^ s" by simp
    then show ?thesis using True by (auto simp: round_half_even_def Let_def)
  next
    case False
    then show ?thesis using q round_half_even_bounds [of n s] round_half_even_bounds [of m s] by linarith
  qed
qed

lemma significand_bounds:
  "round_half_even n (excess_bits n) \<le> 2 ^ 24"
  "2 ^ 24 \<le> n \<Longrightarrow> 2 ^ 23 \<le> round_half_even n (excess_bits n)"
proof -
  let ?s = "excess_bits n"
  have "n div 2 ^ ?s < 2 ^ 24"
    using excess_bits_less [of n] by (simp add: power_add less_mult_imp_div_less)
  then show "round_half_even n ?s \<le> 2 ^ 24" using round_half_even_bounds [of n ?s] by linarith
  assume "2 ^ 24 \<le> n"
  then have "2 ^ 23 * 2 ^ ?s \<le> n" using excess_bits_bounds by (simp add: power_add)
  then have "2 ^ 23 \<le> n div 2 ^ ?s" by (simp add: less_eq_div_iff_mult_less_eq)
  then show "2 ^ 23 \<le> round_half_even n ?s" using round_half_even_bounds [of n ?s] by linarith
qed

lemma rounded_mono: "n \<le> m \<Longrightarrow> rounded n \<le> rounded m"
proof -
  assume le: "n \<le> m"
  then have s: "excess_bits n \<le> excess_bits m" by (rule excess_bits_mono)
  show ?thesis
  proof (cases "excess_bits n = excess_bits m")
    case True
    then show ?thesis using round_half_even_mono [OF le] by (simp add: rounded_def)
  next
    case False
    then have lt: "excess_bits n < excess_bits m" using s by simp
    then have "2 ^ 24 \<le> m" using excess_bits_small [of m] by (cases "m < 2 ^ 24") auto
    then have "2 ^ 23 * 2 ^ excess_bits m \<le> rounded m"
      unfolding rounded_def by (intro mult_right_mono significand_bounds) auto
    moreover have "rounded n \<le> 2 ^ 24 * 2 ^ excess_bits n"
      unfolding rounded_def by (intro mult_right_mono significand_bounds) auto
    moreover have "(2 :: nat) ^ 24 * 2 ^ excess_bits n \<le> 2 ^ 23 * 2 ^ excess_bits m"
      using lt power_increasing [of "24 + excess_bits n" "23 + excess_bits m" "2 :: nat"]
      by (simp add: power_add)
    ultimately show ?thesis by linarith
  qed
qed

text \<open>Half a unit in the last place.\<close>

lemma rounded_close: "2 * \<bar>int (rounded n) - int n\<bar> \<le> 2 ^ excess_bits n"
proof -
  define s where "s = excess_bits n"
  define q where "q = n div 2 ^ s"
  define r where "r = n mod 2 ^ s"
  have n: "n = q * 2 ^ s + r" and r: "r < 2 ^ s" unfolding q_def r_def by (simp_all only: div_mult_mod_eq mod_less_divisor zero_less_power zero_less_numeral)
  have p: "int (2 ^ s) = 2 ^ s" by simp
  have "int n = int q * 2 ^ s + int r" by (simp add: n)
  moreover have "int r < 2 ^ s" using r by (simp only: of_nat_less_iff flip: p)
  moreover have "int (rounded n) = (if 2 * r < 2 ^ s \<or> 2 * r = 2 ^ s \<and> even q then int q else int q + 1) * 2 ^ s"
    by (simp add: rounded_def round_half_even_def Let_def s_def [symmetric] q_def [symmetric] r_def [symmetric])
  moreover have "2 * r < 2 ^ s \<longleftrightarrow> 2 * int r < 2 ^ s" "2 * r = 2 ^ s \<longleftrightarrow> 2 * int r = 2 ^ s"
    unfolding p [symmetric] by linarith+
  ultimately show ?thesis unfolding s_def [symmetric] by (auto simp: algebra_simps)
qed

section \<open>The number a rounding denotes\<close>

lemma f32_fields:
  assumes "e < 256" and "f < 2 ^ 23"
  shows "f32_exponent (word_of_nat (e * 2 ^ 23 + f)) = e" "f32_fraction (word_of_nat (e * 2 ^ 23 + f)) = f"
    "\<not> f32_negative (word_of_nat (e * 2 ^ 23 + f))"
proof -
  have "e * 2 ^ 23 + f < 2 ^ 31" using assms by simp
  then have u: "unat (word_of_nat (e * 2 ^ 23 + f) :: f32) = e * 2 ^ 23 + f"
    unfolding unat_of_nat by (intro mod_less) simp
  show "f32_exponent (word_of_nat (e * 2 ^ 23 + f)) = e" "f32_fraction (word_of_nat (e * 2 ^ 23 + f)) = f"
    using assms by (simp_all only: f32_exponent_def f32_fraction_def u) simp_all
  have n: "\<not> bit (e * 2 ^ 23 + f) 31"
    using \<open>e * 2 ^ 23 + f < 2 ^ 31\<close> by (simp add: bit_iff_odd)
  have "bit (unat w) 31 = bit w 31" for w :: f32 by (simp add: bit_unsigned_iff)
  from this [of "word_of_nat (e * 2 ^ 23 + f)", unfolded u] n
  show "\<not> f32_negative (word_of_nat (e * 2 ^ 23 + f))" unfolding f32_negative_def by blast
qed

lemma excess_bits_le: "n < 2 ^ (24 + k) \<Longrightarrow> excess_bits n \<le> k"
proof (rule ccontr)
  assume n: "n < 2 ^ (24 + k)" and "\<not> excess_bits n \<le> k"
  then have s: "k < excess_bits n" by simp
  then have "2 ^ 24 \<le> n" using excess_bits_small [of n] by (cases "n < 2 ^ 24") auto
  then have "2 ^ (23 + excess_bits n) \<le> n" by (rule excess_bits_bounds)
  moreover have "(2 :: nat) ^ (24 + k) \<le> 2 ^ (23 + excess_bits n)" using s by (intro power_increasing) auto
  ultimately show False using n by linarith
qed

lemma f32_round:
  assumes "n \<le> 2 ^ 149"
  shows "f32_magnitude (word_of_nat (f32_round_bits n)) = rounded n"
    and "\<not> f32_negative (word_of_nat (f32_round_bits n))"
    and "f32_exponent (word_of_nat (f32_round_bits n)) < 255"
proof -
  define s where "s = excess_bits n"
  define q where "q = round_half_even n s"
  have "n < 2 ^ (24 + 126)" using assms by simp
  then have s: "s \<le> 126" unfolding s_def by (rule excess_bits_le)
  have q: "q \<le> 2 ^ 24" unfolding q_def s_def by (rule significand_bounds)
  have bits: "f32_round_bits n = s * 2 ^ 23 + q"
    using s q by (simp add: f32_round_bits_def s_def [symmetric] q_def [symmetric])
  have "\<exists>e f. s * 2 ^ 23 + q = e * 2 ^ 23 + f \<and> e < 255 \<and> f < 2 ^ 23 \<and>
      (if e = 0 then f else (2 ^ 23 + f) * 2 ^ (e - 1)) = q * 2 ^ s"
  proof (cases "q < 2 ^ 23")
    case True
    then have "n < 2 ^ 24" using significand_bounds(2) [of n] unfolding q_def s_def by linarith
    then have "s = 0" unfolding s_def by (rule excess_bits_small)
    with True show ?thesis by (intro exI [of _ 0] exI [of _ q]) simp
  next
    case False
    then show ?thesis
    proof (cases "q = 2 ^ 24")
      case True
      then show ?thesis using s by (intro exI [of _ "s + 2"] exI [of _ 0]) simp
    next
      case top: False
      then show ?thesis using False s q by (intro exI [of _ "s + 1"] exI [of _ "q - 2 ^ 23"]) simp
    qed
  qed
  then obtain e f where ef: "s * 2 ^ 23 + q = e * 2 ^ 23 + f" "e < 255" "f < 2 ^ 23"
    "(if e = 0 then f else (2 ^ 23 + f) * 2 ^ (e - 1)) = q * 2 ^ s" by blast
  note fields = f32_fields [of e f]
  show "f32_magnitude (word_of_nat (f32_round_bits n)) = rounded n"
    unfolding bits ef(1) f32_magnitude_def using fields ef
    by (simp only: rounded_def q_def [symmetric] s_def [symmetric])
  show "\<not> f32_negative (word_of_nat (f32_round_bits n))" "f32_exponent (word_of_nat (f32_round_bits n)) < 255"
    unfolding bits ef(1) using fields ef by simp_all
qed

text \<open>One, in units.\<close>

definition ONE :: int where
  "ONE = 2 ^ 149"

lemma ONE_pos [simp]: "0 < ONE" "0 \<le> ONE"
  by (simp_all add: ONE_def)

lemma nat_ONE: "nat ONE = 2 ^ 149"
  unfolding ONE_def by (rule nat_power_eq [of 2 149, simplified nat_numeral]) simp

lemma rounded_0 [simp]: "rounded 0 = 0"
  by (simp add: rounded_def round_half_even_def excess_bits_small)

lemma rounded_power: "rounded (2 ^ k) = 2 ^ k"
proof (cases "k < 24")
  case True
  then have "(2 :: nat) ^ k < 2 ^ 24" by (intro power_strict_increasing) auto
  then have "excess_bits (2 ^ k) = 0" by (rule excess_bits_small)
  then show ?thesis by (simp add: rounded_def round_half_even_def)
next
  case False
  then obtain j where k: "k = 24 + j" using le_Suc_ex not_less by blast
  have "excess_bits (2 ^ k) \<le> Suc j" by (rule excess_bits_le) (simp add: k)
  moreover have "\<not> excess_bits (2 ^ k) \<le> j"
  proof
    assume "excess_bits (2 ^ k) \<le> j"
    then have "(2 :: nat) ^ (24 + excess_bits (2 ^ k)) \<le> 2 ^ k" unfolding k by (intro power_increasing) auto
    then show False using excess_bits_less [of "2 ^ k"] by linarith
  qed
  ultimately have s: "excess_bits (2 ^ k) = Suc j" by simp
  have q: "(2 :: nat) ^ k = 2 ^ 23 * 2 ^ Suc j" by (simp add: k power_add)
  have "round_half_even (2 ^ k) (Suc j) = 2 ^ 23"
    unfolding round_half_even_def Let_def q
    by (simp only: nonzero_mult_div_cancel_right mod_mult_self2_is_0 power_not_zero) simp
  then have "rounded (2 ^ k) = 2 ^ 23 * 2 ^ Suc j" by (simp only: rounded_def s)
  then show ?thesis by (rule trans) (rule q [symmetric])
qed

lemma rounded_ONE [simp]: "rounded (nat ONE) = nat ONE"
  unfolding nat_ONE by (rule rounded_power)

end
