(* ===== verification/Relay.thy ===== *)
theory Relay
  imports Float32 Errors
begin

text \<open>
  \<open>src/relay/server.rs\<close>: the capacity stream.  The host reports how much of its capacity is used;
  the relay sends its clients how much is idle.  The channels and the task runtime are other
  crates': what the host's channel delivers and which sends fail are inputs.
\<close>

section \<open>The idle ratio\<close>

text \<open>\<open>nan\<close> is the NaN that a subtraction from which one results returns.\<close>

definition idle_ratio :: "f32 \<Rightarrow> f32 \<Rightarrow> f32" where
  "idle_ratio nan usage =
     (if f32_less usage f32_zero then f32_one
      else if f32_less f32_one usage then f32_zero
      else f32_sub nan f32_one usage)"

section \<open>The two tasks of a stream\<close>

text \<open>
  The forwarding task: the host's channel delivers \<open>msgs\<close>, each with the error of the send it leads
  to, if it fails, and is then closed.  The loop ends with an error either way.
\<close>

primrec forward_usage :: "f32 \<Rightarrow> (f32 \<times> string option) list \<Rightarrow> f32 list \<times> unit result" where
  "forward_usage nan [] = ([], Inl OutofRange)"
| "forward_usage nan (m # msgs) = (case m of (usage, send_error) \<Rightarrow>
     let idle = idle_ratio nan usage in
     case send_error of
       Some e \<Rightarrow> ([], Inl (Unknown e))
     | None \<Rightarrow> (case forward_usage nan msgs of (out, r) \<Rightarrow> (idle # out, r)))"

text \<open>
  The watching task: \<open>joined\<close> is how the forwarding task ended, \<open>Inl\<close> a panic.  The error status is
  given to \<open>sx.send(..)\<close>, a future that is dropped without being polled, so it sends nothing; the
  result lists what the task sends.
\<close>

definition poll_dropped :: "'a \<Rightarrow> 'a list" where
  "poll_dropped x = []"

definition watch_forwarding :: "string + unit result \<Rightarrow> string list" where
  "watch_forwarding joined = (case joined of
     Inl e \<Rightarrow> poll_dropped ''internal failure''
   | Inr (Inr u) \<Rightarrow> []
   | Inr (Inl e) \<Rightarrow> poll_dropped ''internal failure'')"

text \<open>What a client receives: an idle ratio, or the message of an error status.\<close>

definition on_status :: "f32 \<Rightarrow> (f32 \<times> string option) list \<Rightarrow> (string + f32) list" where
  "on_status nan msgs = (case forward_usage nan msgs of (out, r) \<Rightarrow>
     map Inr out @ map Inl (watch_forwarding (Inr r)))"

section \<open>The ratio\<close>

text \<open>Values are in units of \<open>2 ^ -149\<close>, \<open>ONE\<close> of them make one.\<close>

lemma f32_constants [simp]:
  "f32_value f32_zero = 0" "f32_value f32_one = ONE" "\<not> f32_is_nan f32_zero" "\<not> f32_is_nan f32_one"
  "\<not> f32_is_infinite f32_one" "\<not> f32_negative f32_one"
  by (simp_all add: f32_zero_def f32_one_def f32_value_def f32_magnitude_def f32_negative_def f32_is_nan_def
      f32_is_infinite_def f32_exponent_def f32_fraction_def bit_iff_odd ONE_def)

lemma infinite_magnitude: "f32_is_infinite x \<Longrightarrow> ONE < int (f32_magnitude x)"
proof -
  assume "f32_is_infinite x"
  then have "f32_magnitude x = 2 ^ 23 * 2 ^ 254" by (simp add: f32_is_infinite_def f32_magnitude_def)
  then show ?thesis by (simp add: ONE_def)
qed

lemma f32_sub_one:
  assumes "\<not> f32_is_nan u" and "0 \<le> f32_value u" and "f32_value u \<le> ONE"
  shows "f32_value (f32_sub nan f32_one u) = int (rounded (nat (ONE - f32_value u))) \<and>
    \<not> f32_is_nan (f32_sub nan f32_one u)"
proof -
  have fin: "\<not> f32_is_infinite u"
  proof
    assume "f32_is_infinite u"
    then have "ONE < int (f32_magnitude u)" by (rule infinite_magnitude)
    then show False using assms(2,3) by (auto simp: f32_value_def split: if_splits)
  qed
  define d where "d = nat (ONE - f32_value u)"
  have d: "ONE - f32_value u = int d" "d \<le> nat ONE" using assms(2,3) by (simp_all add: d_def)
  show ?thesis
  proof (cases "d = 0")
    case True
    then have "f32_sub nan f32_one u = f32_zero"
      using fin assms(1) d(1) by (simp add: f32_sub_def Let_def f32_zero_def)
    then show ?thesis using True by (simp add: d_def [symmetric])
  next
    case False
    then have "f32_sub nan f32_one u = word_of_nat (f32_round_bits d)"
      using fin assms(1) d(1) by (simp add: f32_sub_def Let_def)
    moreover have "f32_value (word_of_nat (f32_round_bits d)) = int (rounded d)"
      "\<not> f32_is_nan (word_of_nat (f32_round_bits d))"
      using f32_round [OF d(2) [unfolded nat_ONE]] by (simp_all add: f32_value_def f32_is_nan_def)
    ultimately show ?thesis by (simp add: d_def [symmetric])
  qed
qed

text \<open>The utilisation clamped to the range from zero to one.\<close>

definition clamped :: "f32 \<Rightarrow> int" where
  "clamped u = max 0 (min ONE (f32_value u))"

lemma idle_value:
  assumes "\<not> f32_is_nan u"
  shows "f32_value (idle_ratio nan u) = int (rounded (nat (ONE - clamped u))) \<and> \<not> f32_is_nan (idle_ratio nan u)"
proof -
  consider "f32_value u < 0" | "ONE < f32_value u" | "0 \<le> f32_value u \<and> f32_value u \<le> ONE" by linarith
  then show ?thesis
  proof cases
    case 1
    then show ?thesis using assms by (simp add: idle_ratio_def f32_less_def clamped_def)
  next
    case 2
    then have "\<not> f32_value u < 0" using ONE_pos(1) by linarith
    with 2 show ?thesis using assms by (simp add: idle_ratio_def f32_less_def clamped_def)
  next
    case 3
    then show ?thesis using assms f32_sub_one [of u nan]
      by (simp add: idle_ratio_def f32_less_def clamped_def)
  qed
qed

text \<open>
  C38: The idle ratio is a number between zero and one, at most \<open>2 ^ -25\<close> away from one minus the
  clamped utilisation, exactly one when nothing is used and zero at full use or beyond, and it never
  rises with the utilisation.  A utilisation that is not a number slips through both comparisons and
  is sent on as a NaN.
\<close>

theorem idle_ratio_bounded:
  assumes "\<not> f32_is_nan u"
  shows "\<not> f32_is_nan (idle_ratio nan u) \<and>
    0 \<le> f32_value (idle_ratio nan u) \<and> f32_value (idle_ratio nan u) \<le> ONE \<and>
    \<bar>f32_value (idle_ratio nan u) - (ONE - clamped u)\<bar> \<le> 2 ^ 124 \<and>
    (f32_value u \<le> 0 \<longrightarrow> f32_value (idle_ratio nan u) = ONE) \<and>
    (ONE \<le> f32_value u \<longrightarrow> f32_value (idle_ratio nan u) = 0) \<and>
    (\<not> f32_is_nan v \<and> f32_value u \<le> f32_value v \<longrightarrow> f32_value (idle_ratio nan v) \<le> f32_value (idle_ratio nan u)) \<and>
    (f32_is_nan w \<longrightarrow> idle_ratio nan w = nan)"
proof -
  define d where "d = nat (ONE - clamped u)"
  have c: "0 \<le> clamped u" "clamped u \<le> ONE" by (simp_all add: clamped_def)
  then have d: "int d = ONE - clamped u" "d \<le> nat ONE" by (simp_all add: d_def)
  note val = idle_value [OF assms, of nan, folded d_def]
  have top: "rounded d \<le> nat ONE" using rounded_mono [OF d(2)] by simp
  have close: "2 * \<bar>int (rounded d) - int d\<bar> \<le> 2 ^ 125"
  proof (cases "d = nat ONE")
    case True
    then show ?thesis by simp
  next
    case False
    then have "d < 2 ^ (24 + 125)" using d(2) by (simp add: nat_ONE)
    then have "excess_bits d \<le> 125" by (rule excess_bits_le)
    then have "(2 :: int) ^ excess_bits d \<le> 2 ^ 125" by (intro power_increasing) auto
    then show ?thesis using rounded_close [of d] by linarith
  qed
  have "f32_value (idle_ratio nan v) \<le> f32_value (idle_ratio nan u)"
    if "\<not> f32_is_nan v" "f32_value u \<le> f32_value v"
  proof -
    have "clamped u \<le> clamped v" using that(2) by (simp add: clamped_def)
    then have "rounded (nat (ONE - clamped v)) \<le> rounded d" unfolding d_def by (intro rounded_mono nat_mono) simp
    then show ?thesis using val idle_value [OF that(1), of nan] by simp
  qed
  moreover have "f32_value (idle_ratio nan u) = ONE" if "f32_value u \<le> 0"
  proof -
    have "d = nat ONE" using that by (simp add: d_def clamped_def)
    then show ?thesis using val by simp
  qed
  moreover have "f32_value (idle_ratio nan u) = 0" if "ONE \<le> f32_value u"
  proof -
    have "d = 0" using that by (simp add: d_def clamped_def)
    then show ?thesis using val by simp
  qed
  moreover have "idle_ratio nan w = nan" if "f32_is_nan w"
    using that by (simp add: idle_ratio_def f32_less_def f32_sub_def)
  moreover have "int (rounded d) \<le> ONE" using top by (simp add: le_nat_iff)
  ultimately show ?thesis using val close d(1) by simp
qed

theorem idle_ratio_bounded_witness:
  "f32_value (idle_ratio 0x7FC00000 0) = ONE \<and> f32_value (idle_ratio 0x7FC00000 0x40000000) = 0 \<and>
   idle_ratio 0x7FC00000 0x7FC00001 = 0x7FC00000"
proof -
  have n: "\<not> f32_is_nan 0" "\<not> f32_is_nan 0x40000000" "f32_is_nan 0x7FC00001"
    by (simp_all add: f32_is_nan_def f32_exponent_def f32_fraction_def)
  have v: "f32_value 0 \<le> 0" "ONE \<le> f32_value 0x40000000"
    by (simp_all add: f32_value_def f32_magnitude_def f32_negative_def f32_exponent_def f32_fraction_def
        bit_iff_odd ONE_def)
  show ?thesis
    using idle_ratio_bounded [OF n(1), of "0x7FC00000" 0 "0x7FC00001"] v n(3)
      idle_ratio_bounded [OF n(2), of "0x7FC00000" 0 "0x7FC00001"] by blast
qed

section \<open>The stream\<close>

lemma forward_usage_good:
  "forward_usage nan (map (\<lambda>u. (u, None)) us @ msgs) =
     (case forward_usage nan msgs of (out, r) \<Rightarrow> (map (idle_ratio nan) us @ out, r))"
  by (induction us) (simp_all add: split_beta Let_def)

text \<open>
  A client of the capacity stream receives the idle ratio of every utilisation the host
  reports, in order, up to the first that cannot be sent to it; how the stream ends, by the host
  closing its channel or by a failed send, the client never receives the error status meant for it.
\<close>

lemma capacity_stream:
  "on_status nan (map (\<lambda>u. (u, None)) us) = map (\<lambda>u. Inr (idle_ratio nan u)) us \<and>
   on_status nan (map (\<lambda>u. (u, None)) us @ (v, Some e) # msgs) = map (\<lambda>u. Inr (idle_ratio nan u)) us \<and>
   snd (forward_usage nan (map (\<lambda>u. (u, None)) us)) = Inl OutofRange \<and>
   snd (forward_usage nan (map (\<lambda>u. (u, None)) us @ (v, Some e) # msgs)) = Inl (Unknown e)"
  using forward_usage_good [of nan us "[]"] forward_usage_good [of nan us "(v, Some e) # msgs"]
  by (simp add: on_status_def watch_forwarding_def poll_dropped_def Let_def)

end
