(* ===== verification/Accounts.thy ===== *)
theory Accounts
  imports Bytes Errors
begin

unbundle bit_operations_syntax

text \<open>
  \<open>src/store.rs\<close> and \<open>src/edge.rs\<close>: blobs seen as arrays, account snapshots with their header,
  data and edges, the edge weights, and the orderings of edges and headers.
\<close>

section \<open>Edges and weights\<close>

type_synonym weight = u32

record account_edge =
  ae_from :: u64
  ae_to :: u64
  ae_weight :: weight
  ae_slot :: u64

datatype ordering = Less | Equal | Greater

definition cmp_word :: "'w::len word \<Rightarrow> 'w word \<Rightarrow> ordering" where
  "cmp_word a b = (if a < b then Less else if a = b then Equal else Greater)"

definition edge_eq :: "account_edge \<Rightarrow> account_edge \<Rightarrow> bool" where
  "edge_eq a b \<longleftrightarrow> ae_from a = ae_from b \<and> ae_to a = ae_to b \<and> ae_weight a = ae_weight b"

text \<open>\<open>partial_cmp\<close> of integers is always \<open>Some\<close>; the branches for \<open>None\<close> are kept.\<close>

definition edge_partial_cmp :: "account_edge \<Rightarrow> account_edge \<Rightarrow> ordering option" where
  "edge_partial_cmp a b = (case Some (cmp_word (ae_from a) (ae_from b)) of
     Some Less \<Rightarrow> Some Less
   | Some Greater \<Rightarrow> Some Greater
   | _ \<Rightarrow> (case Some (cmp_word (ae_to a) (ae_to b)) of
       Some Less \<Rightarrow> Some Less
     | Some Greater \<Rightarrow> Some Greater
     | _ \<Rightarrow> (case Some (cmp_word (ae_weight a) (ae_weight b)) of
         Some r \<Rightarrow> Some r
       | None \<Rightarrow> Some Equal)))"

definition edge_cmp :: "account_edge \<Rightarrow> account_edge \<Rightarrow> ordering" where
  "edge_cmp a b = (case cmp_word (ae_from a) (ae_from b) of
     Greater \<Rightarrow> Greater
   | Less \<Rightarrow> Less
   | Equal \<Rightarrow> (case cmp_word (ae_to a) (ae_to b) of
       Greater \<Rightarrow> Greater
     | Less \<Rightarrow> Less
     | Equal \<Rightarrow> (case cmp_word (ae_weight a) (ae_weight b) of
         Equal \<Rightarrow> Equal
       | Greater \<Rightarrow> Greater
       | Less \<Rightarrow> Less)))"

definition WEIGHT_IS_OUTGOING :: weight where "WEIGHT_IS_OUTGOING = push_bit 0 1"
definition WEIGHT_SLOT :: weight where "WEIGHT_SLOT = push_bit 1 1"
definition WEIGHT_CLIENT :: weight where "WEIGHT_CLIENT = push_bit 2 1"
definition WEIGHT_UPLOAD :: weight where "WEIGHT_UPLOAD = push_bit 3 1"
definition WEIGHT_NON_ACCOUNT :: weight where
  "WEIGHT_NON_ACCOUNT = WEIGHT_SLOT OR WEIGHT_CLIENT OR WEIGHT_UPLOAD OR WEIGHT_IS_OUTGOING"
definition WEIGHT_ACCOUNT :: weight where "WEIGHT_ACCOUNT = NOT WEIGHT_NON_ACCOUNT"
definition WEIGHT_PROGRAM :: weight where "WEIGHT_PROGRAM = push_bit 4 1"
definition WEIGHT_SPLTOKEN_OWNER :: weight where "WEIGHT_SPLTOKEN_OWNER = push_bit 5 1"
definition WEIGHT_SPLTOKEN_MINT :: weight where "WEIGHT_SPLTOKEN_MINT = push_bit 6 1"
definition WEIGHT_DIRECT :: weight where "WEIGHT_DIRECT = push_bit 7 1"
definition WEIGHT_SYMLINK :: weight where "WEIGHT_SYMLINK = push_bit 8 1"
definition MAX_WEIGHT :: weight where "MAX_WEIGHT = push_bit 9 1"

definition edge_is_outgoing :: "weight \<Rightarrow> bool" where
  "edge_is_outgoing w \<longleftrightarrow> 0 < w AND WEIGHT_IS_OUTGOING"

definition edge_account :: "account_edge \<Rightarrow> u64" where
  "edge_account e = (if edge_is_outgoing (ae_weight e) then ae_from e else ae_to e)"

record 'pk filter_edge =
  fe_slot :: u64
  fe_to :: 'pk
  fe_from :: 'pk
  fe_weight :: weight

definition set_outgoing :: "'pk \<Rightarrow> 'pk filter_edge \<Rightarrow> 'pk filter_edge" where
  "set_outgoing i e = (if fe_from e = i then e\<lparr>fe_weight := fe_weight e OR WEIGHT_IS_OUTGOING\<rparr> else e)"

section \<open>The order of edges\<close>

text \<open>An edge without its deprecated slot is its key, in the lexicographic order.\<close>

datatype edge_key = EdgeKey u64 u64 weight

definition edge_key_of :: "account_edge \<Rightarrow> edge_key" where
  "edge_key_of e = EdgeKey (ae_from e) (ae_to e) (ae_weight e)"

fun key_less :: "edge_key \<Rightarrow> edge_key \<Rightarrow> bool" where
  "key_less (EdgeKey f t w) (EdgeKey f' t' w') \<longleftrightarrow> f < f' \<or> f = f' \<and> (t < t' \<or> t = t' \<and> w < w')"

instantiation edge_key :: linorder
begin

definition less_edge_key :: "edge_key \<Rightarrow> edge_key \<Rightarrow> bool" where
  "less_edge_key a b = key_less a b"

definition less_eq_edge_key :: "edge_key \<Rightarrow> edge_key \<Rightarrow> bool" where
  "less_eq_edge_key a b \<longleftrightarrow> key_less a b \<or> a = b"

instance
proof
  fix a b c :: edge_key
  show "(a < b) = (a \<le> b \<and> \<not> b \<le> a)"
    by (cases a; cases b) (auto simp: less_edge_key_def less_eq_edge_key_def)
  show "a \<le> a" by (simp add: less_eq_edge_key_def)
  show "a \<le> b \<Longrightarrow> b \<le> c \<Longrightarrow> a \<le> c"
    by (cases a; cases b; cases c) (auto simp: less_eq_edge_key_def)
  show "a \<le> b \<Longrightarrow> b \<le> a \<Longrightarrow> a = b"
    by (cases a; cases b) (auto simp: less_eq_edge_key_def)
  show "a \<le> b \<or> b \<le> a"
    by (cases a; cases b) (auto simp: less_eq_edge_key_def)
qed

end

text \<open>
  The order of edges is the lexicographic order of source, destination and weight, a total
  order of the edges up to their deprecated slot: \<open>cmp\<close> and \<open>partial_cmp\<close> agree with it and with
  each other, and answer equal exactly for edges that \<open>==\<close> identifies.
\<close>

lemma edge_order_lexicographic:
  "edge_cmp a b = (if edge_key_of a < edge_key_of b then Less
     else if edge_key_of a = edge_key_of b then Equal else Greater) \<and>
   edge_partial_cmp a b = Some (edge_cmp a b) \<and>
   (edge_cmp a b = Equal \<longleftrightarrow> edge_eq a b)"
  by (auto simp: edge_cmp_def edge_partial_cmp_def edge_eq_def cmp_word_def edge_key_of_def less_edge_key_def
      split: ordering.splits if_splits)

lemma outgoing_odd: "edge_is_outgoing w \<longleftrightarrow> odd w"
  by (cases "even w")
     (simp_all add: edge_is_outgoing_def WEIGHT_IS_OUTGOING_def and_one_eq even_iff_mod_2_eq_zero
       odd_iff_mod_2_eq_one)

lemma set_flag:
  "(w OR WEIGHT_IS_OUTGOING) AND NOT WEIGHT_IS_OUTGOING = w AND NOT WEIGHT_IS_OUTGOING"
  "odd (w OR WEIGHT_IS_OUTGOING)"
  by (auto simp: WEIGHT_IS_OUTGOING_def bit_eq_iff bit_simps even_or_iff)

text \<open>
  The direction flag: setting it marks exactly the edges that leave the given account as
  outgoing, touches no other flag of any edge and is idempotent; an edge's own account is its
  source when it is outgoing and its destination otherwise.
\<close>

lemma outgoing_flag:
  "fe_weight (set_outgoing i e) AND NOT WEIGHT_IS_OUTGOING = fe_weight e AND NOT WEIGHT_IS_OUTGOING \<and>
   (edge_is_outgoing (fe_weight (set_outgoing i e)) \<longleftrightarrow> fe_from e = i \<or> edge_is_outgoing (fe_weight e)) \<and>
   set_outgoing i (set_outgoing i e) = set_outgoing i e \<and>
   edge_account \<lparr>ae_from = f, ae_to = t, ae_weight = w, ae_slot = s\<rparr> = (if odd w then f else t)"
  by (auto simp: set_outgoing_def set_flag outgoing_odd edge_account_def or.assoc)

text \<open>
  The flags that are not about accounts are the lowest four bits and the account weights the
  bits four to eight: every named weight lies on its side of the mask, and no two share a bit.
\<close>

lemma weight_classes:
  "WEIGHT_NON_ACCOUNT = 15 \<and> WEIGHT_ACCOUNT AND WEIGHT_NON_ACCOUNT = 0 \<and>
   (\<forall>w \<in> {WEIGHT_PROGRAM, WEIGHT_SPLTOKEN_OWNER, WEIGHT_SPLTOKEN_MINT, WEIGHT_DIRECT, WEIGHT_SYMLINK}.
      w AND WEIGHT_ACCOUNT = w \<and> w < MAX_WEIGHT) \<and>
   distinct [WEIGHT_IS_OUTGOING, WEIGHT_SLOT, WEIGHT_CLIENT, WEIGHT_UPLOAD, WEIGHT_PROGRAM,
     WEIGHT_SPLTOKEN_OWNER, WEIGHT_SPLTOKEN_MINT, WEIGHT_DIRECT, WEIGHT_SYMLINK]"
proof -
  note defs = WEIGHT_IS_OUTGOING_def WEIGHT_SLOT_def WEIGHT_CLIENT_def WEIGHT_UPLOAD_def WEIGHT_PROGRAM_def
    WEIGHT_SPLTOKEN_OWNER_def WEIGHT_SPLTOKEN_MINT_def WEIGHT_DIRECT_def WEIGHT_SYMLINK_def MAX_WEIGHT_def
  have n: "WEIGHT_NON_ACCOUNT = 15" by (simp add: WEIGHT_NON_ACCOUNT_def defs)
  show ?thesis unfolding WEIGHT_ACCOUNT_def n defs by simp
qed

section \<open>Headers\<close>

text \<open>\<open>Pubkey\<close> is 32 bytes.\<close>

record account_header =
  ah_pubkey :: "u8 list"
  ah_lamports :: u64
  ah_account_id :: u64
  ah_owner :: "u8 list"
  ah_write_version :: u64
  ah_slot :: u64
  ah_data_size :: u32
  ah_executable :: bool

definition header_reset :: "account_header \<Rightarrow> account_header" where
  "header_reset h = (let h = h\<lparr>ah_pubkey := replicate 32 0\<rparr> in
     h\<lparr>ah_owner := ah_pubkey h, ah_lamports := 0, ah_account_id := 0, ah_write_version := 0,
       ah_slot := 0, ah_data_size := 0, ah_executable := False\<rparr>)"

definition header_cmp :: "account_header \<Rightarrow> account_header \<Rightarrow> ordering" where
  "header_cmp a b = cmp_word (ah_slot a) (ah_slot b)"

definition header_partial_cmp :: "account_header \<Rightarrow> account_header \<Rightarrow> ordering option" where
  "header_partial_cmp a b = Some (header_cmp a b)"

definition ACCOUNT_HEADER_SIZE :: nat where
  "ACCOUNT_HEADER_SIZE = 104"

definition ACCOUNT_EDGE_SIZE :: nat where
  "ACCOUNT_EDGE_SIZE = 32"

text \<open>
  The \<open>repr(C)\<close> images: a header ends with its \<open>bool\<close> and three bytes of padding, an edge has four
  bytes of padding before its slot.  A \<open>bool\<close> is the byte 0 or 1.
\<close>

definition account_header_of_bytes :: "u8 list \<Rightarrow> account_header" where
  "account_header_of_bytes bs = \<lparr>ah_pubkey = field 0 32 bs, ah_lamports = from_le_bytes (field 32 8 bs),
     ah_account_id = from_le_bytes (field 40 8 bs), ah_owner = field 48 32 bs,
     ah_write_version = from_le_bytes (field 80 8 bs), ah_slot = from_le_bytes (field 88 8 bs),
     ah_data_size = from_le_bytes (field 96 4 bs), ah_executable = (field 100 1 bs \<noteq> [0])\<rparr>"

definition account_header_bytes :: "u8 list \<Rightarrow> account_header \<Rightarrow> u8 list" where
  "account_header_bytes padding h = ah_pubkey h @ to_le_bytes (ah_lamports h) @ to_le_bytes (ah_account_id h) @
     ah_owner h @ to_le_bytes (ah_write_version h) @ to_le_bytes (ah_slot h) @
     to_le_bytes (ah_data_size h) @ [if ah_executable h then 1 else 0] @ padding"

definition edge_of_bytes :: "u8 list \<Rightarrow> account_edge" where
  "edge_of_bytes bs = \<lparr>ae_from = from_le_bytes (field 0 8 bs), ae_to = from_le_bytes (field 8 8 bs),
     ae_weight = from_le_bytes (field 16 4 bs), ae_slot = from_le_bytes (field 24 8 bs)\<rparr>"

definition edge_bytes :: "account_edge \<times> u32 \<Rightarrow> u8 list" where
  "edge_bytes m = to_le_bytes (ae_from (fst m)) @ to_le_bytes (ae_to (fst m)) @
     to_le_bytes (ae_weight (fst m)) @ to_le_bytes (snd m) @ to_le_bytes (ae_slot (fst m))"

section \<open>Snapshots and blobs\<close>

text \<open>A blob is its slice: the bytes with the address of the first one.\<close>

type_synonym blob = "nat \<times> u8 list"

record solana_account =
  sa_blob :: blob
  sa_edge :: "blob option"
  sa_ticket :: u64

definition account_new :: "blob \<Rightarrow> blob option \<Rightarrow> u64 \<Rightarrow> solana_account" where
  "account_new b o_edge write_version = \<lparr>sa_blob = b, sa_edge = o_edge, sa_ticket = write_version\<rparr>"

definition account_slice :: "solana_account \<Rightarrow> u8 list" where
  "account_slice a = snd (sa_blob a)"

definition account_header :: "solana_account \<Rightarrow> account_header exec" where
  "account_header a = do {
     let s = account_slice a;
     assert_that (ACCOUNT_HEADER_SIZE \<le> length s);
     h \<leftarrow> slice s 0 ACCOUNT_HEADER_SIZE;
     bytes_to_struct ACCOUNT_HEADER_SIZE 8 account_header_of_bytes (fst (sa_blob a)) h
   }"

definition account_data :: "solana_account \<Rightarrow> u8 list option exec" where
  "account_data a = (let s = account_slice a in
     if length s = ACCOUNT_HEADER_SIZE then ret None
     else do { d \<leftarrow> slice s ACCOUNT_HEADER_SIZE (length s); ret (Some d) })"

text \<open>
  \<open>edge\<close> and \<open>vec_payload\<close> check the length of the blob and then make the slice with
  \<open>slice::from_raw_parts\<close>, which has no defined result for an address that is not a multiple of the
  alignment of the element: like a panic, no value.
\<close>

definition account_edges :: "solana_account \<Rightarrow> account_edge list option exec" where
  "account_edges a = (case sa_edge a of
     None \<Rightarrow> ret None
   | Some b \<Rightarrow> do {
       let s = snd b;
       assert_that (s \<noteq> [] \<and> length s mod ACCOUNT_EDGE_SIZE = 0);
       assert_that (fst b mod 8 = 0);
       ret (Some (raw_parts edge_of_bytes ACCOUNT_EDGE_SIZE s (length s div ACCOUNT_EDGE_SIZE)))
     })"

text \<open>
  \<open>NamedBlob::<T>::new\<close> for a \<open>T\<close> of size \<open>sz\<close>, and the array \<open>vec_payload\<close> returns for a \<open>T\<close> of
  alignment \<open>al\<close>; \<open>len % 0\<close> panics.
\<close>

definition is_multiple_of :: "nat \<Rightarrow> nat \<Rightarrow> bool" where
  "is_multiple_of n m \<longleftrightarrow> (if m = 0 then n = 0 else n mod m = 0)"

definition named_blob_new :: "nat \<Rightarrow> blob \<Rightarrow> blob result" where
  "named_blob_new sz b = (if \<not> is_multiple_of (length (snd b)) sz then Inl UnalignedMemory else Inr b)"

definition vec_payload :: "nat \<Rightarrow> nat \<Rightarrow> (u8 list \<Rightarrow> 'a) \<Rightarrow> blob \<Rightarrow> 'a list exec" where
  "vec_payload sz al dec b = do {
     assert_that (sz \<noteq> 0);
     assert_that (length (snd b) mod sz = 0);
     assert_that (fst b mod al = 0);
     ret (raw_parts dec sz (snd b) (length (snd b) div sz))
   }"

interpretation edge_codec: fixed_codec edge_bytes
    "\<lambda>bs. (edge_of_bytes bs, from_le_bytes (field 20 4 bs))" ACCOUNT_EDGE_SIZE
proof unfold_locales
  fix x
  show "length (edge_bytes x) = ACCOUNT_EDGE_SIZE"
    by (simp add: edge_bytes_def ACCOUNT_EDGE_SIZE_def codec_simps)
  show "(edge_of_bytes (edge_bytes x), from_le_bytes (field 20 4 (edge_bytes x))) = x"
    by (cases x, cases "fst x") (simp add: edge_bytes_def edge_of_bytes_def codec_simps)
qed

lemma raw_edges:
  "raw_parts edge_of_bytes ACCOUNT_EDGE_SIZE (as_bytes_slice edge_bytes ms) (length ms) = map fst ms"
proof -
  have fst_parts: "raw_parts (\<lambda>bs. fst (d bs)) w bs n = map fst (raw_parts d w bs n)"
    for d :: "u8 list \<Rightarrow> account_edge \<times> u32" and w bs n
    by (induction n arbitrary: bs) simp_all
  show ?thesis
    using fst_parts [of "\<lambda>bs. (edge_of_bytes bs, from_le_bytes (field 20 4 bs))" ACCOUNT_EDGE_SIZE]
      edge_codec.array_exact [OF refl, of ms] by simp
qed

text \<open>
  C31: A snapshot laid out as its header, its data and its edges reads back as they were, whatever
  the padding: from an 8-aligned blob the header and the data (none exactly when it is empty), and
  from an 8-aligned blob of edges the edges; a blob of edges anywhere else has no defined array.
\<close>

theorem account_snapshot_roundtrip:
  assumes "length (ah_pubkey h) = 32" and "length (ah_owner h) = 32" and "length padding = 3"
    and "addr mod 8 = 0" and "ms \<noteq> []"
    and a: "a = account_new (addr, account_header_bytes padding h @ data)
      (Some (eaddr, as_bytes_slice edge_bytes ms)) ticket"
  shows "account_header a = Some h \<and>
    account_data a = Some (if data = [] then None else Some data) \<and>
    account_edges a = (if eaddr mod 8 = 0 then Some (Some (map fst ms)) else None)"
proof -
  have len: "length (account_header_bytes padding h) = ACCOUNT_HEADER_SIZE"
    using assms(1-3) by (simp add: account_header_bytes_def ACCOUNT_HEADER_SIZE_def codec_simps)
  have dec: "account_header_of_bytes (account_header_bytes padding h) = h"
    using assms(1-3)
    by (cases h) (simp add: account_header_of_bytes_def account_header_bytes_def codec_simps field_def)
  have elen: "length (as_bytes_slice edge_bytes ms) = length ms * ACCOUNT_EDGE_SIZE"
    by (rule edge_codec.array_length)
  then have ne: "as_bytes_slice edge_bytes ms \<noteq> []"
    using assms(5) by (auto simp: ACCOUNT_EDGE_SIZE_def)
  have "account_header a = Some h"
    using len dec assms(4)
    by (simp add: a account_header_def account_slice_def account_new_def Let_def slice_def bytes_to_struct_def)
  moreover have "account_data a = Some (if data = [] then None else Some data)"
    using len by (simp add: a account_data_def account_slice_def account_new_def Let_def slice_def)
  moreover have "account_edges a = (if eaddr mod 8 = 0 then Some (Some (map fst ms)) else None)"
    using elen ne raw_edges [of ms]
    by (simp add: a account_edges_def account_new_def Let_def ACCOUNT_EDGE_SIZE_def)
  ultimately show ?thesis by simp
qed

theorem account_snapshot_roundtrip_witness:
  "\<exists>a h. account_header a = Some h \<and> ah_lamports h = 5 \<and> account_data a = Some (Some [7]) \<and>
     account_edges a = Some (Some [\<lparr>ae_from = 1, ae_to = 2, ae_weight = 3, ae_slot = 4\<rparr>])"
proof -
  let ?h = "\<lparr>ah_pubkey = replicate 32 1, ah_lamports = 5, ah_account_id = 6, ah_owner = replicate 32 2,
    ah_write_version = 3, ah_slot = 4, ah_data_size = 1, ah_executable = True\<rparr>"
  let ?ms = "[(\<lparr>ae_from = 1, ae_to = 2, ae_weight = 3, ae_slot = 4\<rparr>, 9 :: u32)]"
  from account_snapshot_roundtrip [of ?h "[1, 2, 3]" 4096 ?ms, OF _ _ _ _ _ refl, of "[7]" 8192 0]
  show ?thesis by (intro exI conjI) auto
qed

text \<open>
  A blob accepted by \<open>NamedBlob::new\<close> for a type of positive size is, at an address with the alignment
  of the type, read by \<open>vec_payload\<close> without panic as an array that covers it exactly; every other
  length is rejected with the alignment error.
\<close>

lemma named_blob_covers:
  assumes "0 < sz" and "fst b mod al = 0"
  shows "(named_blob_new sz b = Inr b \<and>
      (\<exists>xs. vec_payload sz al dec b = Some xs \<and> length xs * sz = length (snd b))) \<or>
    (named_blob_new sz b = Inl UnalignedMemory \<and> vec_payload sz al dec b = None)"
  using assms by (auto simp: named_blob_new_def vec_payload_def is_multiple_of_def)

text \<open>
  The order of headers is that of their slots, a total preorder; it does not agree with their
  equality, which compares every field: headers of one slot compare equal whatever else they hold.
\<close>

lemma header_order_by_slot:
  "header_partial_cmp a b = Some (header_cmp a b) \<and>
   (header_cmp a b = Less \<longleftrightarrow> ah_slot a < ah_slot b) \<and>
   (header_cmp a b = Greater \<longleftrightarrow> header_cmp b a = Less) \<and>
   (header_cmp a b = Equal \<longleftrightarrow> ah_slot a = ah_slot b) \<and>
   header_cmp (header_reset a) (header_reset a\<lparr>ah_lamports := 1\<rparr>) = Equal \<and>
   header_reset a \<noteq> header_reset a\<lparr>ah_lamports := 1\<rparr>"
proof -
  have "ah_lamports (header_reset a) \<noteq> ah_lamports (header_reset a\<lparr>ah_lamports := 1\<rparr>)"
    by (simp add: header_reset_def Let_def)
  then have "header_reset a \<noteq> header_reset a\<lparr>ah_lamports := 1\<rparr>" by metis
  then show ?thesis by (auto simp: header_partial_cmp_def header_cmp_def cmp_word_def)
qed

end
