(* ===== verification/Delete_Notifier.thy ===== *)
theory Delete_Notifier
  imports Prelude
begin

text \<open>
  \<open>src/read.rs\<close>: \<open>AccountDeleteNotifier\<close>, which lets a client see every live update of an
  account and one deletion per time it dies.
\<close>

section \<open>The notifier\<close>

datatype delete_sent_status = NotSent | Sent | DeleteSent

type_synonym notifier = "u64 \<rightharpoonup> delete_sent_status"

text \<open>What \<open>check_send\<close> reads of a header: the account and its lamports.\<close>

record account_update =
  au_account_id :: u64
  au_lamports :: u64

definition check_send :: "account_update \<Rightarrow> notifier \<Rightarrow> bool \<times> notifier" where
  "check_send u m =
     (let a = au_account_id u;
          entry = (case m a of Some e \<Rightarrow> e | None \<Rightarrow> NotSent)
      in if 0 < au_lamports u then (True, m(a \<mapsto> Sent))
         else case entry of
             NotSent \<Rightarrow> (True, m(a \<mapsto> DeleteSent))
           | Sent \<Rightarrow> (True, m(a \<mapsto> DeleteSent))
           | DeleteSent \<Rightarrow> (False, m(a \<mapsto> entry)))"

primrec check_all :: "account_update list \<Rightarrow> notifier \<Rightarrow> bool list \<times> notifier" where
  "check_all [] m = ([], m)"
| "check_all (u # us) m = (case check_send u m of
     (b, m) \<Rightarrow> (case check_all us m of (bs, m) \<Rightarrow> (b # bs, m)))"

section \<open>What is delivered\<close>

text \<open>The updates of one account in a history, and what the notifier keeps of them.\<close>

definition updates_of :: "u64 \<Rightarrow> account_update list \<Rightarrow> account_update list" where
  "updates_of a us = filter (\<lambda>u. au_account_id u = a) us"

definition live :: "account_update \<Rightarrow> bool" where
  "live u \<longleftrightarrow> 0 < au_lamports u"

definition last_status :: "account_update list \<Rightarrow> delete_sent_status option" where
  "last_status us = (if us = [] then None else Some (if live (last us) then Sent else DeleteSent))"

definition tracks :: "account_update list \<Rightarrow> notifier \<Rightarrow> bool" where
  "tracks hist m \<longleftrightarrow> (\<forall>a. m a = last_status (updates_of a hist))"

lemma check_send_tracks:
  assumes "tracks hist m"
  shows "tracks (hist @ [u]) (snd (check_send u m))"
    and "fst (check_send u m) \<longleftrightarrow> live u \<or> (\<forall>v. updates_of (au_account_id u) hist \<noteq> [] \<longrightarrow>
      live (last (updates_of (au_account_id u) hist)))"
  using assms
  by (auto simp: tracks_def check_send_def last_status_def updates_of_def live_def Let_def
      split: delete_sent_status.splits option.splits if_splits)

lemma check_all_tracks:
  assumes "tracks hist m"
  shows "tracks (hist @ us) (snd (check_all us m)) \<and> length (fst (check_all us m)) = length us \<and>
    (\<forall>i < length us. fst (check_all us m) ! i \<longleftrightarrow>
      live (us ! i) \<or> updates_of (au_account_id (us ! i)) (hist @ take i us) = [] \<or>
      live (last (updates_of (au_account_id (us ! i)) (hist @ take i us))))"
  using assms
proof (induction us arbitrary: hist m)
  case (Cons u us)
  obtain b m1 where c: "check_send u m = (b, m1)" by fastforce
  obtain bs m2 where d: "check_all us m1 = (bs, m2)" by fastforce
  note first = check_send_tracks [OF Cons.prems, of u, unfolded c fst_conv snd_conv]
  from Cons.IH [OF first(1)] d have rest: "tracks (hist @ u # us) m2" "length bs = length us"
    "\<forall>i < length us. bs ! i \<longleftrightarrow>
      live (us ! i) \<or> updates_of (au_account_id (us ! i)) (hist @ u # take i us) = [] \<or>
      live (last (updates_of (au_account_id (us ! i)) (hist @ u # take i us)))"
    by simp_all
  show ?case
    using rest first(2) c d by (auto simp: less_Suc_eq_0_disj)
qed simp

text \<open>
  C30: In any history of updates, an update is delivered unless it is a deletion whose account's
  last update was a deletion too: live updates always are, and of consecutive deletions of one
  account the first alone, until the account is seen alive again.
\<close>

theorem deletions_delivered_once:
  assumes "i < length us"
  shows "fst (check_all us Map.empty) ! i \<longleftrightarrow>
    (0 < au_lamports (us ! i) \<or>
     (case rev (filter (\<lambda>u. au_account_id u = au_account_id (us ! i)) (take i us)) of
        [] \<Rightarrow> True
      | u # _ \<Rightarrow> 0 < au_lamports u))"
proof -
  have "tracks [] Map.empty" by (simp add: tracks_def updates_of_def last_status_def)
  from check_all_tracks [OF this, of us] assms show ?thesis
    by (auto simp: updates_of_def live_def hd_rev [symmetric] split: list.splits)
qed

theorem deletions_delivered_once_witness:
  "fst (check_all [\<lparr>au_account_id = 1, au_lamports = 0\<rparr>, \<lparr>au_account_id = 1, au_lamports = 0\<rparr>] Map.empty) ! 1 = False"
  using deletions_delivered_once [of 1 "[\<lparr>au_account_id = 1, au_lamports = 0\<rparr>, \<lparr>au_account_id = 1, au_lamports = 0\<rparr>]"]
  by simp

end
