(* ===== verification/Token.thy ===== *)
theory Token
  imports Bytes Errors
begin

text \<open>\<open>src/util.rs\<close>: \<open>parse_token\<close>, the reader of SPL token accounts.\<close>

section \<open>The parser\<close>

record token_reference =
  tr_owner :: "u8 list"
  tr_mint :: "u8 list"
  tr_amount :: u64

definition TOKEN_ACCOUNT_MIN_SIZE :: nat where
  "TOKEN_ACCOUNT_MIN_SIZE = 165"

definition TOKEN_ACCOUNT_STATE_OFFSET :: nat where
  "TOKEN_ACCOUNT_STATE_OFFSET = 108"

definition parse_token :: "u8 list \<Rightarrow> token_reference result exec" where
  "parse_token data =
     (let p_len = 32; amt_len = 8 in
      if length data < TOKEN_ACCOUNT_MIN_SIZE then ret (Inl OutofRange)
      else do {
        state \<leftarrow> index data TOKEN_ACCOUNT_STATE_OFFSET;
        if state \<noteq> 1 \<and> state \<noteq> 2 then ret (Inl OutofRange)
        else do {
          let i = 0;
          mint \<leftarrow> slice data i (i + p_len);
          let i = i + p_len;
          owner \<leftarrow> slice data i (i + p_len);
          let i = i + p_len;
          s \<leftarrow> slice data i (i + amt_len);
          assert_that (length s = 8);
          ret (Inr \<lparr>tr_owner = owner, tr_mint = mint, tr_amount = from_le_bytes s\<rparr>)
        }
      })"

section \<open>What it accepts\<close>

text \<open>
  The token parser is total: it accepts exactly the accounts of at least 165 bytes whose state
  byte says initialised or frozen, and reads the mint, the owner and the amount at their offsets;
  every other buffer is out of range.
\<close>

lemma parse_token_total:
  "parse_token data = Some (
     if 165 \<le> length data \<and> data ! 108 \<in> {1, 2}
     then Inr \<lparr>tr_owner = field 32 32 data, tr_mint = field 0 32 data,
       tr_amount = from_le_bytes (field 64 8 data)\<rparr>
     else Inl OutofRange)"
  by (auto simp: parse_token_def TOKEN_ACCOUNT_MIN_SIZE_def TOKEN_ACCOUNT_STATE_OFFSET_def slice_simps
      field_def Let_def)

text \<open>A token account: mint, owner, amount, 36 bytes up to the state, the state and the rest.\<close>

definition token_bytes :: "token_reference \<Rightarrow> u8 list \<Rightarrow> u8 \<Rightarrow> u8 list \<Rightarrow> u8 list" where
  "token_bytes t delegate state rest =
     tr_mint t @ tr_owner t @ to_le_bytes (tr_amount t) @ delegate @ [state] @ rest"

text \<open>
  A token account that is initialised or frozen parses to the mint, owner and amount it was laid
  out with, extensions behind it or not.
\<close>

lemma parse_token_roundtrip:
  assumes "length (tr_mint t) = 32" and "length (tr_owner t) = 32" and "length delegate = 36"
    and "56 \<le> length rest" and "state = 1 \<or> state = 2"
  shows "parse_token (token_bytes t delegate state rest) = Some (Inr t)"
proof -
  let ?d = "token_bytes t delegate state rest"
  have len: "165 \<le> length ?d" using assms by (simp add: token_bytes_def codec_simps)
  have "?d ! 108 = state" using assms by (simp add: token_bytes_def nth_append codec_simps)
  moreover have "field 0 32 ?d = tr_mint t" "field 32 32 ?d = tr_owner t"
    "field 64 8 ?d = to_le_bytes (tr_amount t)"
    using assms by (simp_all add: token_bytes_def codec_simps)
  ultimately show ?thesis
    using len assms(5) by (auto simp: parse_token_total codec_simps)
qed

lemma parse_token_roundtrip_witness:
  "parse_token (token_bytes \<lparr>tr_owner = replicate 32 1, tr_mint = replicate 32 2, tr_amount = 500\<rparr>
     (replicate 36 0) 2 (replicate 60 0)) =
   Some (Inr \<lparr>tr_owner = replicate 32 1, tr_mint = replicate 32 2, tr_amount = 500\<rparr>)"
  by (rule parse_token_roundtrip) simp_all

end
