(* ===== verification/Unit_Tests.thy ===== *)
theory Unit_Tests
  imports Transaction Quic_Client Shard
begin

text \<open>
  The unit tests of \<open>src/store.rs\<close>, \<open>src/quic.rs\<close> and \<open>src/shard.rs\<close> on the model: a test is a
  computation that panics when an assertion fails, or what it checks of every run of its threads.
\<close>

section \<open>Transactions\<close>

definition check_accounts :: "account_id list \<Rightarrow> account_id list \<Rightarrow> unit exec" where
  "check_accounts l_a_id check_l_account_id = do {
     assert_that (length l_a_id = length check_l_account_id);
     for_each (\<lambda>j. do {
       a \<leftarrow> index l_a_id j;
       b \<leftarrow> index check_l_account_id j;
       assert_that (a = b)
     }) [0..<length check_l_account_id]
   }"

definition check_instruction :: "catscope_transaction \<Rightarrow> account_id \<Rightarrow> account_id list \<Rightarrow> ix_index \<Rightarrow> unit exec" where
  "check_instruction catx program_id check_l_account_id ix = do {
     program \<leftarrow> read_program catx ix;
     assert_that (program = program_id);
     l_a_id \<leftarrow> read_account catx ix;
     check_accounts l_a_id check_l_account_id
   }"

definition test_append :: "unit exec" where
  "test_append = (let program_id = 2183483; check_l_account_id = [32, 85]; ix_data = [0, 1, 13, 0] in do {
     catx \<leftarrow> push_outer program_id check_l_account_id ix_data default_transaction;
     for_each (check_instruction catx program_id check_l_account_id) (iterate_outer catx 0)
   })"

text \<open>The handle of the outer instruction is dropped as it comes.\<close>

definition test_append_inner :: "profile \<Rightarrow> unit exec" where
  "test_append_inner p = (let program_id = 2183483; check_l_account_id = [32, 85]; ix_data = [0, 1, 13, 0];
      (w, catx) = append_outer default_transaction in do {
     catx \<leftarrow> iw_drop w catx;
     catx \<leftarrow> push_inner p 0 program_id check_l_account_id ix_data catx;
     for_each (check_instruction catx program_id check_l_account_id) (iterate_inner catx 0)
   })"

lemma check_accounts_eq: "check_accounts l_a check = Some () \<longleftrightarrow> l_a = check"
proof (cases "length l_a = length check")
  case True
  then have "check_accounts l_a check = Some () \<longleftrightarrow> (\<forall>j < length check. l_a ! j = check ! j)"
    by (simp add: check_accounts_def for_each_ok slice_simps atLeast0LessThan Ball_def)
  with True show ?thesis by (metis nth_equalityI)
qed (auto simp: check_accounts_def)

lemma test_append_passes: "test_append = Some ()"
  by code_simp

section \<open>Handles left unfinished\<close>

text \<open>
  C28: A write handle that is dropped before its accounts and its data were allocated panics, be the
  instruction outer or inner and whatever was written before; so does allocating either twice.  The
  crate's own test \<open>test_append_inner\<close> drops such a handle and panics in both build profiles, while
  \<open>test_append\<close> passes.
\<close>

theorem unfinished_handle_panics:
  "(\<not> iw_account_set w \<or> \<not> iw_data_set w \<longrightarrow> iw_drop w tx = None) \<and>
   (iw_account_set w \<longrightarrow> iw_account n w tx = None) \<and> (iw_data_set w \<longrightarrow> iw_data n w tx = None) \<and>
   iw_drop (fst (append_outer tx)) (snd (append_outer tx)) = None \<and>
   (append_inner p k tx = Some (v, tx') \<longrightarrow> iw_drop v tx' = None) \<and>
   test_append = Some () \<and> test_append_inner p = None"
proof -
  have d: "\<not> iw_account_set w \<or> \<not> iw_data_set w \<longrightarrow> iw_drop w tx = None" for w tx
    by (auto simp: iw_drop_def)
  have o: "iw_drop (fst (append_outer tx)) (snd (append_outer tx)) = None" for tx
    using d by (simp add: append_outer_def)
  have "append_inner p k tx = Some (v, tx') \<longrightarrow> iw_drop v tx' = None"
    using d by (auto simp: append_inner_def Option.bind_eq_Some_conv)
  moreover have "test_append_inner p = None"
    using o [of default_transaction] by (simp add: test_append_inner_def Let_def split_beta)
  ultimately show ?thesis using d o test_append_passes by (simp add: iw_account_def iw_data_def)
qed

theorem unfinished_handle_panics_witness:
  "\<exists>v tx'. append_inner Debug 0 (default_transaction\<lparr>outer := [default_instruction], l1_inner := [0]\<rparr>) = Some (v, tx') \<and>
     iw_drop v tx' = None"
proof -
  let ?tx = "default_transaction\<lparr>outer := [default_instruction], l1_inner := [0]\<rparr>"
  have "append_inner Debug 0 ?tx \<noteq> None" by code_simp
  then obtain v tx' where "append_inner Debug 0 ?tx = Some (v, tx')" by auto
  with unfinished_handle_panics [of v tx' 0 Debug 0 v tx'] unfinished_handle_panics [of v ?tx 0 Debug 0 v tx']
  show ?thesis by blast
qed

section \<open>The QUIC client\<close>

text \<open>A test of the client, with the key pair and the QUIC stack it is run with.\<close>

definition test_client_creation :: "('key, 'pk, 'staked, 'conf, 'cache, 'ip) quic_lib \<Rightarrow> 'key \<Rightarrow> unit exec" where
  "test_client_creation lib keypair = (let pubkey = key_pubkey lib keypair in do {
     client \<leftarrow> unwrap (quic_new lib keypair None);
     assert_that (quic_pubkey lib client = pubkey)
   })"

definition test_client_with_config :: "('key, 'pk, 'staked, 'conf, 'cache, 'ip) quic_lib \<Rightarrow> 'key \<Rightarrow> unit exec" where
  "test_client_with_config lib keypair =
     (let config = \<lparr>connection_timeout = 30000, skip_preflight = False, connection_pool_size = 8\<rparr> in do {
     client \<leftarrow> unwrap (quic_new lib keypair (Some config));
     assert_that (\<not> skip_preflight (qc_config client));
     assert_that (connection_pool_size (qc_config client) = 8)
   })"

definition test_default_config :: "unit exec" where
  "test_default_config = (let config = default_config in do {
     assert_that (skip_preflight config);
     assert_that (connection_pool_size config = 4)
   })"

definition test_tpu_quic_port :: "unit exec" where
  "test_tpu_quic_port = do {
     assert_that (tpu_quic_port 8000 = 8006);
     assert_that (tpu_quic_port 0 = 6);
     assert_that (tpu_quic_port (65535 - 10) = 65535 - 4);
     assert_that (tpu_quic_port 65535 = 65535)
   }"

text \<open>The addresses are compared as values instead of as texts.\<close>

definition test_to_tpu_quic_addr :: "'ip \<Rightarrow> unit exec" where
  "test_to_tpu_quic_addr ip = (let quic_addr = to_tpu_quic_addr \<lparr>sa_ip = ip, sa_port = 8000\<rparr> in
     assert_that (quic_addr = \<lparr>sa_ip = ip, sa_port = 8006\<rparr>))"

lemma quic_new_result:
  "quic_new lib keypair config = Inr c \<Longrightarrow>
   qc_keypair c = keypair \<and> qc_config c = (case config of Some c \<Rightarrow> c | None \<Rightarrow> default_config)"
  by (auto simp: quic_new_def Let_def rbind_eq_Inr)

text \<open>The client tests pass exactly when the QUIC stack can be set up; the others always do.\<close>

lemma client_tests:
  "test_client_creation lib keypair = Some () \<longleftrightarrow> (\<exists>c. quic_new lib keypair None = Inr c)"
  "test_client_with_config lib keypair = Some () \<longleftrightarrow>
     (\<exists>c. quic_new lib keypair (Some \<lparr>connection_timeout = 30000, skip_preflight = False, connection_pool_size = 8\<rparr>) = Inr c)"
  using quic_new_result [of lib keypair]
  by (fastforce simp: test_client_creation_def test_client_with_config_def quic_pubkey_def Let_def
      Option.bind_eq_Some_conv)+

lemma address_tests:
  "test_default_config = Some ()" "test_tpu_quic_port = Some ()" "test_to_tpu_quic_addr ip = Some ()"
  by (simp_all add: test_default_config_def test_tpu_quic_port_def test_to_tpu_quic_addr_def to_tpu_quic_addr_def
      tpu_quic_port_def saturating_add_u16_def default_config_def)

section \<open>The pipeline\<close>

text \<open>
  Both tests push their keys, the first every key several times, set \<open>done\<close> and start the pipeline.
  The keys are the test's \<open>random_pubkey\<close>s.
\<close>

definition test_queue :: "('k, 'q) queue_ops \<Rightarrow> nat \<Rightarrow> 'k list \<Rightarrow> 'q" where
  "test_queue sq dupes keys = fold (op_push sq) (concat (map (replicate dupes) keys)) (op_new sq)"

definition shard_test ::
    "('k, 'q) queue_ops \<Rightarrow> (u64 \<times> 'k, 'c) queue_ops \<Rightarrow> nat \<Rightarrow> 'k list \<Rightarrow> nat \<Rightarrow> ('k, 'q, 'c) pipeline exec" where
  "shard_test sq ch dupes keys n_shards = do {
     s \<leftarrow> shard_dedup_pubkeys sq ch (test_queue sq dupes keys) (set (concat (map (replicate dupes) keys))) n_shards 2;
     ret (s\<lparr>producers_done := True\<rparr>)
   }"

definition shard_of_hash :: "nat \<Rightarrow> nat \<times> u64 \<times> 'k \<Rightarrow> bool" where
  "shard_of_hash n_shards c = (case c of (shard_id, h, key) \<Rightarrow> shard_id = unat (h mod word_of_nat n_shards))"

context fifo
begin

lemma contents_pushed: "contents (fold (op_push ops) xs q) = contents q @ xs"
  by (induction xs arbitrary: q) (simp_all add: contents_push)

end

lemma done_step:
  "pipeline_step hash_of sq ch accepts s t \<Longrightarrow> producers_done s \<Longrightarrow>
   producers_done t \<and> produced_keys t = produced_keys s \<and> length (channels t) = length (channels s)"
  by (induction rule: pipeline_step.induct) (auto simp: worker_body_def send_key_def split_beta)

context pipeline_queues
begin

lemma shard_test_run:
  assumes start: "shard_test sq ch dupes keys n_shards = Some s1" and fits: "n_shards < 2 ^ 64"
    and run: "reach (\<lambda>s. s = s1) (pipeline_step hash_of sq ch accepts) s"
  shows "threads_ok qc s \<and> called hash_of s \<and> keys_kept qc cc s \<and>
    produced_keys s = set (concat (map (replicate dupes) keys)) \<and> length (channels s) = n_shards"
proof -
  let ?keys = "concat (map (replicate dupes) keys)"
  obtain s0 where s0: "shard_dedup_pubkeys sq ch (test_queue sq dupes keys) (set ?keys) n_shards 2 = Some s0"
    and s1: "s1 = s0\<lparr>producers_done := True\<rparr>"
    using start by (auto simp: shard_test_def Option.bind_eq_Some_conv)
  have q: "qc (test_queue sq dupes keys) = ?keys"
    by (simp add: test_queue_def sq.contents_pushed sq.contents_new)
  have first: "reach (\<lambda>s. s = s0) (pipeline_step hash_of sq ch accepts) s1"
    unfolding s1 by (rule reach.reach_step [of _ _ s0]) (simp_all add: reach.reach_init finish)
  have "reach (\<lambda>s. s = s0) (pipeline_step hash_of sq ch accepts) s"
    using run first by (induction rule: reach.induct) (auto intro: reach.reach_step)
  from pipeline_reach [OF s0 [folded q] fits this]
  have "threads_ok qc s \<and> routed hash_of cc s \<and> called hash_of s \<and> keys_kept qc cc s" .
  moreover have "producers_done s \<and> produced_keys s = set ?keys \<and> length (channels s) = n_shards"
    using run
  proof (induction rule: reach.induct)
    case (reach_init s)
    then show ?case using s0 s1 by (auto simp: shard_dedup_pubkeys_def Option.bind_eq_Some_conv)
  next
    case (reach_step s t)
    then show ?case using done_step by metis
  qed
  ultimately show ?thesis by simp
qed

end

text \<open>
  \<open>test_shard_dedup_basic\<close>: with distinct keys, each pushed at least once, \<open>on_key\<close> has been called once
  per key when the completion value arrives.  \<open>test_shard_routing_correctness\<close>: at every moment each
  call was made in the shard of its hash.
\<close>

lemma shard_tests_pass:
  assumes "fifo sq qc" and "fifo ch cc" and "n_shards < 2 ^ 64"
    and "shard_test sq ch dupes keys n_shards = Some s1"
    and "reach (\<lambda>s. s = s1) (pipeline_step hash_of sq ch accepts) s"
  shows "list_all (shard_of_hash n_shards) (on_key_calls s)"
    and "distinct keys \<Longrightarrow> 0 < dupes \<Longrightarrow> completed cc s \<Longrightarrow> length (on_key_calls s) = length keys"
proof -
  note run = pipeline_queues.shard_test_run [OF pipeline_queues.intro [OF assms(1,2)] assms(4,3,5)]
  then show "list_all (shard_of_hash n_shards) (on_key_calls s)"
    by (auto simp: list_all_iff shard_of_hash_def called_def route_def n_shards_of_def Let_def)
  show "length (on_key_calls s) = length keys" if d: "distinct keys" "0 < dupes" "completed cc s"
  proof -
    have "(snd \<circ> snd) ` set (on_key_calls s) = set keys"
      using all_keys_called [of qc s hash_of cc] run d(2,3) by auto
    moreover have "distinct (map (snd \<circ> snd) (on_key_calls s))" using run by (simp add: called_def)
    ultimately show ?thesis using d(1) by (metis distinct_card length_map set_map)
  qed
qed

end
