(* ===== verification/Service.thy ===== *)
theory Service
  imports Forwarder Transitions
begin

text \<open>
  \<open>src/txfwd.rs\<close>: a server and its clients over the shared-memory service, interleaved.  The clients are
  those of the file's tests, one request at a time; the server is the loop of \<open>server\<close>, or that of the
  tests, which also stops after a number of requests.  The service (\<open>iceoryx2\<close>) may deliver the waiting
  requests in any order, lose a request, be late, or fail at any call; a response reaches the request
  it answers.
\<close>

section \<open>The threads\<close>

text \<open>
  A client is between two requests with those still to send, waits for the response to one, or has
  returned; \<open>rs\<close> are its responses so far.  A server checks its stop conditions, receives, answers a
  request of a client, or has returned or panicked.
\<close>

datatype ('q, 'r) client =
    Requesting "'q list" "'r list" | Awaiting 'q "'q list" "'r list" | Client_Ok "'r list" | Client_Err

datatype 'q server_at = Checking | Receiving | Replying nat 'q | Server_Ok | Server_Err | Server_Panicked

text \<open>
  \<open>sv_waiting\<close> holds the delivered requests with their clients, \<open>sv_mail\<close> the response waiting for each
  client, \<open>sv_log\<close> every request the server has answered, \<open>sv_unsent\<close> the one whose response it could
  not send, if any.
\<close>

record ('q, 'r, 'h) service =
  sv_clients :: "('q, 'r) client list"
  sv_waiting :: "(nat \<times> 'q) list"
  sv_mail :: "'r option list"
  sv_server :: "'q server_at"
  sv_handler :: 'h
  sv_log :: "(nat \<times> 'q \<times> 'r) list"
  sv_unsent :: "(nat \<times> 'q \<times> 'r) list"
  sv_stop :: bool

definition service_start :: "'q list list \<Rightarrow> 'h \<Rightarrow> ('q, 'r, 'h) service" where
  "service_start ids h = \<lparr>sv_clients = map (\<lambda>qs. Requesting qs []) ids, sv_waiting = [],
     sv_mail = replicate (length ids) None, sv_server = Checking, sv_handler = h, sv_log = [], sv_unsent = [], sv_stop = False\<rparr>"

text \<open>
  \<open>limit\<close> is the number of requests after which the server of the tests stops; \<open>server\<close> has none.
  The service of a run that is not \<open>faulty\<close> loses nothing, is in time and never fails.
\<close>

definition enough :: "nat option \<Rightarrow> 'a list \<Rightarrow> bool" where
  "enough limit log = (case limit of None \<Rightarrow> False | Some n \<Rightarrow> n \<le> length log)"

definition server_ended :: "'q server_at \<Rightarrow> bool" where
  "server_ended s \<longleftrightarrow> s = Server_Ok \<or> s = Server_Err \<or> s = Server_Panicked"

inductive service_run ::
    "('q \<Rightarrow> 'h \<Rightarrow> ('r \<times> 'h) exec) \<Rightarrow> nat option \<Rightarrow> bool \<Rightarrow>
     ('q, 'r, 'h) service \<Rightarrow> ('q, 'r, 'h) service \<Rightarrow> bool"
  for answer limit faulty where
  sends: "i < length (sv_clients s) \<Longrightarrow> sv_clients s ! i = Requesting (q # qs) rs \<Longrightarrow>
     service_run answer limit faulty s (s\<lparr>sv_clients := (sv_clients s)[i := Awaiting q qs rs], sv_waiting := sv_waiting s @ [(i, q)]\<rparr>)"
| send_lost: "faulty \<Longrightarrow> i < length (sv_clients s) \<Longrightarrow> sv_clients s ! i = Requesting (q # qs) rs \<Longrightarrow>
     service_run answer limit faulty s (s\<lparr>sv_clients := (sv_clients s)[i := Awaiting q qs rs]\<rparr>)"
| returns: "i < length (sv_clients s) \<Longrightarrow> sv_clients s ! i = Requesting [] rs \<Longrightarrow>
     service_run answer limit faulty s (s\<lparr>sv_clients := (sv_clients s)[i := Client_Ok rs]\<rparr>)"
| receives: "i < length (sv_clients s) \<Longrightarrow> sv_clients s ! i = Awaiting q qs rs \<Longrightarrow> sv_mail s ! i = Some r \<Longrightarrow>
     service_run answer limit faulty s (s\<lparr>sv_clients := (sv_clients s)[i := Requesting qs (rs @ [r])], sv_mail := (sv_mail s)[i := None]\<rparr>)"
| client_fails: "faulty \<Longrightarrow> i < length (sv_clients s) \<Longrightarrow> (\<forall>rs. sv_clients s ! i \<noteq> Client_Ok rs) \<Longrightarrow>
     service_run answer limit faulty s (s\<lparr>sv_clients := (sv_clients s)[i := Client_Err]\<rparr>)"
| checks: "sv_server s = Checking \<Longrightarrow> service_run answer limit faulty s (s\<lparr>sv_server :=
     (if enough limit (sv_log s) \<or> sv_stop s then Server_Ok else Receiving)\<rparr>)"
| picks: "sv_server s = Receiving \<Longrightarrow> sv_waiting s = before @ (i, q) # behind \<Longrightarrow>
     service_run answer limit faulty s (s\<lparr>sv_server := Replying i q, sv_waiting := before @ behind\<rparr>)"
| idles: "sv_server s = Receiving \<Longrightarrow> sv_waiting s = [] \<Longrightarrow> service_run answer limit faulty s (s\<lparr>sv_server := Checking\<rparr>)"
| replies: "sv_server s = Replying i q \<Longrightarrow> answer q (sv_handler s) = Some (r, h) \<Longrightarrow>
     service_run answer limit faulty s (s\<lparr>sv_handler := h, sv_log := sv_log s @ [(i, q, r)], sv_mail := (sv_mail s)[i := Some r],
       sv_server := (if enough limit (sv_log s @ [(i, q, r)]) then Checking else Receiving)\<rparr>)"
| handler_panics: "sv_server s = Replying i q \<Longrightarrow> answer q (sv_handler s) = None \<Longrightarrow>
     service_run answer limit faulty s (s\<lparr>sv_server := Server_Panicked\<rparr>)"
| reply_fails: "faulty \<Longrightarrow> sv_server s = Replying i q \<Longrightarrow> answer q (sv_handler s) = Some (r, h) \<Longrightarrow>
     service_run answer limit faulty s (s\<lparr>sv_handler := h, sv_unsent := [(i, q, r)], sv_server := Server_Err\<rparr>)"
| server_fails: "faulty \<Longrightarrow> sv_server s = Checking \<or> sv_server s = Receiving \<Longrightarrow>
     service_run answer limit faulty s (s\<lparr>sv_server := Server_Err\<rparr>)"
| stops: "service_run answer limit faulty s (s\<lparr>sv_stop := True\<rparr>)"

section \<open>The invariant\<close>

primrec answers :: "('q \<Rightarrow> 'h \<Rightarrow> ('r \<times> 'h) exec) \<Rightarrow> 'q list \<Rightarrow> 'h \<Rightarrow> ('r list \<times> 'h) exec" where
  "answers answer [] h = ret ([], h)"
| "answers answer (q # qs) h = do { (r, h) \<leftarrow> answer q h; (rs, h) \<leftarrow> answers answer qs h; ret (r # rs, h) }"

lemma answers_snoc:
  "answers answer (qs @ [q]) h = do { (rs, h) \<leftarrow> answers answer qs h; (r, h) \<leftarrow> answer q h; ret (rs @ [r], h) }"
proof (induction qs arbitrary: h)
  case (Cons a qs)
  then show ?case by (cases "answer a h") (auto simp: split_beta)
qed (simp add: split_beta)

text \<open>For the answers of \<open>server\<close> this is \<open>answer_all\<close>.\<close>

lemma answers_answer_request: "answers (answer_request on_request) qs h = answer_all on_request qs h"
  by (induction qs arbitrary: h) simp_all

text \<open>Every request the handler has been through.\<close>

definition handled :: "('q, 'r, 'h) service \<Rightarrow> (nat \<times> 'q \<times> 'r) list" where
  "handled s = sv_log s @ sv_unsent s"

lemma handled_simps [simp]:
  "handled (s\<lparr>sv_server := sv\<rparr>) = handled s" "handled (s\<lparr>sv_handler := h\<rparr>) = handled s"
  by (simp_all add: handled_def)

lemma handled_start: "handled (service_start ids h) = []"
  by (simp add: handled_def service_start_def)

text \<open>The answered requests of a client, and the requests of it that are under way.\<close>

definition log_of :: "nat \<Rightarrow> (nat \<times> 'q \<times> 'r) list \<Rightarrow> ('q \<times> 'r) list" where
  "log_of i log = map snd (filter (\<lambda>e. fst e = i) log)"

fun under_way :: "nat \<Rightarrow> (nat \<times> 'q) list \<Rightarrow> 'q server_at \<Rightarrow> 'q list" where
  "under_way i ws (Replying j q) = map snd (filter (\<lambda>e. fst e = i) ws) @ (if j = i then [q] else [])"
| "under_way i ws _ = map snd (filter (\<lambda>e. fst e = i) ws)"

fun client_fits :: "'q list \<Rightarrow> ('q \<times> 'r) list \<Rightarrow> 'q list \<Rightarrow> 'r option \<Rightarrow> ('q, 'r) client \<Rightarrow> bool" where
  "client_fits ids log way mail (Requesting qs rs) \<longleftrightarrow> map fst log @ qs = ids \<and> map snd log = rs \<and> way = [] \<and> mail = None"
| "client_fits ids log way mail (Awaiting q qs rs) \<longleftrightarrow> (case mail of
     None \<Rightarrow> map fst log @ q # qs = ids \<and> map snd log = rs \<and> (way = [] \<or> way = [q])
   | Some r \<Rightarrow> map fst log @ qs = ids \<and> map snd log = rs @ [r] \<and> way = [])"
| "client_fits ids log way mail (Client_Ok rs) \<longleftrightarrow> map fst log = ids \<and> map snd log = rs \<and> way = [] \<and> mail = None"
| "client_fits ids log way mail Client_Err \<longleftrightarrow> True"

definition clients_fit :: "'q list list \<Rightarrow> ('q, 'r, 'h) service \<Rightarrow> bool" where
  "clients_fit ids s \<longleftrightarrow> length (sv_clients s) = length ids \<and> length (sv_mail s) = length ids \<and>
     (\<forall>i < length ids. client_fits (ids ! i) (log_of i (sv_log s)) (under_way i (sv_waiting s) (sv_server s))
        (sv_mail s ! i) (sv_clients s ! i))"

definition answers_fit :: "('q \<Rightarrow> 'h \<Rightarrow> ('r \<times> 'h) exec) \<Rightarrow> 'h \<Rightarrow> ('q, 'r, 'h) service \<Rightarrow> bool" where
  "answers_fit answer h s \<longleftrightarrow> answers answer (map (fst \<circ> snd) (handled s)) h = Some (map (snd \<circ> snd) (handled s), sv_handler s)"

definition unsent_fits :: "('q, 'r, 'h) service \<Rightarrow> bool" where
  "unsent_fits s \<longleftrightarrow> (sv_unsent s \<noteq> [] \<longrightarrow> sv_server s = Server_Err) \<and> length (sv_unsent s) \<le> 1"

lemma log_of_simps [simp]:
  "log_of i [] = []" "log_of i (log @ [(j, q, r)]) = log_of i log @ (if j = i then [(q, r)] else [])"
  by (simp_all add: log_of_def)

lemma under_way_snoc:
  "j \<noteq> i \<Longrightarrow> under_way j (ws @ [(i, q)]) sv = under_way j ws sv"
  "under_way i ws sv = [] \<Longrightarrow> under_way i (ws @ [(i, q)]) sv = [q]"
  by (cases sv; auto split: if_splits)+

lemma under_way_picks:
  "j \<noteq> i \<Longrightarrow> under_way j (xs @ ys) (Replying i q) = under_way j (xs @ (i, q) # ys) Receiving"
  "under_way i (xs @ (i, q) # ys) Receiving = under_way i xs Receiving @ q # under_way i ys Receiving"
  "under_way i (xs @ ys) (Replying i q) = under_way i xs Receiving @ under_way i ys Receiving @ [q]"
  by simp_all

lemma client_fits_picks: "client_fits ids log (xs @ q # ys) m c \<Longrightarrow> client_fits ids log (xs @ ys @ [q]) m c"
  by (cases c) (auto simp: append_eq_Cons_conv Cons_eq_append_conv split: option.splits)

lemma client_fits_reply: "client_fits ids log (w @ [q]) m c \<Longrightarrow> client_fits ids (log @ [(q, r)]) w (Some r) c"
  by (cases c) (auto split: option.splits)

lemma client_fits_drop: "client_fits ids log (w @ v) m c \<Longrightarrow> client_fits ids log w m c"
  by (cases c) (auto simp: append_eq_Cons_conv split: option.splits)

lemma under_way_ended: "server_ended sv' \<Longrightarrow> \<exists>v. under_way i ws sv = under_way i ws sv' @ v"
  by (cases sv; cases sv') (auto simp: server_ended_def)

lemma clients_fit_start: "clients_fit ids (service_start ids h)"
  by (simp add: clients_fit_def service_start_def)

lemma clients_fit_ended:
  assumes "clients_fit ids s" and "server_ended sv"
  shows "clients_fit ids (s\<lparr>sv_server := sv\<rparr>)"
proof -
  have "client_fits (ids ! i) (log_of i (sv_log s)) (under_way i (sv_waiting s) sv) (sv_mail s ! i) (sv_clients s ! i)"
    if "i < length ids" for i
    using assms that client_fits_drop under_way_ended [OF assms(2), of i "sv_waiting s" "sv_server s"]
    by (fastforce simp: clients_fit_def)
  then show ?thesis using assms(1) by (simp add: clients_fit_def)
qed

lemma clients_fit_step:
  "service_run answer limit faulty s t \<Longrightarrow> clients_fit ids s \<Longrightarrow> clients_fit ids t"
proof (induction rule: service_run.induct)
  case (sends i s q qs rs)
  then have "under_way i (sv_waiting s @ [(i, q)]) (sv_server s) = [q]"
    by (intro under_way_snoc) (auto simp: clients_fit_def)
  then show ?case using sends by (auto simp: clients_fit_def nth_list_update under_way_snoc(1))
next
  case (send_lost i s q qs rs)
  then show ?case by (auto simp: clients_fit_def nth_list_update)
next
  case (returns i s rs)
  then show ?case by (auto simp: clients_fit_def nth_list_update)
next
  case (receives i s q qs rs r)
  then show ?case by (auto simp: clients_fit_def nth_list_update)
next
  case (client_fails i s)
  then show ?case by (auto simp: clients_fit_def nth_list_update)
next
  case (checks s)
  then show ?case by (auto simp: clients_fit_def)
next
  case (picks s before i q behind)
  have "client_fits (ids ! j) (log_of j (sv_log s)) (under_way j (before @ behind) (Replying i q)) (sv_mail s ! j) (sv_clients s ! j)"
    if "j < length ids" for j
  proof -
    have old: "client_fits (ids ! j) (log_of j (sv_log s)) (under_way j (before @ (i, q) # behind) Receiving) (sv_mail s ! j)
        (sv_clients s ! j)"
      using picks that by (simp add: clients_fit_def del: under_way.simps)
    show ?thesis
    proof (cases "j = i")
      case True
      show ?thesis using client_fits_picks [OF old [unfolded True under_way_picks(2)]]
        unfolding True under_way_picks(3) .
    next
      case False
      show ?thesis using old unfolding under_way_picks(1) [OF False] .
    qed
  qed
  then show ?case using picks(3) by (simp add: clients_fit_def del: under_way.simps)
next
  case (idles s)
  then show ?case by (auto simp: clients_fit_def)
next
  case (replies s i q r h')
  let ?sv = "if enough limit (sv_log s @ [(i, q, r)]) then Checking else Receiving"
  have "client_fits (ids ! j) (log_of j (sv_log s @ [(i, q, r)])) (under_way j (sv_waiting s) ?sv)
      ((sv_mail s)[i := Some r] ! j) (sv_clients s ! j)" if j: "j < length ids" for j
  proof -
    have old: "client_fits (ids ! j) (log_of j (sv_log s)) (under_way j (sv_waiting s) (Replying i q)) (sv_mail s ! j) (sv_clients s ! j)"
      and n: "length (sv_mail s) = length ids"
      using replies(1,3) j by (simp_all add: clients_fit_def del: under_way.simps)
    have quiet: "under_way j (sv_waiting s) ?sv = map snd (filter (\<lambda>e. fst e = j) (sv_waiting s))" by simp
    show ?thesis
    proof (cases "j = i")
      case True
      have "client_fits (ids ! i) (log_of i (sv_log s)) (map snd (filter (\<lambda>e. fst e = i) (sv_waiting s)) @ [q]) (sv_mail s ! i) (sv_clients s ! i)"
        using old True by simp
      from client_fits_reply [OF this, of r] show ?thesis using True j n unfolding quiet by simp
    next
      case False
      then show ?thesis using old unfolding quiet by simp
    qed
  qed
  then show ?case using replies(1,2,3) by (simp add: clients_fit_def)
next
  case (handler_panics s i q)
  then show ?case by (simp add: clients_fit_ended server_ended_def)
next
  case (reply_fails s i q r h')
  have "clients_fit ids (s\<lparr>sv_server := Server_Err\<rparr>)" by (rule clients_fit_ended [OF reply_fails(4)]) (simp add: server_ended_def)
  then show ?case by (simp add: clients_fit_def)
next
  case (server_fails s)
  then show ?case by (simp add: clients_fit_ended server_ended_def)
next
  case (stops s)
  then show ?case by (auto simp: clients_fit_def)
qed

lemma unsent_fits_step: "service_run answer limit faulty s t \<Longrightarrow> unsent_fits s \<Longrightarrow> unsent_fits t"
  by (induction rule: service_run.induct) (auto simp: unsent_fits_def)

lemma unsent_fits_start: "unsent_fits (service_start ids h)"
  by (simp add: unsent_fits_def service_start_def)

lemma answers_fit_step:
  "service_run answer limit faulty s t \<Longrightarrow> answers_fit answer h s \<Longrightarrow> unsent_fits s \<Longrightarrow> answers_fit answer h t"
proof (induction rule: service_run.induct)
  case (replies s i q r h')
  then show ?case by (auto simp: answers_fit_def unsent_fits_def handled_def answers_snoc)
next
  case (reply_fails s i q r h')
  then show ?case by (auto simp: answers_fit_def unsent_fits_def handled_def answers_snoc)
qed (auto simp: answers_fit_def handled_def)

lemma answers_fit_start: "answers_fit answer h (service_start ids h)"
  by (simp add: answers_fit_def handled_def service_start_def)

lemma service_reach_fits:
  assumes "reach (\<lambda>s. s = service_start ids h) (service_run answer limit faulty) s"
  shows "clients_fit ids s" "answers_fit answer h s" "unsent_fits s"
proof -
  have "clients_fit ids s \<and> answers_fit answer h s \<and> unsent_fits s"
    using assms
    by (induction rule: reach.induct) (auto intro: clients_fit_start clients_fit_step
      answers_fit_start answers_fit_step unsent_fits_start unsent_fits_step)
  then show "clients_fit ids s" "answers_fit answer h s" "unsent_fits s" by simp_all
qed

text \<open>A client that has returned.\<close>

lemma clients_fit_returned:
  "clients_fit ids s \<Longrightarrow> i < length ids \<Longrightarrow> sv_clients s ! i = Client_Ok rs \<Longrightarrow>
   length rs = length (ids ! i) \<and> log_of i (sv_log s) = zip (ids ! i) rs"
proof -
  assume "clients_fit ids s" "i < length ids" "sv_clients s ! i = Client_Ok rs"
  then have "map fst (log_of i (sv_log s)) = ids ! i" "map snd (log_of i (sv_log s)) = rs"
    by (auto simp: clients_fit_def)
  then show ?thesis by (metis length_map zip_map_fst_snd)
qed

section \<open>What a client receives\<close>

text \<open>
  C19: Under every interleaving and every failure of the service, a client that returns normally has received
  the answer to each of its own requests, in the order it sent them, and to nothing else; the
  answers are those of one run of the handler through all requests the server has answered, and the one
  whose answer it failed to send.
\<close>

theorem clients_get_their_answers:
  assumes "reach (\<lambda>s. s = service_start ids h) (service_run answer limit faulty) s"
  shows "answers answer (map (fst \<circ> snd) (sv_log s @ sv_unsent s)) h =
      Some (map (snd \<circ> snd) (sv_log s @ sv_unsent s), sv_handler s) \<and>
    length (sv_unsent s) \<le> 1 \<and> (sv_unsent s \<noteq> [] \<longrightarrow> sv_server s = Server_Err) \<and>
    (\<forall>i < length ids. \<forall>rs. sv_clients s ! i = Client_Ok rs \<longrightarrow>
      length rs = length (ids ! i) \<and> log_of i (sv_log s) = zip (ids ! i) rs)"
  using service_reach_fits [OF assms] clients_fit_returned by (auto simp: answers_fit_def unsent_fits_def handled_def)

section \<open>Every client is served\<close>

text \<open>What the clients have left to do, counting the turns of the server for it.\<close>

fun client_work :: "('q, 'r) client \<Rightarrow> nat" where
  "client_work (Requesting qs rs) = 4 * length qs + 1"
| "client_work (Awaiting q qs rs) = 4 * length qs + 2"
| "client_work _ = 0"

fun server_work :: "'q server_at \<Rightarrow> nat" where
  "server_work (Replying i q) = 1"
| "server_work _ = 0"

definition service_work :: "('q, 'r, 'h) service \<Rightarrow> nat" where
  "service_work s = sum_list (map client_work (sv_clients s)) + 2 * length (sv_waiting s) + server_work (sv_server s)"

lemma work_update:
  "i < length cs \<Longrightarrow> sum_list (map client_work (cs[i := c])) + client_work (cs ! i) =
     sum_list (map client_work cs) + client_work c"
proof -
  assume i: "i < length cs"
  then have "client_work (cs ! i) \<le> sum_list (map client_work cs)"
    using member_le_sum_list [of "client_work (cs ! i)" "map client_work cs"] by simp
  with i show ?thesis by (simp add: map_update sum_list_update)
qed

text \<open>A step of a service without faults does some of the work, or is a poll of the server or the stop.\<close>

lemma service_work_step:
  "service_run answer limit False s t \<Longrightarrow> \<forall>q h. answer q h \<noteq> None \<Longrightarrow>
   service_work t < service_work s \<or>
   (service_work t = service_work s \<and> sv_clients t = sv_clients s \<and> sv_waiting t = sv_waiting s \<and> sv_log t = sv_log s)"
proof (induction rule: service_run.induct)
  case (sends i s q qs rs)
  then show ?case using work_update [OF sends(1), of "Awaiting q qs rs"] by (simp add: service_work_def)
next
  case (returns i s rs)
  then show ?case using work_update [OF returns(1), of "Client_Ok rs"] by (simp add: service_work_def)
next
  case (receives i s q qs rs r)
  then show ?case using work_update [OF receives(1), of "Requesting qs (rs @ [r])"] by (simp add: service_work_def)
qed (simp_all add: service_work_def)

definition served_fairly :: "('q, 'r, 'h) service \<Rightarrow> bool" where
  "served_fairly s \<longleftrightarrow> Client_Err \<notin> set (sv_clients s) \<and> (server_ended (sv_server s) \<longrightarrow> sv_stop s) \<and>
     (\<forall>i < length (sv_clients s). \<forall>q qs rs. sv_clients s ! i = Awaiting q qs rs \<longrightarrow>
        sv_mail s ! i \<noteq> None \<or> under_way i (sv_waiting s) (sv_server s) \<noteq> [])"

lemma under_way_not_Nil:
  "under_way i (ws @ [(i, q)]) sv \<noteq> []"
  "under_way j ws sv \<noteq> [] \<Longrightarrow> under_way j (ws @ [e]) sv \<noteq> []"
  "under_way j (xs @ (i, q) # ys) Receiving \<noteq> [] \<Longrightarrow> under_way j (xs @ ys) (Replying i q) \<noteq> []"
  by (cases sv; auto split: if_splits)+

lemma served_fairly_step:
  assumes "service_run answer None False s t" and "\<forall>q h. answer q h \<noteq> None"
    and "length (sv_mail s) = length (sv_clients s)" and "served_fairly s"
  shows "served_fairly t"
  using assms
proof (induction rule: service_run.induct)
  case (sends i s q qs rs)
  then show ?case
    by (auto simp: served_fairly_def nth_list_update under_way_not_Nil dest!: update_members simp del: under_way.simps)
next
  case (picks s before i q behind)
  then show ?case using under_way_not_Nil(3) [of _ before i q behind]
    by (fastforce simp: served_fairly_def server_ended_def simp del: under_way.simps)
next
  case (replies s i q r h)
  have "(sv_mail s)[i := Some r] ! j \<noteq> None \<or> under_way j (sv_waiting s) Receiving \<noteq> []"
    if "j < length (sv_clients s)" "sv_mail s ! j \<noteq> None \<or> under_way j (sv_waiting s) (Replying i q) \<noteq> []" for j
    using that replies(4) by (cases "j = i") auto
  then show ?case using replies(1,5) by (simp add: served_fairly_def server_ended_def enough_def)
next
  case (checks s)
  then show ?case by (auto simp: served_fairly_def server_ended_def enough_def)
next
  case (returns i s rs)
  then show ?case by (auto simp: served_fairly_def nth_list_update dest!: update_members)
next
  case (receives i s q qs rs r)
  then show ?case by (auto simp: served_fairly_def nth_list_update dest!: update_members)
qed (auto simp: served_fairly_def server_ended_def)

lemma served_fairly_reach:
  assumes "reach (\<lambda>s. s = service_start ids h) (service_run answer None False) s" and "\<forall>q h. answer q h \<noteq> None"
  shows "served_fairly s"
  using assms(1)
proof (induction rule: reach.induct)
  case (reach_init s)
  then show ?case by (auto simp: served_fairly_def service_start_def server_ended_def)
next
  case (reach_step s t)
  then show ?case using served_fairly_step [OF _ assms(2)] service_reach_fits(1) [OF reach_step.hyps(1)]
    by (simp add: clients_fit_def)
qed

text \<open>
  C20: A service without faults starves nobody: in a run of \<open>server\<close> that is not shut down, as long as
  some client has not returned, the work left shrinks with the next step or the one after a poll
  of the server, and no step ever adds to it; so every client gets to its end.
\<close>

theorem every_client_is_served:
  assumes "reach (\<lambda>s. s = service_start ids h) (service_run answer None False) s"
    and "\<forall>q h. answer q h \<noteq> None" and "\<not> sv_stop s"
  shows "(\<forall>t. service_run answer None False s t \<longrightarrow> service_work t \<le> service_work s) \<and>
    ((\<forall>i < length ids. \<exists>rs. sv_clients s ! i = Client_Ok rs) \<or>
     (\<exists>t. service_run answer None False s t \<and> service_work t < service_work s) \<or>
     (\<exists>t u. service_run answer None False s t \<and> service_run answer None False t u \<and> service_work u < service_work s))"
proof -
  let ?step = "service_run answer None False"
  have len: "length (sv_clients s) = length ids" using service_reach_fits(1) [OF assms(1)] by (simp add: clients_fit_def)
  have fair: "served_fairly s" by (rule served_fairly_reach [OF assms(1,2)])
  have works: "service_work t < service_work s" if "?step s t" "sv_clients t \<noteq> sv_clients s \<or> sv_waiting t \<noteq> sv_waiting s \<or> sv_log t \<noteq> sv_log s" for s t
    using service_work_step [OF that(1) assms(2)] that(2) by auto
  have "(\<exists>t. ?step s t \<and> service_work t < service_work s) \<or> (\<exists>t u. ?step s t \<and> ?step t u \<and> service_work u < service_work s)"
    if i: "i < length ids" and open_client: "\<forall>rs. sv_clients s ! i \<noteq> Client_Ok rs" for i
  proof (cases "sv_clients s ! i")
    case (Requesting qs rs)
    have "\<exists>t. ?step s t \<and> sv_clients t ! i \<noteq> sv_clients s ! i"
    proof (cases qs)
      case Nil
      then show ?thesis using returns [of i s rs answer None False] i len Requesting by fastforce
    next
      case (Cons q qs')
      then show ?thesis using sends [of i s q qs' rs answer None False] i len Requesting by fastforce
    qed
    then show ?thesis using works by metis
  next
    case (Awaiting q qs rs)
    show ?thesis
    proof (cases "sv_mail s ! i")
      case (Some r)
      let ?t = "s\<lparr>sv_clients := (sv_clients s)[i := Requesting qs (rs @ [r])], sv_mail := (sv_mail s)[i := None]\<rparr>"
      have t: "?step s ?t" using Some Awaiting i len by (intro receives) simp_all
      have "sv_clients ?t ! i \<noteq> sv_clients s ! i" using Awaiting i len by simp
      then have "sv_clients ?t \<noteq> sv_clients s" by metis
      with works [OF t] t show ?thesis by blast
    next
      case None
      have "\<forall>q qs rs. sv_clients s ! i = Awaiting q qs rs \<longrightarrow> sv_mail s ! i \<noteq> None \<or> under_way i (sv_waiting s) (sv_server s) \<noteq> []"
        using fair i len unfolding served_fairly_def by metis
      with None Awaiting have way: "under_way i (sv_waiting s) (sv_server s) \<noteq> []" by blast
      have picked: "\<exists>u. ?step s' u \<and> service_work u < service_work s'"
        if at: "sv_server s' = Receiving" and full: "sv_waiting s' \<noteq> []" for s' :: "('a, 'b, 'c) service"
      proof -
        obtain j p ws where w: "sv_waiting s' = [] @ (j, p) # ws" using full by (cases "sv_waiting s'") auto
        note u = picks [of s' "[]" j p ws answer None False, OF at w]
        from works [OF u] u w show ?thesis by auto
      qed
      have waiting: "sv_waiting s \<noteq> []" if "\<forall>j p. sv_server s \<noteq> Replying j p" using way that by (cases "sv_server s") auto
      show ?thesis
      proof (cases "sv_server s")
        case Checking
        let ?t = "s\<lparr>sv_server := Receiving\<rparr>"
        have t: "?step s ?t" using checks [of s answer None False] Checking assms(3) by (simp add: enough_def)
        moreover obtain u where "?step ?t u" "service_work u < service_work ?t" using picked [of ?t] waiting Checking by auto
        moreover have "service_work ?t = service_work s" using Checking by (simp add: service_work_def)
        ultimately show ?thesis by auto
      next
        case Receiving
        then show ?thesis using picked [of s] waiting by auto
      next
        case (Replying j p)
        from assms(2) have "answer p (sv_handler s) \<noteq> None" by blast
        then obtain r h' where "answer p (sv_handler s) = Some (r, h')" by fastforce
        note t = replies [of s j p answer r h' None False, OF Replying this]
        from works [OF t] t show ?thesis by auto
      qed (use fair assms(3) in \<open>simp_all add: served_fairly_def server_ended_def\<close>)
    qed
  next
    case (Client_Ok rs)
    then show ?thesis using open_client by simp
  next
    case Client_Err
    then show ?thesis using fair i len by (metis nth_mem served_fairly_def)
  qed
  then show ?thesis using service_work_step [OF _ assms(2)] by (metis le_less)
qed

section \<open>A sample run\<close>

text \<open>One client with one request, served by any handler that answers it.\<close>

lemma single_client_run:
  assumes a: "answer q h = Some (r, h')"
  shows "\<exists>s. reach (\<lambda>s. s = service_start [[q]] h) (service_run answer None faulty) s \<and>
     sv_clients s = [Client_Ok [r]] \<and> sv_log s = [(0, q, r)] \<and> sv_unsent s = [] \<and> sv_handler s = h' \<and> sv_server s = Receiving"
proof -
  let ?R = "reach (\<lambda>s. s = service_start [[q]] h) (service_run answer None faulty)"
  let ?S = "\<lambda>c ws m sv n log. \<lparr>sv_clients = [c], sv_waiting = ws, sv_mail = [m], sv_server = sv, sv_handler = n,
    sv_log = log, sv_unsent = [], sv_stop = False\<rparr>"
  have "?R (?S (Requesting [q] []) [] None Checking h [])"
    by (rule reach_init) (simp add: service_start_def)
  from reach_step [OF this checks] have "?R (?S (Requesting [q] []) [] None Receiving h [])" by (simp add: enough_def)
  from reach_step [OF this sends [of 0]] have "?R (?S (Awaiting q [] []) [(0, q)] None Receiving h [])" by simp
  from reach_step [OF this picks [of _ "[]"]] have "?R (?S (Awaiting q [] []) [] None (Replying 0 q) h [])" by simp
  from reach_step [OF this replies [of _ 0 q]] a
  have "?R (?S (Awaiting q [] []) [] (Some r) Receiving h' [(0, q, r)])" by (simp add: enough_def)
  from reach_step [OF this receives [of 0]] have "?R (?S (Requesting [] [r]) [] None Receiving h' [(0, q, r)])" by simp
  from reach_step [OF this returns [of 0]] have "?R (?S (Client_Ok [r]) [] None Receiving h' [(0, q, r)])" by simp
  then show ?thesis by (intro exI conjI) (assumption, simp_all)
qed

theorem clients_get_their_answers_witness:
  "\<exists>s :: (u8, u8, nat) service. sv_clients s = [Client_Ok [42]] \<and> sv_handler s = (1 :: nat) \<and> log_of 0 (sv_log s) = zip [42 :: u8] [42]"
proof -
  obtain s where s: "reach (\<lambda>s. s = service_start [[42 :: u8]] (0 :: nat)) (service_run (\<lambda>q n. Some (q, n + 1)) None True) s"
    "sv_clients s = [Client_Ok [42]]" "sv_log s = [(0, 42, 42)]" "sv_unsent s = []"
    using single_client_run [of "\<lambda>(q :: u8) (n :: nat). Some (q, n + 1)" 42 0 42 1 True] by auto
  from clients_get_their_answers [OF s(1)] s(2-4) have "sv_handler s = 1 \<and> log_of 0 (sv_log s) = zip [42] [42]" by simp
  with s(2) show ?thesis by blast
qed

theorem every_client_is_served_witness:
  "\<exists>s. reach (\<lambda>s. s = service_start [[42 :: u8]] (0 :: nat)) (service_run (\<lambda>q n. Some (q, n + 1)) None False) s \<and>
     sv_clients s = [Requesting [42] []] \<and>
     ((\<exists>t. service_run (\<lambda>q n. Some (q, n + 1)) None False s t \<and> service_work t < service_work s) \<or>
      (\<exists>t u. service_run (\<lambda>q n. Some (q, n + 1)) None False s t \<and> service_run (\<lambda>q n. Some (q, n + 1)) None False t u \<and>
         service_work u < service_work s))"
proof -
  let ?s = "service_start [[42 :: u8]] (0 :: nat) :: (u8, u8, nat) service"
  have r: "reach (\<lambda>s. s = ?s) (service_run (\<lambda>q n. Some (q, n + 1)) None False) ?s" by (rule reach_init) simp
  have "\<not> sv_stop ?s" "sv_clients ?s = [Requesting [42] []]" by (simp_all add: service_start_def)
  with every_client_is_served [OF r] r show ?thesis by auto
qed

end
