(* ===== verification/Service_Tests.thy ===== *)
theory Service_Tests
  imports Service
begin

text \<open>
  The tests of \<open>src/txfwd.rs\<close>: what each checks of the results of its threads, and that every run of
  the threads whose calls succeed passes.
\<close>

section \<open>The sample server\<close>

record sample_response =
  sr_id :: u8
  sr_success :: bool

definition sample_answer :: "u8 \<Rightarrow> unit \<Rightarrow> (sample_response \<times> unit) exec" where
  "sample_answer request_id h = ret (\<lparr>sr_id = request_id, sr_success = True\<rparr>, h)"

abbreviation sample_run ::
    "u8 list list \<Rightarrow> bool \<Rightarrow> (u8, sample_response, unit) service \<Rightarrow> bool" where
  "sample_run ids faulty \<equiv> reach (\<lambda>s. s = service_start ids ())
     (service_run sample_answer (Some (sum_list (map length ids))) faulty)"

text \<open>What joining the threads returns.\<close>

definition join_client :: "('q, 'r) client \<Rightarrow> string + 'r list" where
  "join_client c = (case c of Client_Ok rs \<Rightarrow> Inr rs | _ \<Rightarrow> Inl [])"

definition join_server :: "('q, 'r, 'h) service \<Rightarrow> string + 'r list" where
  "join_server s = (case sv_server s of Server_Ok \<Rightarrow> Inr (map (snd \<circ> snd) (sv_log s)) | _ \<Rightarrow> Inl [])"

section \<open>The tests\<close>

definition check_response :: "u8 \<Rightarrow> sample_response \<Rightarrow> unit exec" where
  "check_response expected_id response = do {
     assert_that (sr_id response = expected_id);
     assert_that (sr_success response)
   }"

definition check_responses :: "u8 list \<Rightarrow> sample_response list \<Rightarrow> unit exec" where
  "check_responses ids responses = do {
     assert_that (length responses = length ids);
     for_each (\<lambda>(expected_id, response). check_response expected_id response) (zip ids responses)
   }"

definition test_single_request_response ::
    "string + sample_response list \<Rightarrow> string + sample_response list \<Rightarrow> unit exec" where
  "test_single_request_response client_result server_result = do {
     responses \<leftarrow> unwrap client_result;
     assert_that (length responses = 1);
     response \<leftarrow> index responses 0;
     check_response 42 response;
     server_responses \<leftarrow> unwrap server_result;
     assert_that (length server_responses = 1);
     response \<leftarrow> index server_responses 0;
     assert_that (sr_id response = 42)
   }"

definition test_multiple_requests_sequential ::
    "string + sample_response list \<Rightarrow> string + sample_response list \<Rightarrow> unit exec" where
  "test_multiple_requests_sequential client_result server_result = (let request_ids = [0, 1, 2, 3, 4] :: u8 list in do {
     responses \<leftarrow> unwrap client_result;
     assert_that (length responses = length request_ids);
     for_each (\<lambda>(i, response). check_response (word_of_nat i) response) (enumerate 0 responses);
     server_responses \<leftarrow> unwrap server_result;
     assert_that (length server_responses = length request_ids)
   })"

definition test_request_response_data_integrity :: "string + sample_response list \<Rightarrow> unit exec" where
  "test_request_response_data_integrity client_result = do {
     responses \<leftarrow> unwrap client_result;
     check_responses [0, 1, 127, 128, 254, 255] responses
   }"

definition test_concurrent_clients ::
    "string + sample_response list \<Rightarrow> string + sample_response list \<Rightarrow> unit exec" where
  "test_concurrent_clients client1_result client2_result = do {
     responses1 \<leftarrow> unwrap client1_result;
     responses2 \<leftarrow> unwrap client2_result;
     assert_that (length responses1 = 3);
     assert_that (length responses2 = 3);
     for_each (\<lambda>(i, response). check_response (10 + word_of_nat i) response) (enumerate 0 responses1);
     for_each (\<lambda>(i, response). check_response (20 + word_of_nat i) response) (enumerate 0 responses2)
   }"

text \<open>The test that sets the service up again and again: one cycle, and the last request.\<close>

definition CYCLES :: nat where
  "CYCLES = 3"

definition REQUESTS_PER_CYCLE :: nat where
  "REQUESTS_PER_CYCLE = 3"

definition cycle_ids :: "nat \<Rightarrow> u8 list" where
  "cycle_ids cycle = map (\<lambda>i. word_of_nat (cycle * REQUESTS_PER_CYCLE + i)) [0..<REQUESTS_PER_CYCLE]"

definition test_teardown_cycle ::
    "nat \<Rightarrow> string + sample_response list \<Rightarrow> string + sample_response list \<Rightarrow> unit exec" where
  "test_teardown_cycle cycle client_result server_result = do {
     responses \<leftarrow> unwrap client_result;
     assert_that (length responses = REQUESTS_PER_CYCLE);
     for_each (\<lambda>(i, response). check_response (word_of_nat (cycle * REQUESTS_PER_CYCLE + i)) response)
       (enumerate 0 responses);
     server_responses \<leftarrow> unwrap server_result;
     assert_that (length server_responses = REQUESTS_PER_CYCLE)
   }"

definition test_teardown_final :: "string + sample_response list \<Rightarrow> unit exec" where
  "test_teardown_final final_result = do {
     final_responses \<leftarrow> unwrap final_result;
     assert_that (length final_responses = 1);
     response \<leftarrow> index final_responses 0;
     check_response 255 response
   }"

section \<open>They pass\<close>

definition sample_responses :: "u8 list \<Rightarrow> sample_response list" where
  "sample_responses ids = map (\<lambda>i. \<lparr>sr_id = i, sr_success = True\<rparr>) ids"

lemma answers_sample: "answers sample_answer ids h = Some (sample_responses ids, h)"
  by (induction ids) (simp_all add: sample_responses_def sample_answer_def)

definition named :: "nat \<Rightarrow> ('q, 'r, 'h) service \<Rightarrow> bool" where
  "named n s \<longleftrightarrow> length (sv_clients s) = n \<and> (\<forall>e \<in> set (sv_waiting s). fst e < n) \<and>
     (\<forall>e \<in> set (sv_log s). fst e < n) \<and> (\<forall>i q. sv_server s = Replying i q \<longrightarrow> i < n)"

lemma named_step: "service_run answer limit faulty s t \<Longrightarrow> named n s \<Longrightarrow> named n t"
  by (induction rule: service_run.induct) (auto simp: named_def)

lemma named_start: "named (length ids) (service_start ids h)"
  by (simp add: named_def service_start_def)

lemma named_reach: "reach (\<lambda>s. s = service_start ids h) (service_run answer limit faulty) s \<Longrightarrow> named (length ids) s"
  by (induction rule: reach.induct) (auto intro: named_start named_step)

lemma length_log:
  "\<forall>e \<in> set log. fst e < n \<Longrightarrow> length log = (\<Sum>i < n. length (log_of i log))"
proof (induction log)
  case (Cons e log)
  have "(\<Sum>i < n. length (log_of i (e # log))) = (\<Sum>i < n. length (log_of i log) + (if i = fst e then 1 else 0))"
    by (rule sum.cong) (auto simp: log_of_def)
  also have "\<dots> = (\<Sum>i < n. length (log_of i log)) + 1" using Cons.prems by (simp add: sum.distrib)
  finally show ?case using Cons by simp
qed (simp add: log_of_def)

text \<open>The results of a run in which every thread returns normally.\<close>

lemma sample_results:
  assumes run: "sample_run ids faulty s"
  shows "\<And>i rs. i < length ids \<Longrightarrow> join_client (sv_clients s ! i) = Inr rs \<Longrightarrow> rs = sample_responses (ids ! i)"
    and "\<And>rs. join_server s = Inr rs \<Longrightarrow> (\<forall>i < length ids. \<exists>cs. sv_clients s ! i = Client_Ok cs) \<Longrightarrow>
      length rs = sum_list (map length ids) \<and> (\<forall>id. ids = [id] \<longrightarrow> rs = sample_responses id)"
proof -
  note fits = service_reach_fits [OF run]
  have "map (snd \<circ> snd) (handled s) = sample_responses (map (fst \<circ> snd) (handled s))"
    using fits by (auto simp: answers_fit_def answers_sample)
  then have log: "map (snd \<circ> snd) (sv_log s) = sample_responses (map (fst \<circ> snd) (sv_log s))"
    by (simp add: handled_def sample_responses_def)
  then have resp: "snd (snd e) = \<lparr>sr_id = fst (snd e), sr_success = True\<rparr>" if "e \<in> set (sv_log s)" for e
    using that by (auto simp: sample_responses_def)
  have own: "map fst (log_of i (sv_log s)) = ids ! i \<and> map snd (log_of i (sv_log s)) = cs"
    if "i < length ids" "sv_clients s ! i = Client_Ok cs" for i cs
    using fits that by (auto simp: clients_fit_def)
  show "rs = sample_responses (ids ! i)" if i: "i < length ids" and "join_client (sv_clients s ! i) = Inr rs" for i rs
  proof -
    have c: "sv_clients s ! i = Client_Ok rs" using that(2) by (auto simp: join_client_def split: client.splits)
    have "snd x = \<lparr>sr_id = fst x, sr_success = True\<rparr>" if "x \<in> set (log_of i (sv_log s))" for x
      using that resp by (auto simp: log_of_def)
    then have "map snd (log_of i (sv_log s)) = sample_responses (map fst (log_of i (sv_log s)))"
      by (simp add: sample_responses_def)
    then show ?thesis using own [OF i c] by simp
  qed
  fix rs assume joined: "join_server s = Inr rs" and ok: "\<forall>i < length ids. \<exists>cs. sv_clients s ! i = Client_Ok cs"
  have rs: "rs = map (snd \<circ> snd) (sv_log s)" using joined by (auto simp: join_server_def split: server_at.splits)
  have names: "\<forall>e \<in> set (sv_log s). fst e < length ids" using named_reach [OF run] by (simp add: named_def)
  have len: "length (log_of i (sv_log s)) = length (ids ! i)" if "i < length ids" for i
    using own [OF that] ok that by (metis length_map)
  have "length (sv_log s) = (\<Sum>i < length ids. length (ids ! i))"
    using length_log [OF names] len by simp
  also have "\<dots> = sum_list (map length ids)" by (simp add: sum_list_sum_nth atLeast0LessThan)
  finally have "length rs = sum_list (map length ids)" by (simp add: rs)
  moreover have "rs = sample_responses id" if "ids = [id]" for id
  proof -
    have "filter (\<lambda>e. fst e = 0) (sv_log s) = sv_log s" using names that by (auto simp: filter_id_conv)
    then have "map (fst \<circ> snd) (sv_log s) = id" using own [of 0] ok that by (auto simp: log_of_def)
    then show ?thesis using log rs by simp
  qed
  ultimately show "length rs = sum_list (map length ids) \<and> (\<forall>id. ids = [id] \<longrightarrow> rs = sample_responses id)" by blast
qed

text \<open>
  Every test passes when its threads return normally: with one client, the teardown cycles included,
  and with two clients at once.
\<close>

lemma enumerate_responses:
  "for_each (\<lambda>(i, response). check_response (f i) response) (enumerate n (sample_responses ids)) = Some () \<longleftrightarrow>
     ids = map f [n..<n + length ids]"
proof (induction ids arbitrary: n)
  case (Cons id ids)
  have "ids = map f [Suc n..<Suc n + length ids] \<longleftrightarrow> ids = map f [Suc n..<Suc (n + length ids)]" by simp
  then show ?case using Cons [of "Suc n"]
    by (auto simp: sample_responses_def check_response_def upt_conv_Cons Option.bind_eq_Some_conv simp del: upt_Suc)
qed (simp add: sample_responses_def)

lemma check_sample_responses: "check_responses ids (sample_responses ids) = Some ()"
  by (auto simp: check_responses_def for_each_ok check_response_def sample_responses_def zip_map2 set_zip)

lemma one_client_tests_pass:
  assumes run: "sample_run [ids] faulty s" and "join_client (sv_clients s ! 0) = Inr cs" and "join_server s = Inr rs"
  shows "ids = [42] \<Longrightarrow> test_single_request_response (Inr cs) (Inr rs) = Some ()"
    and "ids = [0, 1, 2, 3, 4] \<Longrightarrow> test_multiple_requests_sequential (Inr cs) (Inr rs) = Some ()"
    and "ids = [0, 1, 127, 128, 254, 255] \<Longrightarrow> test_request_response_data_integrity (Inr cs) = Some ()"
    and "ids = cycle_ids cycle \<Longrightarrow> test_teardown_cycle cycle (Inr cs) (Inr rs) = Some ()"
    and "ids = [255] \<Longrightarrow> test_teardown_final (Inr cs) = Some ()"
proof -
  have cs: "cs = sample_responses ids" using sample_results(1) [OF run, of 0 cs] assms(2) by simp
  have "\<exists>cs. sv_clients s ! 0 = Client_Ok cs" using assms(2) by (auto simp: join_client_def split: client.splits)
  then have rs: "rs = sample_responses ids" using sample_results(2) [OF run assms(3)] by simp
  show "ids = [42] \<Longrightarrow> test_single_request_response (Inr cs) (Inr rs) = Some ()"
    and "ids = [255] \<Longrightarrow> test_teardown_final (Inr cs) = Some ()"
    by (simp_all add: cs rs sample_responses_def test_single_request_response_def test_teardown_final_def check_response_def slice_simps)
  show "ids = [0, 1, 127, 128, 254, 255] \<Longrightarrow> test_request_response_data_integrity (Inr cs) = Some ()"
    by (simp add: cs test_request_response_data_integrity_def check_sample_responses)
  have len: "length (sample_responses ids) = length ids" for ids by (simp add: sample_responses_def)
  show "ids = [0, 1, 2, 3, 4] \<Longrightarrow> test_multiple_requests_sequential (Inr cs) (Inr rs) = Some ()"
    by (simp add: cs rs test_multiple_requests_sequential_def enumerate_responses len upt_conv_Cons)
  show "ids = cycle_ids cycle \<Longrightarrow> test_teardown_cycle cycle (Inr cs) (Inr rs) = Some ()"
    by (simp add: cs rs test_teardown_cycle_def enumerate_responses len cycle_ids_def)
qed

lemma two_clients_test_passes:
  assumes run: "sample_run [[10, 11, 12], [20, 21, 22]] faulty s"
    and "join_client (sv_clients s ! 0) = Inr cs" and "join_client (sv_clients s ! 1) = Inr cs'"
  shows "test_concurrent_clients (Inr cs) (Inr cs') = Some ()"
proof -
  have cs: "cs = sample_responses [10, 11, 12]" "cs' = sample_responses [20, 21, 22]"
    using sample_results(1) [OF run, of 0 cs] sample_results(1) [OF run, of 1 cs'] assms(2,3) by simp_all
  have len: "length (sample_responses ids) = length ids" for ids by (simp add: sample_responses_def)
  show ?thesis by (simp add: cs test_concurrent_clients_def enumerate_responses len upt_conv_Cons Option.bind_eq_Some_conv)
qed

end
