(* ===== verification/Queue_Test.thy ===== *)
theory Queue_Test
  imports Queue
begin

text \<open>
  The test of \<open>src/queue.rs\<close>: producers on every processor, one consumer that adds up what it takes, and
  a last element that tells it to stop.  Its sums are 64-bit and would need some \<open>3.6 * 10 ^ 9\<close>
  processors to overflow.
\<close>

section \<open>The threads\<close>

definition LAST :: nat where
  "LAST = 100000"

text \<open>The consumer with its tries and its sum, returned with the sum, or out of tries.\<close>

datatype consumer_at = Consuming nat u64 | Summed u64 | Gave_Up

text \<open>\<open>qt_next\<close> and \<open>qt_sums\<close> are the producers' loop variables and checksums.\<close>

record 'q queue_test =
  qt_queue :: 'q
  qt_next :: "nat list"
  qt_sums :: "u64 list"
  qt_told :: bool
  qt_consumer :: consumer_at

definition queue_test_start :: "(int, 'q) queue_ops \<Rightarrow> nat \<Rightarrow> 'q queue_test" where
  "queue_test_start ops cpus = \<lparr>qt_queue = op_new ops, qt_next = replicate cpus 1, qt_sums = replicate cpus 0,
     qt_told = False, qt_consumer = Consuming 0 0\<rparr>"

inductive queue_test_step :: "(int, 'q) queue_ops \<Rightarrow> 'q queue_test \<Rightarrow> 'q queue_test \<Rightarrow> bool" for ops where
  produces: "k < length (qt_next s) \<Longrightarrow> qt_next s ! k = i \<Longrightarrow> i < LAST \<Longrightarrow>
     queue_test_step ops s (s\<lparr>qt_queue := op_push ops (int i) (qt_queue s), qt_next := (qt_next s)[k := i + 1],
       qt_sums := (qt_sums s)[k := qt_sums s ! k + word_of_nat i]\<rparr>)"
| tells: "\<forall>i \<in> set (qt_next s). LAST \<le> i \<Longrightarrow> \<not> qt_told s \<Longrightarrow>
     queue_test_step ops s (s\<lparr>qt_queue := op_push ops (- 1) (qt_queue s), qt_told := True\<rparr>)"
| takes: "qt_consumer s = Consuming tries acc \<Longrightarrow> tries < 10 \<Longrightarrow> op_pop ops (qt_queue s) = (Some r, q) \<Longrightarrow> 0 < r \<Longrightarrow>
     queue_test_step ops s (s\<lparr>qt_queue := q, qt_consumer := Consuming tries (acc + word_of_int r)\<rparr>)"
| breaks: "qt_consumer s = Consuming tries acc \<Longrightarrow> tries < 10 \<Longrightarrow> op_pop ops (qt_queue s) = (Some r, q) \<Longrightarrow> \<not> 0 < r \<Longrightarrow>
     queue_test_step ops s (s\<lparr>qt_queue := q, qt_consumer := Summed acc\<rparr>)"
| finds_none: "qt_consumer s = Consuming tries acc \<Longrightarrow> tries < 10 \<Longrightarrow> op_pop ops (qt_queue s) = (None, q) \<Longrightarrow>
     queue_test_step ops s (s\<lparr>qt_queue := q, qt_consumer := Consuming (tries + 1) acc\<rparr>)"
| gives_up: "qt_consumer s = Consuming tries acc \<Longrightarrow> 10 \<le> tries \<Longrightarrow>
     queue_test_step ops s (s\<lparr>qt_consumer := Gave_Up\<rparr>)"

text \<open>The assertion at the end.\<close>

definition queue_test_result :: "consumer_at \<Rightarrow> u64 list \<Rightarrow> unit exec" where
  "queue_test_result c sums = (case c of
     Summed v \<Rightarrow> assert_that (v = sum_list sums)
   | _ \<Rightarrow> assert_that (0 = sum_list sums))"

section \<open>The checksums agree\<close>

definition pushed_ok :: "bool \<Rightarrow> int list \<Rightarrow> bool" where
  "pushed_ok told xs \<longleftrightarrow> (\<exists>ys. (\<forall>y \<in> set ys. 0 < y) \<and> xs = ys @ (if told then [- 1] else []))"

definition total_of :: "int list \<Rightarrow> u64" where
  "total_of xs = sum_list (map word_of_int (filter (\<lambda>x. 0 < x) xs))"

definition checksum_inv :: "('q \<Rightarrow> int list) \<Rightarrow> 'q queue_test \<Rightarrow> bool" where
  "checksum_inv contents s \<longleftrightarrow> length (qt_sums s) = length (qt_next s) \<and> (\<forall>i \<in> set (qt_next s). 0 < i) \<and>
     (qt_told s \<longrightarrow> (\<forall>i \<in> set (qt_next s). LAST \<le> i)) \<and>
     (case qt_consumer s of
        Consuming tries acc \<Rightarrow> pushed_ok (qt_told s) (contents (qt_queue s)) \<and>
          acc + total_of (contents (qt_queue s)) = sum_list (qt_sums s)
      | Summed v \<Rightarrow> qt_told s \<and> v = sum_list (qt_sums s)
      | Gave_Up \<Rightarrow> True)"

lemma total_of_simps [simp]:
  "total_of [] = 0" "total_of (x # xs) = (if 0 < x then word_of_int x else 0) + total_of xs"
  "total_of (xs @ ys) = total_of xs + total_of ys"
  by (simp_all add: total_of_def)

lemma sum_update: "k < length xs \<Longrightarrow> sum_list (xs[k := xs ! k + d]) = sum_list xs + (d :: u64)"
  by (induction xs arbitrary: k) (auto simp: algebra_simps split: nat.splits)

lemma pushed_ok_push: "pushed_ok False xs \<Longrightarrow> 0 < x \<Longrightarrow> pushed_ok False (xs @ [x])"
  by (auto simp: pushed_ok_def)

lemma pushed_ok_tell: "pushed_ok False xs \<Longrightarrow> pushed_ok True (xs @ [- 1])"
  by (auto simp: pushed_ok_def)

lemma pushed_ok_pop: "pushed_ok told (x # xs) \<Longrightarrow> 0 < x \<Longrightarrow> pushed_ok told xs"
  by (force simp: pushed_ok_def Cons_eq_append_conv split: if_splits)

lemma pushed_ok_stop: "pushed_ok told (x # xs) \<Longrightarrow> \<not> 0 < x \<Longrightarrow> told \<and> xs = []"
  by (auto simp: pushed_ok_def Cons_eq_append_conv split: if_splits)

lemma checksum_step:
  assumes "fifo ops contents" and "queue_test_step ops s t" and "checksum_inv contents s"
  shows "checksum_inv contents t"
  using assms(2,3)
proof (induction rule: queue_test_step.induct)
  case (produces k s i)
  then have not_told: "\<not> qt_told s" by (auto simp: checksum_inv_def all_set_conv_all_nth not_le)
  have pos: "0 < i" using produces by (auto simp: checksum_inv_def all_set_conv_all_nth)
  show ?case using produces not_told pos fifo.contents_push [OF assms(1)] sum_update [of k "qt_sums s" "word_of_nat i"]
    by (auto simp: checksum_inv_def pushed_ok_push algebra_simps split: consumer_at.splits dest!: update_members)
next
  case (tells s)
  then show ?case using fifo.contents_push [OF assms(1)]
    by (auto simp: checksum_inv_def pushed_ok_tell split: consumer_at.splits)
next
  case (takes s tries acc r q)
  then show ?case using fifo.popped(1) [OF assms(1) takes(3)] pushed_ok_pop
    by (auto simp: checksum_inv_def algebra_simps)
next
  case (breaks s tries acc r q)
  then show ?case using fifo.popped(1) [OF assms(1) breaks(3)] pushed_ok_stop [of "qt_told s" r "contents q"]
    by (auto simp: checksum_inv_def)
next
  case (finds_none s tries acc q)
  then show ?case using fifo.popped(2) [OF assms(1) finds_none(3)] by (auto simp: checksum_inv_def)
next
  case (gives_up s tries acc)
  then show ?case by (simp add: checksum_inv_def)
qed

text \<open>A consumer that is stopped by the last element has the producers' sum: the assertion holds.\<close>

lemma queue_test_passes:
  assumes "fifo ops contents" and "reach (\<lambda>s. s = queue_test_start ops cpus) (queue_test_step ops) s"
    and "qt_consumer s = Summed v"
  shows "(\<forall>i \<in> set (qt_next s). LAST \<le> i) \<and> queue_test_result (Summed v) (qt_sums s) = Some ()"
proof -
  have "checksum_inv contents s" using assms(2)
  proof (induction rule: reach.induct)
    case (reach_init s)
    then show ?case
      by (simp add: queue_test_start_def checksum_inv_def fifo.contents_new [OF assms(1)] pushed_ok_def sum_list_replicate)
  qed (blast intro: checksum_step [OF assms(1)])
  then show ?thesis using assms(3) by (simp add: checksum_inv_def queue_test_result_def)
qed

text \<open>The queue of the test is a \<open>LocklessQueue\<close>.\<close>

lemmas lockless_queue_test_passes = queue_test_passes [OF lockless.fifo_axioms]

end
