(* ===== verification/Quic_Locks.thy ===== *)
theory Quic_Locks
  imports Quic "HOL-Library.Sublist"
begin

text \<open>
  \<open>src/quic.rs\<close>: \<open>on_request\<close> and a turn of the background loop as sequences of atomic actions, with the
  two mutexes they share.  \<open>l_leader\<close> is locked for one statement at a time; \<open>pending\<close> for one statement
  by \<open>on_request\<close>, but for the whole retry pass, network sends included, by the background thread.
  No action under a lock panics, so no lock is ever poisoned.
\<close>

section \<open>The two threads\<close>

text \<open>
  Where a request stands: none, about to queue its batch, about to copy the leaders, sending to the
  rest of them, or dead of a panic.  Where the background thread stands: waiting for its next query,
  about to store the leaders, about to read the clock, about to lock \<open>pending\<close>, retrying with the
  lock held, or dead of a panic in the query.
\<close>

datatype ('ip, 'pk) request_at =
    Idle | Queueing | Snapshotting | Sending "('ip, 'pk) leader_tpu_info list" | Broken

datatype ('ip, 'pk) retry_at =
    Waiting
  | Publishing "('ip, 'pk) leader_tpu_info list"
  | Stamping "('ip, 'pk) leader_tpu_info list"
  | Locking "('ip, 'pk) leader_tpu_info list" nat
  | Retrying "('ip socket_addr \<times> u8 list list) list"
  | Dead

text \<open>For the statements, \<open>lk_queued\<close> lists every batch ever queued and \<open>lk_answers\<close> the answers given.\<close>

record ('ip, 'pk) locked =
  lk_handler :: "('ip, 'pk) handler"
  lk_request :: "('ip, 'pk) request_at"
  lk_retry :: "('ip, 'pk) retry_at"
  lk_clock :: nat
  lk_queued :: "pending_batch list"
  lk_answers :: "u16 result list"

definition lock_start :: "nat \<Rightarrow> ('ip, 'pk) handler \<Rightarrow> ('ip, 'pk) locked" where
  "lock_start now h = \<lparr>lk_handler = h, lk_request = Idle, lk_retry = Waiting, lk_clock = now,
     lk_queued = pending h, lk_answers = []\<rparr>"

definition holds_pending :: "('ip, 'pk) retry_at \<Rightarrow> bool" where
  "holds_pending r = (case r of Retrying ms \<Rightarrow> True | _ \<Rightarrow> False)"

section \<open>Actions of a request\<close>

text \<open>Everything before the first lock: the transactions are cut out of the request, or it panics.\<close>

definition accept_request :: "transaction_request \<Rightarrow> ('ip, 'pk) locked \<Rightarrow> ('ip, 'pk) locked" where
  "accept_request rq s = (case request_slices rq [0..<unat (rq_count rq)] 0 of
     None \<Rightarrow> s\<lparr>lk_request := Broken\<rparr>
   | Some txs \<Rightarrow> s\<lparr>lk_handler := (lk_handler s)\<lparr>l_tx := txs, sent_count := 0\<rparr>, lk_request := Queueing\<rparr>)"

definition send_one ::
    "profile \<Rightarrow> 'ip sender \<Rightarrow> ('ip, 'pk) leader_tpu_info \<Rightarrow> ('ip, 'pk) handler \<Rightarrow> ('ip, 'pk) handler exec" where
  "send_one p send leader h = do {
     let sent = send (wire h) (li_addr leader) (l_tx h);
     let h = h\<lparr>wire := wire h @ [(li_addr leader, l_tx h)]\<rparr>;
     if sent then do { n \<leftarrow> add_checked p (sent_count h) 1; ret (h\<lparr>sent_count := n\<rparr>) } else ret h
   }"

text \<open>\<open>None\<close> is a request that cannot move: there is none, it is dead, or it waits for the lock.\<close>

definition request_act ::
    "profile \<Rightarrow> 'ip sender \<Rightarrow> nat \<Rightarrow> ('ip, 'pk) locked \<Rightarrow> ('ip, 'pk) locked option" where
  "request_act p send now s = (let h = lk_handler s in case lk_request s of
     Queueing \<Rightarrow> if holds_pending (lk_retry s) then None else
       (let b = \<lparr>pb_txs = l_tx h, pb_sent_at = now\<rparr> in
        Some (s\<lparr>lk_handler := h\<lparr>pending := pending h @ [b]\<rparr>, lk_request := Snapshotting, lk_queued := lk_queued s @ [b]\<rparr>))
   | Snapshotting \<Rightarrow> Some (s\<lparr>lk_request := Sending (l_leader h)\<rparr>)
   | Sending [] \<Rightarrow> Some (s\<lparr>lk_request := Idle,
       lk_answers := lk_answers s @ [if sent_count h = 0 then Inl OutofRange else Inr (sent_count h)]\<rparr>)
   | Sending (leader # leaders) \<Rightarrow> (case send_one p send leader h of
       None \<Rightarrow> Some (s\<lparr>lk_handler := h\<lparr>wire := wire h @ [(li_addr leader, l_tx h)]\<rparr>, lk_request := Broken\<rparr>)
     | Some h \<Rightarrow> Some (s\<lparr>lk_handler := h, lk_request := Sending leaders\<rparr>))
   | Idle \<Rightarrow> None
   | Broken \<Rightarrow> None)"

section \<open>Actions of the background thread\<close>

definition retry_act ::
    "('ip, 'pk) leader_tpu_info list result exec \<Rightarrow> nat \<Rightarrow> ('ip, 'pk) locked \<Rightarrow> ('ip, 'pk) locked" where
  "retry_act answer now s = (let h = lk_handler s in case lk_retry s of
     Waiting \<Rightarrow> (case answer of
         None \<Rightarrow> s\<lparr>lk_retry := Dead\<rparr>
       | Some (Inl e) \<Rightarrow> s\<lparr>lk_handler := h\<lparr>sleep_ms := min (sleep_ms h * 2) 5000\<rparr>\<rparr>
       | Some (Inr leaders) \<Rightarrow> s\<lparr>lk_handler := h\<lparr>sleep_ms := 400\<rparr>, lk_retry := Publishing leaders\<rparr>)
   | Publishing leaders \<Rightarrow> s\<lparr>lk_handler := h\<lparr>l_leader := leaders\<rparr>, lk_retry := Stamping leaders\<rparr>
   | Stamping leaders \<Rightarrow> s\<lparr>lk_retry := Locking leaders now\<rparr>
   | Locking leaders t \<Rightarrow> (let kept = filter (\<lambda>b. t - pb_sent_at b < PENDING_TX_TTL) (pending h) in
       s\<lparr>lk_handler := h\<lparr>pending := kept\<rparr>, lk_retry := Retrying (retry_pending leaders kept)\<rparr>)
   | Retrying [] \<Rightarrow> s\<lparr>lk_retry := Waiting\<rparr>
   | Retrying (m # ms) \<Rightarrow> s\<lparr>lk_handler := h\<lparr>wire := wire h @ [m]\<rparr>, lk_retry := Retrying ms\<rparr>
   | Dead \<Rightarrow> s)"

section \<open>The interleavings\<close>

inductive lock_step ::
    "profile \<Rightarrow> (string \<Rightarrow> 'pk option) \<Rightarrow> ('ip, 'pk) locked \<Rightarrow> ('ip, 'pk) locked \<Rightarrow> bool" for p parse where
  accepts: "lk_request s = Idle \<Longrightarrow> lk_clock s \<le> now \<Longrightarrow>
     lock_step p parse s (accept_request rq (s\<lparr>lk_clock := now\<rparr>))"
| request_acts: "lk_clock s \<le> now \<Longrightarrow> request_act p send now (s\<lparr>lk_clock := now\<rparr>) = Some t \<Longrightarrow>
     lock_step p parse s t"
| retry_acts: "lk_retry s \<noteq> Dead \<Longrightarrow> lk_clock s \<le> now \<Longrightarrow>
     lock_step p parse s (retry_act (get_leader_tpu_addresses p parse rpc (Some 8)) now (s\<lparr>lk_clock := now\<rparr>))"

section \<open>Undisturbed runs\<close>

primrec request_acts_alone ::
    "nat \<Rightarrow> profile \<Rightarrow> 'ip sender \<Rightarrow> nat \<Rightarrow> ('ip, 'pk) locked \<Rightarrow> ('ip, 'pk) locked option" where
  "request_acts_alone 0 p send now s = Some s"
| "request_acts_alone (Suc n) p send now s =
     Option.bind (request_act p send now s) (request_acts_alone n p send now)"

lemma send_to_leaders_one:
  "l_tx h = txs \<Longrightarrow> send_to_leaders p send txs (l # ls) h =
     Option.bind (send_one p send l h) (send_to_leaders p send txs ls)"
  by (cases "send (wire h) (li_addr l) txs") (simp_all add: send_one_def Let_def)

lemma send_one_tx: "send_one p send l h = Some h' \<Longrightarrow> l_tx h' = l_tx h"
  by (auto simp: send_one_def Let_def Option.bind_eq_Some_conv split: if_splits)

lemma sending_alone:
  assumes "lk_request s = Sending ls" and "lk_handler s = h"
  shows "(case send_to_leaders p send (l_tx h) ls h of
     None \<Rightarrow> \<exists>n t. request_acts_alone n p send now s = Some t \<and> lk_request t = Broken
   | Some h' \<Rightarrow> request_acts_alone (Suc (length ls)) p send now s = Some (s\<lparr>lk_handler := h', lk_request := Idle,
       lk_answers := lk_answers s @ [if sent_count h' = 0 then Inl OutofRange else Inr (sent_count h')]\<rparr>))"
  using assms
proof (induction ls arbitrary: s h)
  case Nil
  then show ?case by (simp add: request_act_def)
next
  case (Cons l ls)
  show ?case
  proof (cases "send_one p send l h")
    case None
    then have "request_acts_alone 1 p send now s = Some (s\<lparr>lk_handler := h\<lparr>wire := wire h @ [(li_addr l, l_tx h)]\<rparr>, lk_request := Broken\<rparr>)"
      using Cons.prems by (simp add: request_act_def)
    then have "\<exists>n t. request_acts_alone n p send now s = Some t \<and> lk_request t = Broken" by fastforce
    then show ?thesis using None by (simp add: send_to_leaders_one del: send_to_leaders.simps)
  next
    case (Some h1)
    let ?s = "s\<lparr>lk_handler := h1, lk_request := Sending ls\<rparr>"
    have act: "request_act p send now s = Some ?s" using Some Cons.prems by (simp add: request_act_def)
    note IH = Cons.IH [of ?s h1] and tx = send_one_tx [OF Some]
    show ?thesis
    proof (cases "send_to_leaders p send (l_tx h) ls h1")
      case None
      then obtain n t where "request_acts_alone n p send now ?s = Some t" "lk_request t = Broken"
        using IH tx by auto
      then have "request_acts_alone (Suc n) p send now s = Some t" using act by simp
      then show ?thesis using None Some \<open>lk_request t = Broken\<close>
        by (auto simp: send_to_leaders_one simp del: send_to_leaders.simps request_acts_alone.simps)
    next
      case (Some h2)
      then show ?thesis using IH tx act \<open>send_one p send l h = Some h1\<close>
        by (simp add: send_to_leaders_one del: send_to_leaders.simps)
    qed
  qed
qed

primrec retry_acts_alone ::
    "nat \<Rightarrow> ('ip, 'pk) leader_tpu_info list result exec \<Rightarrow> nat \<Rightarrow> ('ip, 'pk) locked \<Rightarrow> ('ip, 'pk) locked" where
  "retry_acts_alone 0 answer now s = s"
| "retry_acts_alone (Suc n) answer now s = retry_acts_alone n answer now (retry_act answer now s)"

lemma retrying_alone:
  "lk_retry s = Retrying ms \<Longrightarrow> retry_acts_alone (Suc (length ms)) answer now s =
     s\<lparr>lk_handler := (lk_handler s)\<lparr>wire := wire (lk_handler s) @ ms\<rparr>, lk_retry := Waiting\<rparr>"
proof (induction ms arbitrary: s)
  case Nil
  then show ?case by (cases s; cases "lk_handler s") (simp add: retry_act_def)
next
  case (Cons m ms)
  let ?s = "s\<lparr>lk_handler := (lk_handler s)\<lparr>wire := wire (lk_handler s) @ [m]\<rparr>, lk_retry := Retrying ms\<rparr>"
  have "retry_act answer now s = ?s" using Cons.prems by (simp add: retry_act_def Let_def)
  then have "retry_acts_alone (Suc (length (m # ms))) answer now s = retry_acts_alone (Suc (length ms)) answer now ?s"
    by simp
  also have "\<dots> = ?s\<lparr>lk_handler := (lk_handler ?s)\<lparr>wire := wire (lk_handler ?s) @ ms\<rparr>, lk_retry := Waiting\<rparr>"
    by (rule Cons.IH) simp
  finally show ?case by simp
qed

lemma request_alone:
  assumes "lk_request s = Idle" and "\<not> holds_pending (lk_retry s)"
  shows "(case on_request p send now rq (lk_handler s) of
     None \<Rightarrow> \<exists>n t. request_acts_alone n p send now (accept_request rq s) = Some t \<and> lk_request t = Broken
   | Some (r, h) \<Rightarrow> \<exists>n t. request_acts_alone n p send now (accept_request rq s) = Some t \<and>
       lk_request t = Idle \<and> lk_handler t = h \<and> lk_answers t = lk_answers s @ [r] \<and> lk_retry t = lk_retry s)"
proof (cases "request_slices rq [0..<unat (rq_count rq)] 0")
  case None
  then have "request_acts_alone 0 p send now (accept_request rq s) = Some (s\<lparr>lk_request := Broken\<rparr>)"
    by (simp add: accept_request_def)
  then have "\<exists>n t. request_acts_alone n p send now (accept_request rq s) = Some t \<and> lk_request t = Broken"
    by (intro exI [of _ 0] exI [of _ "s\<lparr>lk_request := Broken\<rparr>"]) simp
  moreover have "on_request p send now rq (lk_handler s) = None" using None by (simp add: on_request_def)
  ultimately show ?thesis by simp
next
  case (Some txs)
  let ?h = "lk_handler s"
  define h1 where "h1 = ?h\<lparr>l_tx := txs, sent_count := 0, pending := pending ?h @ [\<lparr>pb_txs = txs, pb_sent_at = now\<rparr>]\<rparr>"
  define s1 where "s1 = s\<lparr>lk_handler := h1, lk_queued := lk_queued s @ [\<lparr>pb_txs = txs, pb_sent_at = now\<rparr>],
    lk_request := Sending (l_leader ?h)\<rparr>"
  have run: "request_acts_alone (Suc (Suc n)) p send now (accept_request rq s) = request_acts_alone n p send now s1" for n
    using assms Some by (simp add: accept_request_def request_act_def s1_def h1_def Let_def)
  have req: "on_request p send now rq ?h = Option.bind (send_to_leaders p send txs (l_leader ?h) h1)
      (\<lambda>h. Some (if sent_count h = 0 then Inl OutofRange else Inr (sent_count h), h))"
    using Some by (simp add: on_request_def h1_def)
  have s1: "lk_request s1 = Sending (l_leader ?h)" "lk_handler s1 = h1" "l_tx h1 = txs"
    "lk_answers s1 = lk_answers s" "lk_retry s1 = lk_retry s" by (simp_all add: s1_def h1_def)
  note alone = sending_alone [OF s1(1,2), of p send now, unfolded s1(3)]
  show ?thesis
  proof (cases "send_to_leaders p send txs (l_leader ?h) h1")
    case None
    then obtain n t where "request_acts_alone n p send now s1 = Some t" "lk_request t = Broken"
      using alone by auto
    with run [of n] show ?thesis using None req by (auto simp del: request_acts_alone.simps)
  next
    case (Some h2)
    with alone have "request_acts_alone (Suc (length (l_leader ?h))) p send now s1 = Some (s1\<lparr>lk_handler := h2, lk_request := Idle,
       lk_answers := lk_answers s1 @ [if sent_count h2 = 0 then Inl OutofRange else Inr (sent_count h2)]\<rparr>)"
      by simp
    with run [of "Suc (length (l_leader ?h))"] show ?thesis using Some req s1(4,5)
      by (simp del: request_acts_alone.simps) fastforce
  qed
qed

lemma refresh_alone:
  assumes "lk_retry s = Waiting"
  shows "(case answer of
     None \<Rightarrow> lk_retry (retry_acts_alone 1 answer now s) = Dead
   | Some a \<Rightarrow> \<exists>n. retry_acts_alone n answer now s = s\<lparr>lk_handler := refresh a now (lk_handler s)\<rparr>)"
proof (cases answer)
  case None
  then show ?thesis using assms by (simp add: retry_act_def)
next
  case (Some a)
  show ?thesis
  proof (cases a)
    case (Inl e)
    with Some assms have "retry_acts_alone 1 answer now s = s\<lparr>lk_handler := refresh a now (lk_handler s)\<rparr>"
      by (simp add: retry_act_def refresh_def Let_def)
    then have "\<exists>n. retry_acts_alone n answer now s = s\<lparr>lk_handler := refresh a now (lk_handler s)\<rparr>" by (rule exI)
    with Some show ?thesis by simp
  next
    case (Inr leaders)
    let ?h = "lk_handler s"
    define kept where "kept = filter (\<lambda>b. now - pb_sent_at b < PENDING_TX_TTL) (pending ?h)"
    define s1 where "s1 = s\<lparr>lk_handler := ?h\<lparr>sleep_ms := 400, l_leader := leaders, pending := kept\<rparr>,
      lk_retry := Retrying (retry_pending leaders kept)\<rparr>"
    have "retry_acts_alone (Suc (Suc (Suc (Suc n)))) answer now s = retry_acts_alone n answer now s1" for n
      using assms Some Inr by (simp add: retry_act_def s1_def kept_def Let_def)
    from this [of "Suc (length (retry_pending leaders kept))"]
    have "\<exists>n. retry_acts_alone n answer now s =
        retry_acts_alone (Suc (length (retry_pending leaders kept))) answer now s1" by blast
    then have "\<exists>n. retry_acts_alone n answer now s = s1\<lparr>lk_handler := (lk_handler s1)
        \<lparr>wire := wire (lk_handler s1) @ retry_pending leaders kept\<rparr>, lk_retry := Waiting\<rparr>"
      using retrying_alone [of s1 "retry_pending leaders kept" answer now] by (simp add: s1_def)
    moreover have "s1\<lparr>lk_handler := (lk_handler s1)\<lparr>wire := wire (lk_handler s1) @ retry_pending leaders kept\<rparr>,
        lk_retry := Waiting\<rparr> = s\<lparr>lk_handler := refresh a now ?h\<rparr>"
      using assms Inr by (cases s) (simp add: s1_def refresh_def kept_def Let_def)
    ultimately show ?thesis using Some by simp
  qed
qed

text \<open>
  The atomic actions are those of \<open>on_request\<close> and of a turn of the background loop: run without
  interruption at one moment, the actions of a request end with the answer and the handler of
  \<open>on_request\<close>, or die exactly when it panics, and the actions of the background thread end with the
  handler of \<open>refresh\<close>, or die exactly when the leader query panics.
\<close>

lemma actions_compose:
  assumes "lk_request s = Idle" and "lk_retry s = Waiting"
  shows "(case on_request p send now rq (lk_handler s) of
     None \<Rightarrow> \<exists>n t. request_acts_alone n p send now (accept_request rq s) = Some t \<and> lk_request t = Broken
   | Some (r, h) \<Rightarrow> \<exists>n t. request_acts_alone n p send now (accept_request rq s) = Some t \<and>
       lk_request t = Idle \<and> lk_handler t = h \<and> lk_answers t = lk_answers s @ [r] \<and> lk_retry t = lk_retry s) \<and>
   (case answer of
     None \<Rightarrow> lk_retry (retry_acts_alone 1 answer now s) = Dead
   | Some a \<Rightarrow> \<exists>n. retry_acts_alone n answer now s = s\<lparr>lk_handler := refresh a now (lk_handler s)\<rparr>)"
  using request_alone [OF assms(1)] refresh_alone [OF assms(2)] assms(2) by (simp add: holds_pending_def)

lemma actions_compose_witness:
  "\<exists>s n t. lk_handler s = start_handler (Inr [\<lparr>li_pubkey = (), li_slot = 1, li_addr = \<lparr>sa_ip = (), sa_port = 8006\<rparr>\<rparr>]) \<and>
     request_acts_alone n Debug (\<lambda>_ _ _. True) 5 (accept_request \<lparr>rq_count = 1, rq_list = [2], rq_data = [7, 8, 9]\<rparr> s) = Some t \<and>
     lk_answers t = [Inr 1] \<and> wire (lk_handler t) = [(\<lparr>sa_ip = (), sa_port = 8006\<rparr>, [[7, 8]])]"
proof -
  let ?rq = "\<lparr>rq_count = 1, rq_list = [2], rq_data = [7, 8, 9]\<rparr>"
  let ?h = "start_handler (Inr [\<lparr>li_pubkey = (), li_slot = 1, li_addr = \<lparr>sa_ip = (), sa_port = 8006\<rparr>\<rparr>])"
  have ok: "request_ok ?rq" "request_txs ?rq = [[7, 8]]"
    by (simp_all add: request_ok_def request_txs_def request_ends_def)
  have "length (l_leader ?h) < 2 ^ 16" by (simp add: start_handler_def)
  from on_request_eq [OF this, of Debug "\<lambda>_ _ _. True" 5 ?rq] ok obtain h where
    h: "on_request Debug (\<lambda>_ _ _. True) 5 ?rq ?h = Some (Inr 1, h)" "wire h = [(\<lparr>sa_ip = (), sa_port = 8006\<rparr>, [[7, 8]])]"
    by (simp add: start_handler_def Let_def)
  let ?s = "lock_start 0 ?h"
  have s: "lk_request ?s = Idle" "lk_retry ?s = Waiting" "lk_handler ?s = ?h" "lk_answers ?s = []"
    by (simp_all add: lock_start_def)
  from actions_compose [OF s(1,2), of Debug "\<lambda>_ _ _. True" 5 ?rq None] h s(3,4) obtain n t where
    "request_acts_alone n Debug (\<lambda>_ _ _. True) 5 (accept_request ?rq ?s) = Some t" "lk_handler t = h" "lk_answers t = [Inr 1]"
    by auto
  with h(2) s(3) show ?thesis by blast
qed

section \<open>What the interleaving keeps\<close>

fun request_fits :: "('ip, 'pk) request_at \<Rightarrow> u8 list list \<Rightarrow> pending_batch list \<Rightarrow> bool" where
  "request_fits Snapshotting txs queued \<longleftrightarrow> txs \<in> pb_txs ` set queued"
| "request_fits (Sending ls) txs queued \<longleftrightarrow> txs \<in> pb_txs ` set queued"
| "request_fits _ txs queued \<longleftrightarrow> True"

fun retry_fits :: "('ip, 'pk) retry_at \<Rightarrow> pending_batch list \<Rightarrow> nat \<Rightarrow> bool" where
  "retry_fits (Locking ls t) bs now \<longleftrightarrow> t \<le> now"
| "retry_fits (Retrying ms) bs now \<longleftrightarrow>
     (\<exists>(leaders :: ('ip, 'pk) leader_tpu_info list) sent. retry_pending leaders bs = sent @ ms)"
| "retry_fits _ bs now \<longleftrightarrow> True"

definition queue_kept :: "pending_batch list \<Rightarrow> pending_batch list \<Rightarrow> nat \<Rightarrow> bool" where
  "queue_kept bs queued now \<longleftrightarrow> subseq bs queued \<and>
     (\<forall>b \<in> set queued. b \<in> set bs \<or> pb_sent_at b + PENDING_TX_TTL \<le> now)"

definition wire_fits :: "('ip socket_addr \<times> u8 list list) list \<Rightarrow> pending_batch list \<Rightarrow> bool" where
  "wire_fits w queued \<longleftrightarrow> snd ` set w \<subseteq> pb_txs ` set queued"

definition lock_inv :: "('ip, 'pk) locked \<Rightarrow> bool" where
  "lock_inv s \<longleftrightarrow> queue_kept (pending (lk_handler s)) (lk_queued s) (lk_clock s) \<and>
     wire_fits (wire (lk_handler s)) (lk_queued s) \<and>
     request_fits (lk_request s) (l_tx (lk_handler s)) (lk_queued s) \<and>
     retry_fits (lk_retry s) (pending (lk_handler s)) (lk_clock s)"

lemma retry_pending_txs: "snd ` set (retry_pending leaders bs) \<subseteq> pb_txs ` set bs"
  by (auto simp: retry_pending_def)

lemma send_one_keeps:
  "send_one p send l h = Some h' \<Longrightarrow> pending h' = pending h \<and> l_tx h' = l_tx h \<and> wire h' = wire h @ [(li_addr l, l_tx h)]"
  by (auto simp: send_one_def Let_def Option.bind_eq_Some_conv split: if_splits)

lemma wire_fits_simps [simp]:
  "wire_fits [] q" "wire_fits (m # w) q \<longleftrightarrow> snd m \<in> pb_txs ` set q \<and> wire_fits w q"
  "wire_fits (w @ w') q \<longleftrightarrow> wire_fits w q \<and> wire_fits w' q"
  by (auto simp: wire_fits_def)

lemma wire_fits_push: "wire_fits w q \<Longrightarrow> wire_fits w (q @ [b])"
  by (auto simp: wire_fits_def)

lemma retry_fits_later: "retry_fits r bs t \<Longrightarrow> t \<le> now \<Longrightarrow> retry_fits r bs now"
  by (cases r) auto

lemma retry_fits_unlocked: "retry_fits r bs t \<Longrightarrow> \<not> holds_pending r \<Longrightarrow> retry_fits r bs' t"
  by (cases r) (auto simp: holds_pending_def)

lemma queue_kept_later: "queue_kept bs q t \<Longrightarrow> t \<le> now \<Longrightarrow> queue_kept bs q now"
  by (fastforce simp: queue_kept_def)

lemma queue_kept_push: "queue_kept bs q t \<Longrightarrow> queue_kept (bs @ [b]) (q @ [b]) t"
  by (auto simp: queue_kept_def)

lemma queue_kept_retain:
  "queue_kept bs q now \<Longrightarrow> t \<le> now \<Longrightarrow> queue_kept (filter (\<lambda>b. t - pb_sent_at b < PENDING_TX_TTL) bs) q now"
  by (auto simp: queue_kept_def PENDING_TX_TTL_def intro: subseq_order.trans [OF subseq_filter_left])

lemma lock_inv_later: "lock_inv s \<Longrightarrow> lk_clock s \<le> now \<Longrightarrow> lock_inv (s\<lparr>lk_clock := now\<rparr>)"
  by (auto simp: lock_inv_def intro: queue_kept_later retry_fits_later)

lemma lock_inv_accept: "lock_inv s \<Longrightarrow> lock_inv (accept_request rq s)"
  by (simp add: lock_inv_def accept_request_def split: option.splits)

lemma lock_inv_request:
  assumes "request_act p send now s = Some t" and inv: "lock_inv s"
  shows "lock_inv t"
proof (cases "lk_request s")
  case Queueing
  let ?h = "lk_handler s"
  have t: "\<not> holds_pending (lk_retry s)" "t = s\<lparr>lk_handler := ?h\<lparr>pending := pending ?h @ [\<lparr>pb_txs = l_tx ?h, pb_sent_at = now\<rparr>]\<rparr>,
      lk_request := Snapshotting, lk_queued := lk_queued s @ [\<lparr>pb_txs = l_tx ?h, pb_sent_at = now\<rparr>]\<rparr>"
    using assms(1) Queueing by (auto simp: request_act_def Let_def split: if_splits)
  have "retry_fits (lk_retry s) bs (lk_clock s)" for bs
    using inv t(1) by (auto simp: lock_inv_def intro: retry_fits_unlocked)
  then show ?thesis using inv by (simp add: lock_inv_def t(2) queue_kept_push wire_fits_push)
next
  case (Sending ls)
  then show ?thesis using assms
    by (cases ls) (auto simp: lock_inv_def request_act_def Let_def dest!: send_one_keeps split: option.splits)
qed (use assms in \<open>auto simp: lock_inv_def request_act_def Let_def\<close>)

lemma lock_inv_retry:
  assumes "lock_inv s" and "now = lk_clock s"
  shows "lock_inv (retry_act answer now s)"
proof (cases "lk_retry s")
  case Waiting
  then show ?thesis using assms by (auto simp: lock_inv_def retry_act_def Let_def split: option.splits sum.splits)
next
  case (Retrying ms)
  obtain leaders :: "('a, 'b) leader_tpu_info list" and sent where r: "retry_pending leaders (pending (lk_handler s)) = sent @ ms"
    using assms(1) Retrying by (auto simp: lock_inv_def)
  then have "snd ` set ms \<subseteq> pb_txs ` set (pending (lk_handler s))"
    using retry_pending_txs [of leaders "pending (lk_handler s)"] by auto
  moreover have "set (pending (lk_handler s)) \<subseteq> set (lk_queued s)"
    using assms(1) by (auto simp: lock_inv_def queue_kept_def dest: list_emb_set)
  ultimately have txs: "wire_fits ms (lk_queued s)" unfolding wire_fits_def by blast
  show ?thesis
  proof (cases ms)
    case Nil
    then show ?thesis using assms Retrying by (simp add: lock_inv_def retry_act_def Let_def)
  next
    case (Cons m ms')
    have "retry_pending leaders (pending (lk_handler s)) = (sent @ [m]) @ ms'" using r Cons by simp
    then have "retry_fits (Retrying ms' :: ('a, 'b) retry_at) (pending (lk_handler s)) (lk_clock s)"
      unfolding retry_fits.simps by blast
    then show ?thesis using assms Retrying Cons txs by (auto simp: lock_inv_def retry_act_def Let_def)
  qed
qed (use assms in \<open>auto simp: lock_inv_def retry_act_def Let_def queue_kept_retain\<close>)

abbreviation lock_init :: "('ip, 'pk) locked \<Rightarrow> bool" where
  "lock_init s \<equiv> \<exists>now initial. s = lock_start now (start_handler initial)"

lemma lock_inv_start: "lock_inv (lock_start now (start_handler initial))"
  by (simp add: lock_inv_def lock_start_def start_handler_def queue_kept_def)

interpretation locks: invariant_system lock_init "lock_step p parse" lock_inv for p parse
proof unfold_locales
  fix s :: "('a, 'b) locked" assume "lock_init s"
  then show "lock_inv s" using lock_inv_start by blast
next
  fix s t :: "('a, 'b) locked" assume inv: "lock_inv s" and step: "lock_step p parse s t"
  from step inv show "lock_inv t"
  proof (induction rule: lock_step.induct)
    case (accepts s now rq)
    then show ?case by (blast intro: lock_inv_accept lock_inv_later)
  next
    case (request_acts s now send t)
    then show ?case by (blast intro: lock_inv_request lock_inv_later)
  next
    case (retry_acts s now rpc)
    then have "lock_inv (s\<lparr>lk_clock := now\<rparr>)" by (blast intro: lock_inv_later)
    then show ?case by (rule lock_inv_retry) simp
  qed
qed

text \<open>The run of the samples: a request is queued while the background thread is about to lock.\<close>

lemma sample_lock_run:
  "\<exists>s :: (unit, unit) locked. reach lock_init (lock_step Debug (\<lambda>_. Some ())) s \<and> lk_request s = Queueing \<and>
     lk_retry s = Retrying [(\<lparr>sa_ip = (), sa_port = 8006\<rparr>, [[7, 8]])] \<and>
     lk_queued s = [\<lparr>pb_txs = [[7, 8]], pb_sent_at = 0\<rparr>] \<and> lk_clock s = 0"
proof -
  let ?R = "reach lock_init (lock_step Debug (\<lambda>_. Some ())) :: (unit, unit) locked \<Rightarrow> bool"
  let ?rq = "\<lparr>rq_count = 1, rq_list = [2], rq_data = [7, 8, 9]\<rparr>"
  let ?b = "\<lparr>pb_txs = [[7, 8]], pb_sent_at = 0\<rparr>"
  let ?l = "\<lparr>li_pubkey = (), li_slot = 7, li_addr = \<lparr>sa_ip = (), sa_port = 8006\<rparr>\<rparr>"
  let ?h = "\<lambda>ls bs. \<lparr>l_tx = [[7, 8]], sent_count = 0, l_leader = ls, pending = bs, sleep_ms = 400, wire = []\<rparr>"
  let ?S = "\<lambda>h rq rt as. \<lparr>lk_handler = h, lk_request = rq, lk_retry = rt, lk_clock = 0, lk_queued = [?b], lk_answers = as\<rparr>"
  let ?out = "[Inl OutofRange]"
  have same: "s\<lparr>lk_clock := 0\<rparr> = s" if "lk_clock s = 0" for s :: "(unit, unit) locked" using that by (cases s) simp
  have act: "?R t" if "?R s" "request_act Debug (\<lambda>_ _ _. True) 0 s = Some t" "lk_clock s = 0" for s t
    using reach_step [OF that(1) request_acts [of s 0 Debug "\<lambda>_ _ _. True" t]] that(2,3) by (simp add: same)
  have retry: "?R (retry_act (Some (Inr [?l])) 0 s)" if "?R s" "lk_retry s \<noteq> Dead" "lk_clock s = 0" for s
    using reach_step [OF that(1) retry_acts [of s 0 Debug "\<lambda>_. Some ()" demo_rpc]] that(2,3) by (simp add: demo_leaders same)
  have "?R (lock_start 0 (start_handler (Inl OutofRange)))" by (rule reach_init) blast
  from reach_step [OF this accepts [of _ 0 Debug "\<lambda>_. Some ()" ?rq]]
  have "?R \<lparr>lk_handler = ?h [] [], lk_request = Queueing, lk_retry = Waiting, lk_clock = 0, lk_queued = [], lk_answers = []\<rparr>"
    by (simp add: lock_start_def start_handler_def accept_request_def slice_simps)
  from act [OF this] have "?R (?S (?h [] [?b]) Snapshotting Waiting [])"
    by (simp add: request_act_def holds_pending_def Let_def)
  from act [OF this] have "?R (?S (?h [] [?b]) (Sending []) Waiting [])" by (simp add: request_act_def)
  from act [OF this] have "?R (?S (?h [] [?b]) Idle Waiting ?out)" by (simp add: request_act_def)
  from retry [OF this] have "?R (?S (?h [] [?b]) Idle (Publishing [?l]) ?out)" by (simp add: retry_act_def Let_def)
  from retry [OF this] have "?R (?S (?h [?l] [?b]) Idle (Stamping [?l]) ?out)" by (simp add: retry_act_def Let_def)
  from retry [OF this] have "?R (?S (?h [?l] [?b]) Idle (Locking [?l] 0) ?out)" by (simp add: retry_act_def Let_def)
  from retry [OF this] have "?R (?S (?h [?l] [?b]) Idle (Retrying [(li_addr ?l, [[7, 8]])]) ?out)"
    by (simp add: retry_act_def retry_pending_def PENDING_TX_TTL_def Let_def)
  from reach_step [OF this accepts [of _ 0 Debug "\<lambda>_. Some ()" ?rq]]
  have "?R (?S (?h [?l] [?b]) Queueing (Retrying [(li_addr ?l, [[7, 8]])]) ?out)"
    by (simp add: accept_request_def slice_simps)
  then show ?thesis by (intro exI conjI) (assumption, simp_all)
qed

text \<open>
  C12: However requests and the background thread interleave, no batch is lost or invented: the
  retry queue holds batches in the order they were queued and keeps each of them for at least
  30 s, and only queued batches are ever sent.
\<close>

theorem queue_kept_under_locks:
  fixes s :: "('ip, 'pk) locked"
  assumes "reach lock_init (lock_step p parse) s"
  shows "subseq (pending (lk_handler s)) (lk_queued s) \<and>
    (\<forall>b \<in> set (lk_queued s). b \<in> set (pending (lk_handler s)) \<or> pb_sent_at b + PENDING_TX_TTL \<le> lk_clock s) \<and>
    (\<forall>(addr, txs) \<in> set (wire (lk_handler s)). \<exists>b \<in> set (lk_queued s). pb_txs b = txs)"
proof -
  have "lock_inv s" using assms by (rule locks.inv_reach)
  then show ?thesis by (fastforce simp: lock_inv_def queue_kept_def wire_fits_def)
qed

theorem queue_kept_under_locks_witness:
  "\<exists>s :: (unit, unit) locked. lk_retry s = Retrying [(\<lparr>sa_ip = (), sa_port = 8006\<rparr>, [[7, 8]])] \<and>
     lk_queued s = [\<lparr>pb_txs = [[7, 8]], pb_sent_at = 0\<rparr>] \<and> lk_clock s = 0 \<and>
     pending (lk_handler s) = [\<lparr>pb_txs = [[7, 8]], pb_sent_at = 0\<rparr>]"
proof -
  obtain s :: "(unit, unit) locked" where s: "reach lock_init (lock_step Debug (\<lambda>_. Some ())) s"
    "lk_retry s = Retrying [(\<lparr>sa_ip = (), sa_port = 8006\<rparr>, [[7, 8]])]"
    "lk_queued s = [\<lparr>pb_txs = [[7, 8]], pb_sent_at = 0\<rparr>]" "lk_clock s = 0"
    using sample_lock_run by blast
  from queue_kept_under_locks [OF s(1)] s(3,4)
  have "subseq (pending (lk_handler s)) [\<lparr>pb_txs = [[7, 8]], pb_sent_at = 0\<rparr>]" "pending (lk_handler s) \<noteq> []"
    by (auto simp: PENDING_TX_TTL_def)
  then have "pending (lk_handler s) = [\<lparr>pb_txs = [[7, 8]], pb_sent_at = 0\<rparr>]"
    by (cases "pending (lk_handler s)") (auto split: if_splits)
  with s(2-4) show ?thesis by blast
qed

section \<open>A retry pass\<close>

text \<open>
  The steps of a pass: every step of either thread while the background thread holds the lock.  A
  request under way when the lock is taken can go on sending to the leaders it copied, or is about
  to copy; any later one stops before its first send.
\<close>

definition pass_step ::
    "profile \<Rightarrow> (string \<Rightarrow> 'pk option) \<Rightarrow> ('ip, 'pk) locked \<Rightarrow> ('ip, 'pk) locked \<Rightarrow> bool" where
  "pass_step p parse s t \<longleftrightarrow> holds_pending (lk_retry s) \<and> lock_step p parse s t"

definition request_targets :: "('ip, 'pk) locked \<Rightarrow> ('ip, 'pk) leader_tpu_info list" where
  "request_targets s = (case lk_request s of Sending ls \<Rightarrow> ls | Snapshotting \<Rightarrow> l_leader (lk_handler s) | _ \<Rightarrow> [])"

definition to_retry :: "('ip, 'pk) retry_at \<Rightarrow> ('ip socket_addr \<times> u8 list list) list" where
  "to_retry r = (case r of Retrying ms \<Rightarrow> ms | _ \<Rightarrow> [])"

definition request_msgs :: "('ip, 'pk) locked \<Rightarrow> ('ip socket_addr \<times> u8 list list) list" where
  "request_msgs s = map (\<lambda>l. (li_addr l, l_tx (lk_handler s))) (request_targets s)"

text \<open>
  What a pass begun in \<open>a\<close> has done in \<open>s\<close>: \<open>sent\<close> of its own messages and \<open>own\<close> of the request's.
\<close>

definition pass_inv :: "('ip, 'pk) locked \<Rightarrow> ('ip, 'pk) locked \<Rightarrow> bool" where
  "pass_inv a s \<longleftrightarrow> pending (lk_handler s) = pending (lk_handler a) \<and>
     (\<exists>sent own rest w. sent @ to_retry (lk_retry s) = to_retry (lk_retry a) \<and>
        own @ rest = request_msgs a \<and> (request_msgs s = [] \<or> request_msgs s = rest) \<and>
        w \<in> shuffles sent own \<and> wire (lk_handler s) = wire (lk_handler a) @ w)"

lemma snoc_in_shuffles: "ys @ [x] \<in> shuffles [x] ys"
  by (induction ys) (auto simp: Cons_in_shuffles_iff)

lemma shuffles_snoc_left: "w \<in> shuffles xs ys \<Longrightarrow> w @ [x] \<in> shuffles (xs @ [x]) ys"
  by (induction xs ys arbitrary: w rule: shuffles.induct) (auto simp: Cons_in_shuffles_iff snoc_in_shuffles)

lemma shuffles_snoc_right: "w \<in> shuffles xs ys \<Longrightarrow> w @ [y] \<in> shuffles xs (ys @ [y])"
  using shuffles_snoc_left [of w ys xs y] by (simp add: shuffles_commutes)

lemma pass_invI:
  "pending (lk_handler s) = pending (lk_handler a) \<Longrightarrow> sent @ to_retry (lk_retry s) = to_retry (lk_retry a) \<Longrightarrow>
   own @ rest = request_msgs a \<Longrightarrow> request_msgs s = [] \<or> request_msgs s = rest \<Longrightarrow> w \<in> shuffles sent own \<Longrightarrow>
   wire (lk_handler s) = wire (lk_handler a) @ w \<Longrightarrow> pass_inv a s"
  unfolding pass_inv_def by blast

lemma pass_inv_start: "pass_inv a a"
  by (rule pass_invI [of a a "[]" "[]" "request_msgs a" "[]"]) simp_all

lemma request_msgs_simps [simp]:
  "request_msgs (s\<lparr>lk_clock := now\<rparr>) = request_msgs s" "request_msgs (s\<lparr>lk_retry := r\<rparr>) = request_msgs s"
  "request_msgs (s\<lparr>lk_handler := (lk_handler s)\<lparr>wire := w\<rparr>\<rparr>) = request_msgs s"
  by (simp_all add: request_msgs_def request_targets_def split: request_at.splits)

lemma pass_inv_request:
  assumes act: "request_act p send now s = Some t" and held: "holds_pending (lk_retry s)" and inv: "pass_inv a s"
  shows "pass_inv a t"
proof -
  obtain sent own rest w where i: "sent @ to_retry (lk_retry s) = to_retry (lk_retry a)"
    "own @ rest = request_msgs a" "request_msgs s = [] \<or> request_msgs s = rest" "w \<in> shuffles sent own"
    "wire (lk_handler s) = wire (lk_handler a) @ w" "pending (lk_handler s) = pending (lk_handler a)"
    using inv by (auto simp: pass_inv_def)
  show ?thesis
  proof (cases "\<exists>l ls. lk_request s = Sending (l # ls)")
    case True
    then obtain l ls where rq: "lk_request s = Sending (l # ls)" by blast
    let ?m = "(li_addr l, l_tx (lk_handler s))"
    have msgs: "request_msgs s = ?m # map (\<lambda>l. (li_addr l, l_tx (lk_handler s))) ls"
      using rq by (simp add: request_msgs_def request_targets_def)
    then have own: "(own @ [?m]) @ tl rest = request_msgs a" "tl rest = map (\<lambda>l. (li_addr l, l_tx (lk_handler s))) ls"
      using i(2,3) by (metis append.assoc append_Cons append_Nil list.distinct(1) list.sel(3))+
    have t: "wire (lk_handler t) = wire (lk_handler s) @ [?m]" "pending (lk_handler t) = pending (lk_handler s)"
      "lk_retry t = lk_retry s" "request_msgs t = [] \<or> request_msgs t = tl rest"
      using act rq own(2)
      by (auto simp: request_act_def request_msgs_def request_targets_def Let_def dest!: send_one_keeps split: option.splits)
    have "w @ [?m] \<in> shuffles sent (own @ [?m])" by (rule shuffles_snoc_right [OF i(4)])
    then show ?thesis using i t own(1)
      by (intro pass_invI [of t a sent "own @ [?m]" "tl rest" "w @ [?m]"]) simp_all
  next
    case False
    then have t: "lk_retry t = lk_retry s" "wire (lk_handler t) = wire (lk_handler s)"
      "pending (lk_handler t) = pending (lk_handler s)" "request_msgs t = request_msgs s"
      using act held
      by (auto simp: request_act_def request_msgs_def request_targets_def Let_def split: request_at.splits list.splits if_splits)
    with i show ?thesis by (intro pass_invI [of t a sent own rest w]) simp_all
  qed
qed

lemma pass_inv_retry:
  assumes held: "holds_pending (lk_retry s)" and inv: "pass_inv a s"
  shows "pass_inv a (retry_act answer now s)"
proof -
  obtain ms where ms: "lk_retry s = Retrying ms" using held by (auto simp: holds_pending_def split: retry_at.splits)
  obtain sent own rest w where i: "sent @ ms = to_retry (lk_retry a)"
    "own @ rest = request_msgs a" "request_msgs s = [] \<or> request_msgs s = rest" "w \<in> shuffles sent own"
    "wire (lk_handler s) = wire (lk_handler a) @ w" "pending (lk_handler s) = pending (lk_handler a)"
    using inv ms by (auto simp: pass_inv_def to_retry_def)
  show ?thesis
  proof (cases ms)
    case Nil
    then have "pending (lk_handler (retry_act answer now s)) = pending (lk_handler s)"
      "wire (lk_handler (retry_act answer now s)) = wire (lk_handler s)"
      "to_retry (lk_retry (retry_act answer now s)) = []"
      "request_msgs (retry_act answer now s) = request_msgs s"
      using ms by (simp_all add: retry_act_def to_retry_def Let_def)
    with i Nil show ?thesis by (intro pass_invI [of _ a sent own rest w]) simp_all
  next
    case (Cons m ms')
    let ?t = "retry_act answer now s"
    have t: "pending (lk_handler ?t) = pending (lk_handler s)" "wire (lk_handler ?t) = wire (lk_handler s) @ [m]"
      "to_retry (lk_retry ?t) = ms'" "request_msgs ?t = request_msgs s"
      using ms Cons by (simp_all add: retry_act_def to_retry_def Let_def)
    have "w @ [m] \<in> shuffles (sent @ [m]) own" by (rule shuffles_snoc_left [OF i(4)])
    then show ?thesis using i t Cons
      by (intro pass_invI [of ?t a "sent @ [m]" own rest "w @ [m]"]) simp_all
  qed
qed

lemma pass_inv_step: "pass_step p parse s t \<Longrightarrow> pass_inv a s \<Longrightarrow> pass_inv a t"
proof -
  assume step: "pass_step p parse s t" and inv: "pass_inv a s"
  have later: "pass_inv a (s\<lparr>lk_clock := now\<rparr>)" for now
    using inv by (simp add: pass_inv_def)
  from step have held: "holds_pending (lk_retry s)" and "lock_step p parse s t" by (auto simp: pass_step_def)
  from this(2) show "pass_inv a t"
  proof cases
    case (accepts now rq)
    then have "request_msgs t = []" "pending (lk_handler t) = pending (lk_handler s)"
      "wire (lk_handler t) = wire (lk_handler s)" "lk_retry t = lk_retry s"
      by (auto simp: accept_request_def request_msgs_def request_targets_def split: option.splits)
    with inv show ?thesis by (auto simp: pass_inv_def)
  next
    case (request_acts now send)
    then show ?thesis using held by (intro pass_inv_request [OF _ _ later]) simp_all
  next
    case (retry_acts now rpc)
    then show ?thesis using held by (auto intro: pass_inv_retry [OF _ later])
  qed
qed

lemma pass_inv_run: "(pass_step p parse)\<^sup>*\<^sup>* a s \<Longrightarrow> pass_inv a s"
  by (induction rule: rtranclp_induct) (auto intro: pass_inv_start pass_inv_step)

text \<open>The step that takes the lock.\<close>

lemma pass_begins:
  assumes "lk_retry s = Locking leaders t0" and "lock_step p parse s a" and "holds_pending (lk_retry a)"
  shows "pending (lk_handler a) = filter (\<lambda>b. t0 - pb_sent_at b < PENDING_TX_TTL) (pending (lk_handler s)) \<and>
    lk_retry a = Retrying (retry_pending leaders (pending (lk_handler a)))"
  using assms(2)
proof cases
  case (accepts now rq)
  then have "lk_retry a = lk_retry s" by (auto simp: accept_request_def split: option.splits)
  then show ?thesis using assms by (simp add: holds_pending_def)
next
  case (request_acts now send)
  then have "lk_retry a = lk_retry s"
    by (auto simp: request_act_def Let_def split: request_at.splits list.splits option.splits if_splits)
  then show ?thesis using assms by (simp add: holds_pending_def)
next
  case (retry_acts now rpc)
  then show ?thesis using assms by (simp add: retry_act_def Let_def)
qed

text \<open>
  C13: A retry pass sends exactly the queue it found: taking the lock, the background thread
  drops the batches of 30 s and more and sees no other change to the queue until it releases it,
  whatever the requests do.  At every moment of the pass the messages put on the wire since are an
  interleaving of a first part of the pass, one message for each of these batches and each of its
  leaders in this order, the rest of which is still to be sent, with a first part of what the
  request under way had left to send; and the whole pass once the lock is released.
\<close>

theorem retry_pass_sends_its_queue:
  fixes s a t :: "('ip, 'pk) locked"
  assumes "lk_retry s = Locking leaders t0" and "lock_step p parse s a" and "holds_pending (lk_retry a)"
    and "(pass_step p parse)\<^sup>*\<^sup>* a t"
  shows "pending (lk_handler a) = filter (\<lambda>b. t0 - pb_sent_at b < 30000) (pending (lk_handler s)) \<and>
    pending (lk_handler t) = pending (lk_handler a) \<and>
    (\<exists>sent own w.
       sent @ (case lk_retry t of Retrying ms \<Rightarrow> ms | _ \<Rightarrow> []) =
         [(li_addr l, pb_txs b). b \<leftarrow> pending (lk_handler a), l \<leftarrow> leaders] \<and>
       prefix own (case lk_request a of
           Sending ls \<Rightarrow> [(li_addr l, l_tx (lk_handler a)). l \<leftarrow> ls]
         | Snapshotting \<Rightarrow> [(li_addr l, l_tx (lk_handler a)). l \<leftarrow> l_leader (lk_handler a)]
         | _ \<Rightarrow> []) \<and>
       w \<in> shuffles sent own \<and> wire (lk_handler t) = wire (lk_handler a) @ w)"
proof -
  note begun = pass_begins [OF assms(1-3)]
  have msgs: "request_msgs a = (case lk_request a of
           Sending ls \<Rightarrow> [(li_addr l, l_tx (lk_handler a)). l \<leftarrow> ls]
         | Snapshotting \<Rightarrow> [(li_addr l, l_tx (lk_handler a)). l \<leftarrow> l_leader (lk_handler a)]
         | _ \<Rightarrow> [])"
    by (simp add: request_msgs_def request_targets_def split: request_at.splits)
  have all: "to_retry (lk_retry a) = [(li_addr l, pb_txs b). b \<leftarrow> pending (lk_handler a), l \<leftarrow> leaders]"
    using begun by (simp add: to_retry_def retry_pending_def)
  from pass_inv_run [OF assms(4)] obtain sent own rest w where i: "sent @ to_retry (lk_retry t) = to_retry (lk_retry a)"
    "own @ rest = request_msgs a" "w \<in> shuffles sent own" "wire (lk_handler t) = wire (lk_handler a) @ w"
    "pending (lk_handler t) = pending (lk_handler a)"
    by (auto simp: pass_inv_def)
  have "prefix own (request_msgs a)" using i(2) by (metis prefixI)
  then have "\<exists>sent own w. sent @ to_retry (lk_retry t) = to_retry (lk_retry a) \<and> prefix own (request_msgs a) \<and>
      w \<in> shuffles sent own \<and> wire (lk_handler t) = wire (lk_handler a) @ w"
    using i by blast
  then show ?thesis using begun i(5) unfolding all unfolding msgs to_retry_def PENDING_TX_TTL_def by blast
qed

text \<open>A pass with a request under way: its send comes after the one of the pass.\<close>

theorem retry_pass_sends_its_queue_witness:
  "\<exists>s a t :: (unit, unit) locked. lk_retry s = Locking [\<lparr>li_pubkey = (), li_slot = 7, li_addr = \<lparr>sa_ip = (), sa_port = 8006\<rparr>\<rparr>] 5 \<and>
     lock_step Debug (\<lambda>_. Some ()) s a \<and> (pass_step Debug (\<lambda>_. Some ()))\<^sup>*\<^sup>* a t \<and> lk_retry t = Waiting \<and>
     pending (lk_handler t) = [\<lparr>pb_txs = [[7, 8]], pb_sent_at = 0\<rparr>] \<and>
     wire (lk_handler t) = [(\<lparr>sa_ip = (), sa_port = 8006\<rparr>, [[7, 8]]), (\<lparr>sa_ip = (), sa_port = 8006\<rparr>, [[9]])] \<and>
     (\<exists>own. prefix own [(\<lparr>sa_ip = (), sa_port = 8006\<rparr>, [[9 :: u8]])] \<and>
       wire (lk_handler t) \<in> shuffles [(\<lparr>sa_ip = (), sa_port = 8006\<rparr>, [[7, 8]])] own)"
proof -
  let ?l = "\<lparr>li_pubkey = (), li_slot = 7, li_addr = \<lparr>sa_ip = (), sa_port = 8006\<rparr>\<rparr> :: (unit, unit) leader_tpu_info"
  let ?b = "\<lparr>pb_txs = [[7, 8]], pb_sent_at = 0\<rparr>"
  let ?m = "(\<lparr>sa_ip = (), sa_port = 8006\<rparr> :: unit socket_addr, [[7, 8 :: u8]])"
  let ?n = "(\<lparr>sa_ip = (), sa_port = 8006\<rparr> :: unit socket_addr, [[9 :: u8]])"
  let ?S = "\<lambda>c w rq rt. \<lparr>lk_handler = \<lparr>l_tx = [[9]], sent_count = c, l_leader = [?l], pending = [?b], sleep_ms = 400, wire = w\<rparr>,
    lk_request = rq, lk_retry = rt, lk_clock = 5, lk_queued = [?b], lk_answers = []\<rparr> :: (unit, unit) locked"
  let ?s = "?S 0 [] (Sending [?l]) (Locking [?l] 5)" and ?a = "?S 0 [] (Sending [?l]) (Retrying [?m])"
  let ?t = "?S 1 [?m, ?n] (Sending []) Waiting"
  have retry: "lock_step Debug (\<lambda>_. Some ()) u (retry_act (Some (Inr [?l])) 5 u)" if "lk_retry u \<noteq> Dead" "lk_clock u = 5"
    for u :: "(unit, unit) locked"
    using retry_acts [of u 5 Debug "\<lambda>_. Some ()" demo_rpc] that by (cases u) (simp add: demo_leaders)
  have begins: "lock_step Debug (\<lambda>_. Some ()) ?s ?a"
    using retry [of ?s] by (simp add: retry_act_def retry_pending_def PENDING_TX_TTL_def Let_def)
  have "pass_step Debug (\<lambda>_. Some ()) ?a (?S 0 [?m] (Sending [?l]) (Retrying []))"
    using retry [of ?a] by (simp add: pass_step_def holds_pending_def retry_act_def Let_def)
  moreover have "pass_step Debug (\<lambda>_. Some ()) (?S 0 [?m] (Sending [?l]) (Retrying [])) (?S 1 [?m, ?n] (Sending []) (Retrying []))"
    using request_acts [of "?S 0 [?m] (Sending [?l]) (Retrying [])" 5 Debug "\<lambda>_ _ _. True"]
    by (simp add: pass_step_def holds_pending_def request_act_def send_one_def add_checked_def Let_def)
  moreover have "pass_step Debug (\<lambda>_. Some ()) (?S 1 [?m, ?n] (Sending []) (Retrying [])) ?t"
    using retry [of "?S 1 [?m, ?n] (Sending []) (Retrying [])"] by (simp add: pass_step_def holds_pending_def retry_act_def)
  ultimately have run: "(pass_step Debug (\<lambda>_. Some ()))\<^sup>*\<^sup>* ?a ?t"
    by (meson converse_rtranclp_into_rtranclp rtranclp.rtrancl_refl)
  have "lk_retry ?s = Locking [?l] 5" "holds_pending (lk_retry ?a)" by (simp_all add: holds_pending_def)
  from retry_pass_sends_its_queue [OF this(1) begins this(2) run]
  have "\<exists>own. prefix own [?n] \<and> wire (lk_handler ?t) \<in> shuffles [?m] own" by simp
  with begins run show ?thesis by (intro exI [of _ ?s] exI [of _ ?a] exI [of _ ?t]) simp
qed

section \<open>Waiting for the lock\<close>

lemma retrying_prefix:
  "lk_retry s = Retrying ms \<Longrightarrow> k \<le> length ms \<Longrightarrow> retry_acts_alone k answer t s =
     s\<lparr>lk_handler := (lk_handler s)\<lparr>wire := wire (lk_handler s) @ take k ms\<rparr>, lk_retry := Retrying (drop k ms)\<rparr>"
proof (induction k arbitrary: s ms)
  case 0
  then show ?case by (cases s; cases "lk_handler s") simp
next
  case (Suc k)
  then obtain m ms' where ms: "ms = m # ms'" by (cases ms) auto
  let ?s = "s\<lparr>lk_handler := (lk_handler s)\<lparr>wire := wire (lk_handler s) @ [m]\<rparr>, lk_retry := Retrying ms'\<rparr>"
  have "retry_act answer t s = ?s" using Suc.prems ms by (simp add: retry_act_def Let_def)
  then show ?case using Suc.IH [of ?s ms'] Suc.prems ms by simp
qed

text \<open>
  C14: A request never waits for anything but a retry pass: unless it is over it can move, or it is about
  to queue its batch while the background thread holds the lock; then it stays blocked for every
  single send of the rest of the pass, whatever the network does, and can move right after its
  end.  So a client's first send does wait for the retries.
\<close>

theorem request_waits_for_retries:
  assumes "lk_request s \<noteq> Idle" and "lk_request s \<noteq> Broken"
  shows "request_act p send now s \<noteq> None \<or>
    (lk_request s = Queueing \<and> (\<exists>ms. lk_retry s = Retrying ms \<and>
       (\<forall>k \<le> length ms. request_act p send now (retry_acts_alone k answer t s) = None \<and>
          wire (lk_handler (retry_acts_alone k answer t s)) = wire (lk_handler s) @ take k ms) \<and>
       request_act p send now (retry_acts_alone (Suc (length ms)) answer t s) \<noteq> None))"
proof (cases "lk_request s = Queueing \<and> holds_pending (lk_retry s)")
  case True
  then obtain ms where ms: "lk_retry s = Retrying ms" by (auto simp: holds_pending_def split: retry_at.splits)
  have "request_act p send now (retry_acts_alone k answer t s) = None \<and>
      wire (lk_handler (retry_acts_alone k answer t s)) = wire (lk_handler s) @ take k ms" if "k \<le> length ms" for k
    using True by (simp add: retrying_prefix [OF ms that] request_act_def holds_pending_def)
  moreover have "request_act p send now (retry_acts_alone (Suc (length ms)) answer t s) \<noteq> None"
    using True by (simp add: retrying_alone [OF ms] request_act_def holds_pending_def Let_def del: retry_acts_alone.simps)
  ultimately show ?thesis using True ms by blast
next
  case False
  have "request_act p send now s \<noteq> None"
  proof (cases "lk_request s")
    case (Sending ls)
    then show ?thesis by (cases ls) (auto simp: request_act_def Let_def split: option.splits)
  qed (use False assms in \<open>auto simp: request_act_def Let_def\<close>)
  then show ?thesis ..
qed

theorem request_waits_for_retries_witness:
  "\<exists>s :: (unit, unit) locked. reach lock_init (lock_step Debug (\<lambda>_. Some ())) s \<and> lk_request s = Queueing \<and>
     request_act Debug (\<lambda>_ _ _. True) 9 s = None \<and>
     request_act Debug (\<lambda>_ _ _. True) 9 (retry_acts_alone 1 None 5 s) = None \<and>
     request_act Debug (\<lambda>_ _ _. True) 9 (retry_acts_alone 2 None 5 s) \<noteq> None"
proof -
  obtain s :: "(unit, unit) locked" where s: "reach lock_init (lock_step Debug (\<lambda>_. Some ())) s"
    "lk_request s = Queueing" "lk_retry s = Retrying [(\<lparr>sa_ip = (), sa_port = 8006\<rparr>, [[7, 8]])]"
    using sample_lock_run by blast
  have blocked: "request_act Debug (\<lambda>_ _ _. True) 9 s = None"
    using s(2,3) by (simp add: request_act_def holds_pending_def)
  from request_waits_for_retries [of s Debug "\<lambda>_ _ _. True" 9 None 5] s(2,3) blocked
  have k: "\<forall>k \<le> 1. request_act Debug (\<lambda>_ _ _. True) 9 (retry_acts_alone k None 5 s) = None"
    and after: "request_act Debug (\<lambda>_ _ _. True) 9 (retry_acts_alone (Suc 1) None 5 s) \<noteq> None" by auto
  from k have "request_act Debug (\<lambda>_ _ _. True) 9 (retry_acts_alone 1 None 5 s) = None" by blast
  with s blocked after show ?thesis unfolding Suc_1 by blast
qed

end
