(* ===== verification/Process.thy ===== *)
theory Process
  imports Service Background Quic_Locks
begin

text \<open>
  The process of \<open>src/bin/catfwd.rs\<close> with everything that runs in it or talks to it: the server loop of
  \<open>src/txfwd.rs\<close> with the request handler of \<open>src/quic.rs\<close>, the handler's background thread, its drop
  when the server has returned or panicked, and the clients (other processes).
\<close>

section \<open>The threads together\<close>

text \<open>
  The server owns the handler with its background thread; a request is answered at the time \<open>now\<close>.
\<close>

definition handle ::
    "profile \<Rightarrow> 'ip sender \<Rightarrow> nat \<Rightarrow> transaction_request \<Rightarrow> ('ip, 'pk) quic_service \<Rightarrow>
     ((u8 + u16) \<times> ('ip, 'pk) quic_service) exec" where
  "handle p send now rq s = do {
     (r, h) \<leftarrow> answer_request (on_request p send now) rq (qs_handler s);
     ret (r, s\<lparr>qs_handler := h, qs_clock := now\<rparr>)
   }"

type_synonym ('ip, 'pk) process = "(transaction_request, u8 + u16, ('ip, 'pk) quic_service) service"

definition process_start :: "transaction_request list list \<Rightarrow> nat \<Rightarrow> ('ip, 'pk) handler \<Rightarrow> ('ip, 'pk) process" where
  "process_start ids now h = service_start ids (spawn_background now h)"

text \<open>
  A step of the server or of a client; a panic of the handler, which leaves it half-way and drops it
  in the unwinding; the drop when the server has returned; an action of the background thread; the end
  of the drop.
\<close>

inductive process_step ::
    "profile \<Rightarrow> (string \<Rightarrow> 'pk option) \<Rightarrow> bool \<Rightarrow> ('ip, 'pk) process \<Rightarrow> ('ip, 'pk) process \<Rightarrow> bool"
  for p parse faulty where
  serves: "qs_clock (sv_handler s) \<le> now \<Longrightarrow> service_run (handle p send now) None faulty s t \<Longrightarrow>
     sv_server t \<noteq> Server_Panicked \<or> sv_server s = Server_Panicked \<Longrightarrow> process_step p parse faulty s t"
| panics: "sv_server s = Replying i rq \<Longrightarrow> qs_clock (sv_handler s) \<le> now \<Longrightarrow>
     on_request p send now rq (qs_handler (sv_handler s)) = None \<Longrightarrow>
     l_leader h = l_leader (qs_handler (sv_handler s)) \<Longrightarrow> sleep_ms h = sleep_ms (qs_handler (sv_handler s)) \<Longrightarrow>
     process_step p parse faulty s (s\<lparr>sv_server := Server_Panicked,
       sv_handler := drop_handler ((sv_handler s)\<lparr>qs_handler := h, qs_clock := now\<rparr>)\<rparr>)"
| server_drops: "sv_server s = Server_Ok \<or> sv_server s = Server_Err \<Longrightarrow> qs_owner (sv_handler s) = Serving \<Longrightarrow>
     process_step p parse faulty s (s\<lparr>sv_handler := drop_handler (sv_handler s)\<rparr>)"
| background: "bg_running (qs_pc (sv_handler s)) \<Longrightarrow> qs_clock (sv_handler s) \<le> now \<Longrightarrow>
     process_step p parse faulty s (s\<lparr>sv_handler := bg_action p parse rpc now (sv_handler s)\<rparr>)"
| thread_joined: "qs_owner (sv_handler s) = Dropping \<Longrightarrow> \<not> bg_running (qs_pc (sv_handler s)) \<Longrightarrow>
     process_step p parse faulty s (s\<lparr>sv_handler := (sv_handler s)\<lparr>qs_owner := Dropped\<rparr>\<rparr>)"

section \<open>What the process keeps\<close>

lemma send_to_leaders_sends:
  "send_to_leaders p send txs leaders h = Some h' \<Longrightarrow>
   wire h' = wire h @ map (\<lambda>l. (li_addr l, txs)) leaders \<and> l_leader h' = l_leader h"
  by (induction leaders arbitrary: h) (fastforce simp: Option.bind_eq_Some_conv Let_def split: if_splits)+

text \<open>What a request that is answered does, whatever the number of leaders.\<close>

lemma on_request_does:
  assumes "on_request p send now rq h = Some (r, h')"
  shows "request_ok rq" "pending h' = pending h @ [\<lparr>pb_txs = request_txs rq, pb_sent_at = now\<rparr>]"
    "wire h' = wire h @ map (\<lambda>l. (li_addr l, request_txs rq)) (l_leader h)"
    "r = Inl OutofRange \<or> (\<exists>k. k \<noteq> 0 \<and> r = Inr k)"
proof -
  obtain h1 where "request_ok rq" and h1: "send_to_leaders p send (request_txs rq) (l_leader h)
      (h\<lparr>l_tx := request_txs rq, sent_count := 0, pending := pending h @ [\<lparr>pb_txs = request_txs rq, pb_sent_at = now\<rparr>]\<rparr>) = Some h1"
    "r = (if sent_count h1 = 0 then Inl OutofRange else Inr (sent_count h1))" "h' = h1"
    using assms by (auto simp: on_request_def request_slices_eq Let_def Option.bind_eq_Some_conv split: if_splits)
  then show "request_ok rq" "pending h' = pending h @ [\<lparr>pb_txs = request_txs rq, pb_sent_at = now\<rparr>]"
    "wire h' = wire h @ map (\<lambda>l. (li_addr l, request_txs rq)) (l_leader h)"
    "r = Inl OutofRange \<or> (\<exists>k. k \<noteq> 0 \<and> r = Inr k)"
    using send_to_leaders_keeps [OF h1(1)] send_to_leaders_sends [OF h1(1)] by auto
qed

lemma handle_cases:
  assumes "handle p send now rq s = Some (r, t)"
  obtains q h where "on_request p send now rq (qs_handler s) = Some (q, h)" "t = s\<lparr>qs_handler := h, qs_clock := now\<rparr>"
    "r = (case q of Inr x \<Rightarrow> Inr x | Inl e \<Rightarrow> Inl (error_code e))"
  using assms by (auto simp: handle_def answer_request_def Option.bind_eq_Some_conv)

text \<open>The handler is dropped only after the server has ended, and always after a panic.\<close>

definition owner_fits :: "('ip, 'pk) process \<Rightarrow> bool" where
  "owner_fits s \<longleftrightarrow> (qs_owner (sv_handler s) \<noteq> Serving \<longrightarrow> server_ended (sv_server s)) \<and>
     (sv_server s = Server_Panicked \<longrightarrow> qs_owner (sv_handler s) \<noteq> Serving)"

text \<open>A step of the server or of a client leaves the handler alone, or is one request.\<close>

lemma service_run_handler:
  assumes "service_run answer limit faulty s t"
  obtains "sv_handler t = sv_handler s" "handled t = handled s"
    | i q r where "sv_server s = Replying i q" "answer q (sv_handler s) = Some (r, sv_handler t)"
      "unsent_fits s \<longrightarrow> handled t = handled s @ [(i, q, r)]" "sv_server t \<noteq> Server_Panicked"
  using assms by (cases rule: service_run.cases) (auto simp: handled_def unsent_fits_def)

lemma service_run_ended:
  "service_run answer limit faulty s t \<Longrightarrow> server_ended (sv_server s) \<Longrightarrow> sv_server t = sv_server s"
  by (induction rule: service_run.induct) (auto simp: server_ended_def)

lemma handle_owner: "handle p send now rq s = Some (r, t) \<Longrightarrow> qs_owner t = qs_owner s"
  by (erule handle_cases) simp

lemma owner_fits_step:
  "process_step p parse faulty s t \<Longrightarrow> owner_fits s \<Longrightarrow> owner_fits t"
proof (induction rule: process_step.induct)
  case (serves s now send t)
  from serves(2) show ?case
  proof (cases rule: service_run_handler)
    case 1
    show ?thesis
    proof (cases "server_ended (sv_server s)")
      case True
      show ?thesis using serves(4) unfolding owner_fits_def 1(1) service_run_ended [OF serves(2) True] .
    next
      case False
      then have "qs_owner (sv_handler t) = Serving" "sv_server t \<noteq> Server_Panicked"
        using serves(3,4) by (auto simp: owner_fits_def 1(1) server_ended_def)
      then show ?thesis by (simp add: owner_fits_def)
    qed
  next
    case (2 i q r)
    then have "qs_owner (sv_handler t) = Serving" "sv_server t \<noteq> Server_Panicked"
      using serves(4) handle_owner [OF 2(2)] by (auto simp: owner_fits_def server_ended_def)
    then show ?thesis by (simp add: owner_fits_def)
  qed
next
  case (background s now rpc)
  then show ?case by (simp add: owner_fits_def bg_action_keeps)
qed (auto simp: owner_fits_def drop_handler_def server_ended_def)

text \<open>Every step of the process is a step of the handler with its thread, or none of it.\<close>

lemma process_handler_step:
  assumes "process_step p parse faulty s t" and "owner_fits s"
  shows "sv_handler t = sv_handler s \<or> quic_step p parse (sv_handler s) (sv_handler t)"
  using assms(1)
proof (cases rule: process_step.cases)
  case (serves now send)
  from serves(2) show ?thesis
  proof (cases rule: service_run_handler)
    case (2 i q r)
    then have "qs_owner (sv_handler s) = Serving" using assms(2) by (auto simp: owner_fits_def server_ended_def)
    then show ?thesis using 2(2) serves(1) by (auto elim!: handle_cases intro: request)
  qed simp
next
  case (panics i rq now send h)
  then have "qs_owner (sv_handler s) = Serving" using assms(2) by (auto simp: owner_fits_def server_ended_def)
  then show ?thesis using panics(1) request_panics [OF _ panics(3,4,5,6), of parse] by simp
next
  case server_drops
  then show ?thesis using drops [of "sv_handler s" p parse] by simp
next
  case (background now rpc)
  then show ?thesis using thread_acts [of "sv_handler s" now p parse rpc] by simp
next
  case thread_joined
  then show ?thesis using joins [of "sv_handler s" p parse] by simp
qed

lemma process_clients_step:
  assumes "process_step p parse faulty s t" and "clients_fit ids s"
  shows "clients_fit ids t"
  using assms(1)
proof (cases rule: process_step.cases)
  case (serves now send)
  then show ?thesis using assms(2) clients_fit_step by blast
next
  case (panics i rq now send h)
  have "clients_fit ids (s\<lparr>sv_server := Server_Panicked\<rparr>)"
    by (rule clients_fit_ended [OF assms(2)]) (simp add: server_ended_def)
  then show ?thesis unfolding panics(1) by (simp add: clients_fit_def)
qed (use assms(2) in \<open>simp_all add: clients_fit_def\<close>)

lemma process_unsent_step: "process_step p parse faulty s t \<Longrightarrow> unsent_fits s \<Longrightarrow> unsent_fits t"
  by (induction rule: process_step.induct) (auto simp: unsent_fits_def dest: unsent_fits_step [unfolded unsent_fits_def])

text \<open>
  While the server has not panicked, the batches queued are those of the requests answered, in order;
  \<open>queued\<close> is that list with the times.
\<close>

definition answered_well :: "nat \<times> transaction_request \<times> (u8 + u16) \<Rightarrow> bool" where
  "answered_well e \<longleftrightarrow> (case e of (i, rq, r) \<Rightarrow> request_ok rq \<and> (r = Inl 5 \<or> (\<exists>k. k \<noteq> 0 \<and> r = Inr k)))"

definition batches_fit :: "pending_batch list \<Rightarrow> ('ip, 'pk) process \<Rightarrow> bool" where
  "batches_fit queued s \<longleftrightarrow> map pb_txs queued = map (\<lambda>(i, rq, r). request_txs rq) (handled s) \<and>
     queue_kept (pending (qs_handler (sv_handler s))) queued (qs_clock (sv_handler s)) \<and>
     wire_fits (wire (qs_handler (sv_handler s))) queued"

definition requests_fit :: "('ip, 'pk) process \<Rightarrow> bool" where
  "requests_fit s \<longleftrightarrow> (\<forall>e \<in> set (handled s). answered_well e) \<and>
     (sv_server s \<noteq> Server_Panicked \<longrightarrow> (\<exists>queued. batches_fit queued s))"

lemma requests_fit_same:
  "sv_handler t = sv_handler s \<Longrightarrow> handled t = handled s \<Longrightarrow>
   sv_server t \<noteq> Server_Panicked \<or> sv_server s = Server_Panicked \<Longrightarrow> requests_fit s \<Longrightarrow>
   sv_server s \<noteq> Server_Panicked \<or> sv_server t = Server_Panicked \<Longrightarrow> requests_fit t"
  by (auto simp: requests_fit_def batches_fit_def)

lemma wire_fits_batch: "wire_fits (map (\<lambda>l. (li_addr l, pb_txs b)) ls) (queued @ [b])"
  by (auto simp: wire_fits_def)

lemma handle_batches:
  assumes "handle p send now rq (sv_handler s) = Some (r, sv_handler t)" and "qs_clock (sv_handler s) \<le> now"
    and "handled t = handled s @ [(i, rq, r)]" and "batches_fit queued s"
  shows "answered_well (i, rq, r) \<and> batches_fit (queued @ [\<lparr>pb_txs = request_txs rq, pb_sent_at = now\<rparr>]) t"
  using assms(1)
proof (rule handle_cases)
  fix q h assume req: "on_request p send now rq (qs_handler (sv_handler s)) = Some (q, h)"
    and t: "sv_handler t = sv_handler s\<lparr>qs_handler := h, qs_clock := now\<rparr>"
    and r: "r = (case q of Inr x \<Rightarrow> Inr x | Inl e \<Rightarrow> Inl (error_code e))"
  note does = on_request_does [OF req]
  have "answered_well (i, rq, r)" using does(1,4) by (auto simp: answered_well_def r)
  moreover have "queue_kept (pending (qs_handler (sv_handler s))) queued now"
    using assms(2,4) unfolding batches_fit_def by (blast intro: queue_kept_later)
  ultimately show ?thesis using assms(3,4) wire_fits_batch [of "\<lparr>pb_txs = request_txs rq, pb_sent_at = now\<rparr>"]
    by (simp add: batches_fit_def t does(2,3) queue_kept_push wire_fits_push)
qed

lemma refresh_batches:
  assumes "queue_kept (pending h) queued t" and "t \<le> now" and "wire_fits (wire h) queued"
  shows "queue_kept (pending (refresh answer now h)) queued now \<and> wire_fits (wire (refresh answer now h)) queued"
proof (cases answer)
  case (Inl e)
  then show ?thesis using assms by (simp add: refresh_def queue_kept_later)
next
  case (Inr leaders)
  let ?kept = "filter (\<lambda>b. now - pb_sent_at b < PENDING_TX_TTL) (pending h)"
  have kept: "queue_kept ?kept queued now" using assms(1,2) by (blast intro: queue_kept_retain queue_kept_later)
  then have "set ?kept \<subseteq> set queued" by (auto simp: queue_kept_def dest: list_emb_set)
  then have "wire_fits (retry_pending leaders ?kept) queued"
    using retry_pending_txs [of leaders ?kept] unfolding wire_fits_def by blast
  then show ?thesis using Inr kept assms(3) by (simp add: refresh_def Let_def)
qed

lemma bg_action_batches:
  assumes "batches_fit queued s" and "qs_clock (sv_handler s) \<le> now"
  shows "batches_fit queued (s\<lparr>sv_handler := bg_action p parse rpc now (sv_handler s)\<rparr>)"
proof -
  have later: "queue_kept (pending (qs_handler (sv_handler s))) queued now"
    using assms unfolding batches_fit_def by (blast intro: queue_kept_later)
  show ?thesis
  proof (cases "qs_pc (sv_handler s)")
    case (Sleeping k)
    then show ?thesis using assms(1) later by (cases k) (simp_all add: bg_action_def Let_def batches_fit_def)
  next
    case Refreshing
    then show ?thesis using assms later refresh_batches [of "qs_handler (sv_handler s)" queued "qs_clock (sv_handler s)" now]
      by (simp add: bg_action_def Let_def batches_fit_def split: option.splits)
  qed (use assms(1) later in \<open>simp_all add: bg_action_def Let_def batches_fit_def\<close>)
qed

lemma requests_fit_step:
  "process_step p parse faulty s t \<Longrightarrow> requests_fit s \<Longrightarrow> unsent_fits s \<Longrightarrow> requests_fit t"
proof (induction rule: process_step.induct)
  case (serves s now send t)
  from serves(2) show ?case
  proof (cases rule: service_run_handler)
    case 1
    have "sv_server s \<noteq> Server_Panicked \<or> sv_server t = Server_Panicked"
      using service_run_ended [OF serves(2)] by (auto simp: server_ended_def)
    with 1 serves(3,4) show ?thesis by (intro requests_fit_same [of t s])
  next
    case (2 i q r)
    then obtain queued where "batches_fit queued s" using serves(4) by (auto simp: requests_fit_def)
    have new: "handled t = handled s @ [(i, q, r)]" using 2(3) serves(5) by simp
    from handle_batches [OF 2(2) serves(1) new \<open>batches_fit queued s\<close>] show ?thesis
      using serves(4) new by (auto simp: requests_fit_def)
  qed
next
  case (background s now rpc)
  then show ?case using bg_action_batches [of _ s now p parse rpc] by (auto simp: requests_fit_def)
next
  case (panics s i rq now send h)
  then show ?case by (simp add: requests_fit_def)
next
  case (server_drops s)
  then show ?case by (auto simp: requests_fit_def batches_fit_def drop_handler_def)
next
  case (thread_joined s)
  then show ?case by (auto simp: requests_fit_def batches_fit_def)
qed

abbreviation process_init :: "transaction_request list list \<Rightarrow> ('ip, 'pk) process \<Rightarrow> bool" where
  "process_init ids s \<equiv> \<exists>now initial. s = process_start ids now (start_handler initial)"

definition process_inv :: "transaction_request list list \<Rightarrow> ('ip, 'pk) process \<Rightarrow> bool" where
  "process_inv ids s \<longleftrightarrow> owner_fits s \<and> clients_fit ids s \<and> requests_fit s \<and> unsent_fits s \<and> stop_inv (sv_handler s)"

interpretation process: invariant_system "process_init ids" "process_step p parse faulty" "process_inv ids"
  for ids p parse faulty
proof unfold_locales
  fix s :: "('a, 'b) process" assume "process_init ids s"
  then obtain now initial where s: "s = process_start ids now (start_handler initial)" by blast
  have "batches_fit [] s" unfolding s batches_fit_def process_start_def handled_start
    by (simp add: service_start_def spawn_background_def start_handler_def queue_kept_def)
  moreover have "handled s = []" by (simp add: s process_start_def handled_start)
  ultimately have "requests_fit s" by (auto simp: requests_fit_def)
  moreover have "clients_fit ids s" "unsent_fits s"
    by (simp_all add: s process_start_def clients_fit_start unsent_fits_start)
  moreover have "owner_fits s" "stop_inv (sv_handler s)"
    by (simp_all add: s process_start_def service_start_def spawn_background_def owner_fits_def stop_inv_def)
  ultimately show "process_inv ids s" by (simp add: process_inv_def)
next
  fix s t :: "('a, 'b) process" assume inv: "process_inv ids s" and step: "process_step p parse faulty s t"
  have "stop_inv (sv_handler t)"
    using process_handler_step [OF step] inv quic_stop.inv_step [of "sv_handler s" p parse] by (auto simp: process_inv_def)
  then show "process_inv ids t"
    using inv owner_fits_step [OF step] process_clients_step [OF step] requests_fit_step [OF step]
      process_unsent_step [OF step] by (simp add: process_inv_def)
qed

section \<open>A sample run\<close>

text \<open>A run of the server and its clients at one time is a run of the process, unless the handler panics.\<close>

lemma service_run_in_process:
  assumes "reach (\<lambda>s. s = process_start ids now h) (service_run (handle p send now) None faulty) s"
    and "sv_server s \<noteq> Server_Panicked"
  shows "reach (\<lambda>s. s = process_start ids now h) (process_step p parse faulty) s \<and> qs_clock (sv_handler s) = now"
  using assms
proof (induction rule: reach.induct)
  case (reach_init s)
  then show ?case by (auto simp: process_start_def service_start_def spawn_background_def intro: reach.reach_init)
next
  case (reach_step s t)
  have "sv_server s \<noteq> Server_Panicked"
    using service_run_ended [OF reach_step(2)] reach_step(4) by (auto simp: server_ended_def)
  with reach_step(3) have s: "reach (\<lambda>s. s = process_start ids now h) (process_step p parse faulty) s" "qs_clock (sv_handler s) = now"
    by simp_all
  have "process_step p parse faulty s t" using serves [OF _ reach_step(2)] s(2) reach_step(4) by simp
  moreover have "qs_clock (sv_handler t) = now"
    using reach_step(2) by (cases rule: service_run_handler) (auto simp: s(2) elim: handle_cases)
  ultimately show ?case using s(1) by (blast intro: reach.reach_step)
qed

lemma reach_from: "reach (\<lambda>s. s = a) step s \<Longrightarrow> init a \<Longrightarrow> reach init step s"
  by (induction rule: reach.induct) (auto intro: reach.intros)

lemma sample_process:
  defines "rq \<equiv> \<lparr>rq_count = 1, rq_list = [2], rq_data = [7, 8, 9]\<rparr>"
  shows "\<exists>s :: (unit, unit) process. reach (process_init [[rq]]) (process_step Debug parse faulty) s \<and>
     sv_clients s = [Client_Ok [Inr 1]] \<and> sv_log s = [(0, rq, Inr 1)] \<and> sv_unsent s = [] \<and> sv_server s = Receiving \<and>
     qs_owner (sv_handler s) = Serving \<and> qs_clock (sv_handler s) = 5 \<and>
     pending (qs_handler (sv_handler s)) = [\<lparr>pb_txs = [[7, 8]], pb_sent_at = 5\<rparr>]"
proof -
  let ?h = "start_handler (Inr [\<lparr>li_pubkey = (), li_slot = 1, li_addr = \<lparr>sa_ip = (), sa_port = 8006\<rparr>\<rparr>])"
  let ?f = "handle Debug (\<lambda>_ _ _. True) 5"
  have ok: "request_ok rq" "request_txs rq = [[7, 8]]"
    by (simp_all add: rq_def request_ok_def request_txs_def request_ends_def)
  have h: "length (l_leader ?h) < 2 ^ 16" by (simp add: start_handler_def)
  from on_request_eq [OF h, of Debug "\<lambda>_ _ _. True" 5 rq] ok obtain h' where
    "on_request Debug (\<lambda>_ _ _. True) 5 rq ?h = Some (Inr 1, h')" "pending h' = [\<lparr>pb_txs = [[7, 8]], pb_sent_at = 5\<rparr>]"
    by (simp add: start_handler_def Let_def)
  then have f: "?f rq (spawn_background 5 ?h) = Some (Inr 1, (spawn_background 5 ?h)\<lparr>qs_handler := h', qs_clock := 5\<rparr>)"
    by (simp add: handle_def answer_request_def spawn_background_def)
  from single_client_run [of ?f rq "spawn_background 5 ?h" "Inr 1" "(spawn_background 5 ?h)\<lparr>qs_handler := h', qs_clock := 5\<rparr>" faulty, OF f]
  obtain s where
    s: "reach (\<lambda>s. s = service_start [[rq]] (spawn_background 5 ?h)) (service_run ?f None faulty) s"
      "sv_clients s = [Client_Ok [Inr 1]]" "sv_log s = [(0, rq, Inr 1)]" "sv_unsent s = []" "sv_server s = Receiving"
      "sv_handler s = (spawn_background 5 ?h)\<lparr>qs_handler := h', qs_clock := 5\<rparr>"
    by blast
  have "reach (\<lambda>s. s = process_start [[rq]] 5 ?h) (process_step Debug parse faulty) s"
    using service_run_in_process [of "[[rq]]" 5 ?h Debug "\<lambda>_ _ _. True" faulty s parse] s(1,5) by (simp add: process_start_def)
  then have "reach (process_init [[rq]]) (process_step Debug parse faulty) s" by (rule reach_from) blast
  with s(2-6) \<open>pending h' = _\<close> show ?thesis
    by (intro exI [of _ s]) (simp add: spawn_background_def)
qed

text \<open>The same run, told to shut down.\<close>

lemma sample_process_stopped:
  "\<exists>ids (s :: (unit, unit) process). reach (process_init ids) (process_step Debug parse faulty) s \<and> sv_stop s \<and>
     sv_clients s = [Client_Ok [Inr 1]] \<and> sv_server s = Receiving \<and> qs_owner (sv_handler s) = Serving"
proof -
  obtain ids and s :: "(unit, unit) process" where s: "reach (process_init ids) (process_step Debug parse faulty) s"
    "sv_clients s = [Client_Ok [Inr 1]]" "sv_server s = Receiving" "qs_owner (sv_handler s) = Serving"
    using sample_process by blast
  have "process_step Debug parse faulty s (s\<lparr>sv_stop := True\<rparr>)"
    by (rule serves [OF le_refl stops]) (simp add: s(3))
  from reach_step [OF s(1) this] s(2-4) show ?thesis by (intro exI [of _ ids] exI [of _ "s\<lparr>sv_stop := True\<rparr>"]) simp
qed

section \<open>What every run keeps\<close>

text \<open>
  Every run of the process is, for the request handler, a run of the handler with its background
  thread, so that what holds there holds in the process; and nobody uses a handler that is dropped.
\<close>

lemma process_refines_handler:
  assumes "reach (process_init ids) (process_step p parse faulty) s"
  shows "reach (\<lambda>s. \<exists>now h. s = spawn_background now h) (quic_step p parse) (sv_handler s) \<and>
    (qs_owner (sv_handler s) \<noteq> Serving \<longrightarrow> server_ended (sv_server s))"
proof -
  have "reach (\<lambda>s. \<exists>now h. s = spawn_background now h) (quic_step p parse) (sv_handler s)"
    using assms
  proof (induction rule: reach.induct)
    case (reach_init s)
    then obtain now initial where "sv_handler s = spawn_background now (start_handler initial)"
      by (auto simp: process_start_def service_start_def)
    then have "\<exists>now h. sv_handler s = spawn_background now h" by blast
    then show ?case by (rule reach.reach_init)
  next
    case (reach_step s t)
    have "owner_fits s" using process.inv_reach [OF reach_step(1)] by (simp add: process_inv_def)
    with process_handler_step [OF reach_step(2)] reach_step(3) show ?case by (auto intro: reach.reach_step)
  qed
  moreover have "owner_fits s" using process.inv_reach [OF assms] by (simp add: process_inv_def)
  ultimately show ?thesis by (simp add: owner_fits_def)
qed

lemma process_refines_handler_witness:
  "\<exists>s :: (unit, unit) process. reach (\<lambda>s. \<exists>now h. s = spawn_background now h) (quic_step Debug (\<lambda>_. None)) (sv_handler s) \<and>
     sv_clients s = [Client_Ok [Inr 1]] \<and> pending (qs_handler (sv_handler s)) = [\<lparr>pb_txs = [[7, 8]], pb_sent_at = 5\<rparr>]"
proof -
  obtain ids and s :: "(unit, unit) process" where s: "reach (process_init ids) (process_step Debug (\<lambda>_. None) False) s"
    "sv_clients s = [Client_Ok [Inr 1]]" "pending (qs_handler (sv_handler s)) = [\<lparr>pb_txs = [[7, 8]], pb_sent_at = 5\<rparr>]"
    using sample_process by blast
  from process_refines_handler [OF s(1)] s(2,3) show ?thesis by blast
qed

text \<open>
  Under every interleaving of the clients, the server and the background thread, whatever the
  network, the RPC server and the shared-memory service do: a client that returned normally got
  the answers to its requests in order; a request that was answered was well-formed, and the answer is
  a number of leaders that is not 0 or code 5; unless the server has panicked, the batches of the requests
  answered were queued, one each and in order, and each stays queued for at least 30 s; nothing
  else is queued or was ever sent.
\<close>

lemma process_keeps_requests:
  assumes "reach (process_init ids) (process_step p parse faulty) s"
  shows "(\<forall>i < length ids. \<forall>rs. sv_clients s ! i = Client_Ok rs \<longrightarrow>
      length rs = length (ids ! i) \<and> log_of i (sv_log s) = zip (ids ! i) rs) \<and>
    (\<forall>(i, rq, r) \<in> set (sv_log s @ sv_unsent s). request_ok rq \<and> (r = Inl 5 \<or> (\<exists>k. k \<noteq> 0 \<and> r = Inr k))) \<and>
    (sv_server s \<noteq> Server_Panicked \<longrightarrow> (\<exists>queued.
      map pb_txs queued = map (\<lambda>(i, rq, r). request_txs rq) (sv_log s @ sv_unsent s) \<and>
      subseq (pending (qs_handler (sv_handler s))) queued \<and>
      (\<forall>b \<in> set queued. b \<in> set (pending (qs_handler (sv_handler s))) \<or> pb_sent_at b + 30000 \<le> qs_clock (sv_handler s)) \<and>
      snd ` set (wire (qs_handler (sv_handler s))) \<subseteq> pb_txs ` set queued))"
proof -
  have "process_inv ids s" by (rule process.inv_reach [OF assms])
  then have "clients_fit ids s" and req: "requests_fit s" by (simp_all add: process_inv_def)
  then have "\<forall>i < length ids. \<forall>rs. sv_clients s ! i = Client_Ok rs \<longrightarrow>
      length rs = length (ids ! i) \<and> log_of i (sv_log s) = zip (ids ! i) rs"
    using clients_fit_returned by blast
  moreover have "\<forall>(i, rq, r) \<in> set (handled s). request_ok rq \<and> (r = Inl 5 \<or> (\<exists>k. k \<noteq> 0 \<and> r = Inr k))"
    using req by (auto simp: requests_fit_def answered_well_def)
  ultimately show ?thesis
    using req unfolding requests_fit_def handled_def batches_fit_def queue_kept_def wire_fits_def PENDING_TX_TTL_def by blast
qed

lemma process_keeps_requests_witness:
  "\<exists>(s :: (unit, unit) process) queued. sv_clients s = [Client_Ok [Inr 1]] \<and> map pb_txs queued = [[[7, 8]]] \<and>
     subseq (pending (qs_handler (sv_handler s))) queued \<and> pending (qs_handler (sv_handler s)) \<noteq> []"
proof -
  let ?rq = "\<lparr>rq_count = 1, rq_list = [2], rq_data = [7, 8, 9]\<rparr>"
  obtain s :: "(unit, unit) process" where s: "reach (process_init [[?rq]]) (process_step Debug (\<lambda>_. None) False) s"
    "sv_clients s = [Client_Ok [Inr 1]]" "sv_log s = [(0, ?rq, Inr 1)]" "sv_unsent s = []" "sv_server s = Receiving"
    "pending (qs_handler (sv_handler s)) = [\<lparr>pb_txs = [[7, 8]], pb_sent_at = 5\<rparr>]"
    using sample_process by blast
  from process_keeps_requests [OF s(1)] s(5) obtain queued where
    "map pb_txs queued = map (\<lambda>(i, rq, r). request_txs rq) (sv_log s @ sv_unsent s)" "subseq (pending (qs_handler (sv_handler s))) queued"
    by auto
  then show ?thesis using s(2,3,4,6)
    by (intro exI [of _ s] exI [of _ queued]) (simp add: request_txs_def request_ends_def)
qed

section \<open>Shutdown\<close>

text \<open>
  What is left once the shutdown flag is set: of the clients and the requests under way, of the server's
  polls, of the drop and of the background thread, which counts in full until it is told to stop.
\<close>

fun poll_left :: "'q server_at \<Rightarrow> nat" where
  "poll_left Receiving = 2"
| "poll_left Checking = 1"
| "poll_left _ = 0"

definition server_left :: "('q, 'r, 'h) service \<Rightarrow> nat" where
  "server_left s = 3 * service_work s + poll_left (sv_server s)"

definition thread_left :: "('ip, 'pk) quic_service \<Rightarrow> nat" where
  "thread_left s = owner_left (qs_owner s) + (if qs_stop s then bg_left (qs_pc s) else 3)"

definition process_left :: "('ip, 'pk) process \<Rightarrow> nat" where
  "process_left s = server_left s + thread_left (sv_handler s)"

lemma server_left_client:
  "i < length (sv_clients s) \<Longrightarrow> server_left (s\<lparr>sv_clients := (sv_clients s)[i := c]\<rparr>) + 3 * client_work (sv_clients s ! i) =
     server_left s + 3 * client_work c"
  using work_update [of i "sv_clients s" c] by (simp add: server_left_def service_work_def)

lemma service_run_left:
  "service_run answer None faulty s t \<Longrightarrow> sv_stop s \<Longrightarrow> server_left t < server_left s \<or> t = s"
proof (induction rule: service_run.induct)
  case (sends i s q qs rs)
  then show ?case using work_update [OF sends(1), of "Awaiting q qs rs"] by (simp add: server_left_def service_work_def)
next
  case (send_lost i s q qs rs)
  then show ?case using work_update [OF send_lost(2), of "Awaiting q qs rs"] by (simp add: server_left_def service_work_def)
next
  case (returns i s rs)
  then show ?case using work_update [OF returns(1), of "Client_Ok rs"] by (simp add: server_left_def service_work_def)
next
  case (receives i s q qs rs r)
  then show ?case using work_update [OF receives(1), of "Requesting qs (rs @ [r])"] by (simp add: server_left_def service_work_def)
next
  case (client_fails i s)
  show ?case
  proof (cases "sv_clients s ! i = Client_Err")
    case True
    then have "(sv_clients s)[i := Client_Err] = sv_clients s" by (metis list_update_id)
    then show ?thesis by simp
  next
    case False
    then have "0 < client_work (sv_clients s ! i)" using client_fails(3) by (cases "sv_clients s ! i") auto
    then show ?thesis using work_update [OF client_fails(2), of Client_Err] by (simp add: server_left_def service_work_def)
  qed
next
  case (server_fails s)
  then show ?case by (cases "sv_server s") (simp_all add: server_left_def service_work_def server_ended_def)
qed (simp_all add: server_left_def service_work_def enough_def)

lemma handle_thread_left: "handle p send now rq s = Some (r, t) \<Longrightarrow> thread_left t = thread_left s"
  by (erule handle_cases) (simp add: thread_left_def)

lemma bg_action_thread_left:
  assumes "bg_running (qs_pc s)"
  shows "if qs_stop s then thread_left (bg_action p parse rpc now s) < thread_left s
    else thread_left (bg_action p parse rpc now s) = thread_left s"
  using assms bg_action_left [of s p parse rpc now] by (simp add: thread_left_def bg_action_keeps)

lemma bg_left_le: "bg_left pc \<le> 3"
  by (cases pc rule: bg_left.cases) simp_all

lemma drop_thread_left: "qs_owner s = Serving \<Longrightarrow> thread_left (drop_handler s) < thread_left s"
  using bg_left_le [of "qs_pc s"] by (simp add: thread_left_def drop_handler_def)

text \<open>A step reduces what is left, changes nothing, or is a turn of the thread that need not stop yet.\<close>

lemma process_left_step:
  "process_step p parse faulty s t \<Longrightarrow> sv_stop s \<Longrightarrow> process_inv ids s \<Longrightarrow>
   sv_stop t \<and> (process_left t < process_left s \<or> t = s \<or>
     process_left t = process_left s \<and> qs_owner (sv_handler s) = Serving \<and>
       (\<exists>rpc now. t = s\<lparr>sv_handler := bg_action p parse rpc now (sv_handler s)\<rparr>))"
proof (induction rule: process_step.induct)
  case (serves s now send t)
  have "thread_left (sv_handler t) = thread_left (sv_handler s)"
    using serves(2) by (cases rule: service_run_handler) (simp_all add: handle_thread_left)
  moreover have "sv_stop t" using serves(2,4) by (induction rule: service_run.induct) simp_all
  ultimately show ?case using service_run_left [OF serves(2,4)] by (auto simp: process_left_def)
next
  case (panics s i rq now send h)
  let ?q = "(sv_handler s)\<lparr>qs_handler := h, qs_clock := now\<rparr>"
  have "qs_owner ?q = Serving" using panics(1,7) by (auto simp: process_inv_def owner_fits_def server_ended_def)
  moreover have "thread_left ?q = thread_left (sv_handler s)" by (simp add: thread_left_def)
  ultimately have "thread_left (drop_handler ?q) < thread_left (sv_handler s)" using drop_thread_left by metis
  then show ?case using panics(1,6) by (simp add: process_left_def server_left_def service_work_def)
next
  case (server_drops s)
  then show ?case using drop_thread_left [of "sv_handler s"] by (simp add: process_left_def server_left_def service_work_def)
next
  case (background s now rpc)
  have same: "server_left (s\<lparr>sv_handler := x\<rparr>) = server_left s" for x by (simp add: server_left_def service_work_def)
  have "qs_stop (sv_handler s) \<longleftrightarrow> qs_owner (sv_handler s) \<noteq> Serving"
    using background(4) by (simp add: process_inv_def stop_inv_def)
  then show ?case using bg_action_thread_left [OF background(1), of p parse rpc now] background(3)
    by (auto simp: process_left_def same split: if_splits)
next
  case (thread_joined s)
  then show ?case by (simp add: process_left_def server_left_def service_work_def thread_left_def)
qed

text \<open>As long as the handler is not gone, some thread of the process has work it can do.\<close>

lemma owner_can_work:
  assumes inv: "process_inv ids s" and "server_ended (sv_server s)" and "qs_owner (sv_handler s) \<noteq> Dropped"
  shows "\<exists>t. process_step p parse faulty s t \<and> process_left t < process_left s"
proof (cases "qs_owner (sv_handler s)")
  case Serving
  then have "sv_server s = Server_Ok \<or> sv_server s = Server_Err"
    using inv assms(2) by (auto simp: process_inv_def owner_fits_def server_ended_def)
  from server_drops [OF this Serving] drop_thread_left [OF Serving] show ?thesis
    by (fastforce simp: process_left_def server_left_def service_work_def)
next
  case Dropping
  have same: "server_left (s\<lparr>sv_handler := x\<rparr>) = server_left s" for x by (simp add: server_left_def service_work_def)
  show ?thesis
  proof (cases "bg_running (qs_pc (sv_handler s))")
    case True
    have "qs_stop (sv_handler s)" using inv Dropping by (simp add: process_inv_def stop_inv_def)
    with bg_action_thread_left [OF True, of p parse undefined "qs_clock (sv_handler s)"]
    have "process_left (s\<lparr>sv_handler := bg_action p parse undefined (qs_clock (sv_handler s)) (sv_handler s)\<rparr>) < process_left s"
      by (simp add: process_left_def same)
    with background [OF True le_refl] show ?thesis by blast
  next
    case False
    from thread_joined [OF Dropping False] Dropping show ?thesis
      by (fastforce simp: process_left_def same thread_left_def)
  qed
qed (use assms(3) in simp)

lemma server_can_work:
  assumes inv: "process_inv ids s" and stop: "sv_stop s" and running: "\<not> server_ended (sv_server s)"
  shows "\<exists>t. process_step p parse faulty s t \<and> process_left t < process_left s"
proof -
  let ?now = "qs_clock (sv_handler s)" and ?send = "\<lambda>_ _ _. True"
  have works: ?thesis if "process_step p parse faulty s t" "sv_server t \<noteq> sv_server s" for t
    using process_left_step [OF that(1) stop inv] that by auto
  have turn: ?thesis if "service_run (handle p ?send ?now) None faulty s t" "sv_server t \<noteq> sv_server s"
      "sv_server t \<noteq> Server_Panicked" for t
    using works [OF serves [OF le_refl that(1)]] that(2,3) by blast
  show ?thesis
  proof (cases "sv_server s")
    case Checking
    then show ?thesis using turn [OF checks] stop by simp
  next
    case Receiving
    show ?thesis
    proof (cases "sv_waiting s")
      case Nil
      then show ?thesis using turn [OF idles] Receiving by simp
    next
      case (Cons e ws)
      then show ?thesis using turn [OF picks [of s "[]" "fst e" "snd e" ws]] Receiving by simp
    qed
  next
    case (Replying i rq)
    show ?thesis
    proof (cases "on_request p ?send ?now rq (qs_handler (sv_handler s))")
      case None
      from works [OF panics [OF Replying le_refl None refl refl]] Replying show ?thesis by simp
    next
      case (Some x)
      then obtain r h where "handle p ?send ?now rq (sv_handler s) = Some (r, h)"
        by (cases x) (simp add: handle_def answer_request_def)
      from turn [OF replies [of s i rq "handle p ?send ?now" r h, OF Replying this]] Replying show ?thesis by (simp add: enough_def)
    qed
  qed (use running in \<open>simp_all add: server_ended_def\<close>)
qed

lemma process_can_end:
  "process_inv ids s \<Longrightarrow> sv_stop s \<Longrightarrow> \<exists>t. (process_step p parse faulty)\<^sup>*\<^sup>* s t \<and> qs_owner (sv_handler t) = Dropped"
proof (induction "process_left s" arbitrary: s rule: less_induct)
  case less
  show ?case
  proof (cases "qs_owner (sv_handler s) = Dropped")
    case False
    then obtain u where u: "process_step p parse faulty s u" "process_left u < process_left s"
      using owner_can_work [OF less.prems(1)] server_can_work [OF less.prems] by blast
    have "process_inv ids u" "sv_stop u"
      using process.inv_step [OF less.prems(1) u(1)] process_left_step [OF u(1) less.prems(2,1)] by simp_all
    from less.hyps [OF u(2) this] u(1) show ?thesis by (meson converse_rtranclp_into_rtranclp)
  qed blast
qed

text \<open>
  Told to shut down, the process ends: every step that is not a turn of the background thread of a
  handler still in use reduces what is left to do, no step adds to it, and some thread can always
  reduce it until the handler is gone; then the server has returned or panicked and the background
  thread has ended.
\<close>

lemma process_shuts_down:
  assumes "reach (process_init ids) (process_step p parse faulty) s" and "sv_stop s"
  shows "(\<forall>t. process_step p parse faulty s t \<longrightarrow> sv_stop t \<and> (process_left t < process_left s \<or> t = s \<or>
      process_left t = process_left s \<and> qs_owner (sv_handler s) = Serving \<and>
        (\<exists>rpc now. t = s\<lparr>sv_handler := bg_action p parse rpc now (sv_handler s)\<rparr>))) \<and>
    (qs_owner (sv_handler s) \<noteq> Dropped \<longrightarrow> (\<exists>t. process_step p parse faulty s t \<and> process_left t < process_left s)) \<and>
    (\<exists>t. (process_step p parse faulty)\<^sup>*\<^sup>* s t \<and> qs_owner (sv_handler t) = Dropped) \<and>
    (qs_owner (sv_handler s) = Dropped \<longrightarrow> server_ended (sv_server s) \<and>
      (qs_pc (sv_handler s) = Stopped \<or> qs_pc (sv_handler s) = Panicked))"
proof (intro conjI)
  have inv: "process_inv ids s" by (rule process.inv_reach [OF assms(1)])
  show "\<forall>t. process_step p parse faulty s t \<longrightarrow> sv_stop t \<and> (process_left t < process_left s \<or> t = s \<or>
      process_left t = process_left s \<and> qs_owner (sv_handler s) = Serving \<and>
        (\<exists>rpc now. t = s\<lparr>sv_handler := bg_action p parse rpc now (sv_handler s)\<rparr>))"
    using process_left_step [OF _ assms(2) inv] by blast
  show "qs_owner (sv_handler s) \<noteq> Dropped \<longrightarrow> (\<exists>t. process_step p parse faulty s t \<and> process_left t < process_left s)"
    using owner_can_work [OF inv] server_can_work [OF inv assms(2)] by blast
  show "\<exists>t. (process_step p parse faulty)\<^sup>*\<^sup>* s t \<and> qs_owner (sv_handler t) = Dropped"
    by (rule process_can_end [OF inv assms(2)])
  show "qs_owner (sv_handler s) = Dropped \<longrightarrow> server_ended (sv_server s) \<and>
      (qs_pc (sv_handler s) = Stopped \<or> qs_pc (sv_handler s) = Panicked)"
    using inv by (auto simp: process_inv_def owner_fits_def stop_inv_def bg_running_def)
qed

lemma process_shuts_down_witness:
  "\<exists>s t :: (unit, unit) process. sv_stop s \<and> sv_server s = Receiving \<and> qs_owner (sv_handler s) = Serving \<and>
     (process_step Debug (\<lambda>_. None) False)\<^sup>*\<^sup>* s t \<and> qs_owner (sv_handler t) = Dropped"
proof -
  obtain ids and s :: "(unit, unit) process" where s: "reach (process_init ids) (process_step Debug (\<lambda>_. None) False) s"
    "sv_stop s" "sv_server s = Receiving" "qs_owner (sv_handler s) = Serving"
    using sample_process_stopped by blast
  from process_shuts_down [OF s(1,2)] s(2-4) show ?thesis by blast
qed

end
