(* ===== verification/Process_Locks.thy ===== *)
theory Process_Locks
  imports Process
begin

text \<open>
  The process of \<open>Process\<close> at the grain of \<open>Quic_Locks\<close>: a request and a turn of the background thread are no
  longer whole, the two threads run between any of their actions and wait for each other's lock; the
  clients, the server loop, the stop flag, the drop of the handler and its join are those of \<open>Process\<close>.
\<close>

section \<open>The threads and their locks\<close>

text \<open>The handler with its locks, the stop flag, where the background thread stands, and its owner.\<close>

record ('ip, 'pk) shared =
  sh_locked :: "('ip, 'pk) locked"
  sh_stop :: bool
  sh_pc :: bg_pc
  sh_owner :: owner

type_synonym ('ip, 'pk) locked_process = "(transaction_request, u8 + u16, ('ip, 'pk) shared) service"

definition locked_start :: "transaction_request list list \<Rightarrow> nat \<Rightarrow> ('ip, 'pk) handler \<Rightarrow> ('ip, 'pk) locked_process" where
  "locked_start ids now h = service_start ids \<lparr>sh_locked = lock_start now h, sh_stop = False,
     sh_pc = Sleeping (unat (sleep_steps h)), sh_owner = Serving\<rparr>"

text \<open>One action of the background thread; a turn is over when it waits for its next query.\<close>

definition thread_act ::
    "profile \<Rightarrow> (string \<Rightarrow> 'pk option) \<Rightarrow> ('ip, 'pk) rpc_client \<Rightarrow> nat \<Rightarrow> ('ip, 'pk) shared \<Rightarrow> ('ip, 'pk) shared" where
  "thread_act p parse rpc now s = (let k = (sh_locked s)\<lparr>lk_clock := now\<rparr> in case sh_pc s of
     Sleeping 0 \<Rightarrow> s\<lparr>sh_locked := k, sh_pc := Refreshing\<rparr>
   | Sleeping (Suc n) \<Rightarrow> s\<lparr>sh_locked := k, sh_pc := (if sh_stop s then Stopped else Sleeping n)\<rparr>
   | Refreshing \<Rightarrow> (let k = retry_act (get_leader_tpu_addresses p parse rpc (Some 8)) now k in
       s\<lparr>sh_locked := k, sh_pc := (case lk_retry k of
          Waiting \<Rightarrow> Sleeping (unat (sleep_steps (lk_handler k))) | Dead \<Rightarrow> Panicked | _ \<Rightarrow> Refreshing)\<rparr>)
   | Stopped \<Rightarrow> s
   | Panicked \<Rightarrow> s)"

text \<open>The server sends the answer of a request that is over.\<close>

definition take_answer ::
    "transaction_request \<Rightarrow> ('ip, 'pk) shared \<Rightarrow> ((u8 + u16) \<times> ('ip, 'pk) shared) exec" where
  "take_answer rq s = (case lk_answers (sh_locked s) of
     [] \<Rightarrow> None
   | r # rs \<Rightarrow> Some (case r of Inr x \<Rightarrow> Inr x | Inl e \<Rightarrow> Inl (error_code e),
       s\<lparr>sh_locked := (sh_locked s)\<lparr>lk_answers := rs\<rparr>\<rparr>))"

definition drop_shared :: "('ip, 'pk) shared \<Rightarrow> ('ip, 'pk) shared" where
  "drop_shared s = s\<lparr>sh_stop := True, sh_owner := Dropping\<rparr>"

inductive locked_process_step ::
    "profile \<Rightarrow> (string \<Rightarrow> 'pk option) \<Rightarrow> bool \<Rightarrow> ('ip, 'pk) locked_process \<Rightarrow> ('ip, 'pk) locked_process \<Rightarrow> bool"
  for p parse faulty where
  lk_serves: "service_run take_answer None faulty s t \<Longrightarrow>
     sv_server t \<noteq> Server_Panicked \<or> sv_server s = Server_Panicked \<Longrightarrow> locked_process_step p parse faulty s t"
| lk_starts: "sv_server s = Replying i rq \<Longrightarrow> sh_locked (sv_handler s) = k \<Longrightarrow> lk_request k = Idle \<Longrightarrow> lk_answers k = [] \<Longrightarrow>
     lk_clock k \<le> now \<Longrightarrow>
     locked_process_step p parse faulty s
       (s\<lparr>sv_handler := (sv_handler s)\<lparr>sh_locked := accept_request rq (k\<lparr>lk_clock := now\<rparr>)\<rparr>\<rparr>)"
| lk_moves: "sv_server s = Replying i rq \<Longrightarrow> sh_locked (sv_handler s) = k \<Longrightarrow> lk_clock k \<le> now \<Longrightarrow>
     request_act p send now (k\<lparr>lk_clock := now\<rparr>) = Some k' \<Longrightarrow>
     locked_process_step p parse faulty s (s\<lparr>sv_handler := (sv_handler s)\<lparr>sh_locked := k'\<rparr>\<rparr>)"
| lk_panics: "sv_server s = Replying i rq \<Longrightarrow> lk_request (sh_locked (sv_handler s)) = Broken \<Longrightarrow>
     locked_process_step p parse faulty s (s\<lparr>sv_server := Server_Panicked, sv_handler := drop_shared (sv_handler s)\<rparr>)"
| lk_drops: "sv_server s = Server_Ok \<or> sv_server s = Server_Err \<Longrightarrow> sh_owner (sv_handler s) = Serving \<Longrightarrow>
     locked_process_step p parse faulty s (s\<lparr>sv_handler := drop_shared (sv_handler s)\<rparr>)"
| lk_background: "bg_running (sh_pc (sv_handler s)) \<Longrightarrow> lk_clock (sh_locked (sv_handler s)) \<le> now \<Longrightarrow>
     locked_process_step p parse faulty s (s\<lparr>sv_handler := thread_act p parse rpc now (sv_handler s)\<rparr>)"
| lk_joined: "sh_owner (sv_handler s) = Dropping \<Longrightarrow> \<not> bg_running (sh_pc (sv_handler s)) \<Longrightarrow>
     locked_process_step p parse faulty s (s\<lparr>sv_handler := (sv_handler s)\<lparr>sh_owner := Dropped\<rparr>\<rparr>)"

section \<open>What the process keeps\<close>

text \<open>
  Where the request in service stands: its answer waits to be sent or it has none yet; its batch is
  queued as soon as it is past the lock.  \<open>txss\<close> are the batches of the requests before it.
\<close>

definition good_answer :: "u16 result \<Rightarrow> bool" where
  "good_answer r \<longleftrightarrow> r = Inl OutofRange \<or> (\<exists>k. k \<noteq> 0 \<and> r = Inr k)"

fun phase_fits :: "transaction_request \<Rightarrow> u8 list list list \<Rightarrow> ('ip, 'pk) request_at \<Rightarrow> ('ip, 'pk) locked \<Rightarrow> bool" where
  "phase_fits rq txss Idle k \<longleftrightarrow> (lk_answers k = [] \<and> map pb_txs (lk_queued k) = txss) \<or>
     (\<exists>r. lk_answers k = [r] \<and> good_answer r \<and> request_ok rq \<and> map pb_txs (lk_queued k) = txss @ [request_txs rq])"
| "phase_fits rq txss Queueing k \<longleftrightarrow> lk_answers k = [] \<and> request_ok rq \<and> l_tx (lk_handler k) = request_txs rq \<and>
     map pb_txs (lk_queued k) = txss"
| "phase_fits rq txss Broken k \<longleftrightarrow> lk_answers k = [] \<and> (map pb_txs (lk_queued k) = txss \<or> map pb_txs (lk_queued k) = txss @ [request_txs rq])"
| "phase_fits rq txss _ k \<longleftrightarrow> lk_answers k = [] \<and> request_ok rq \<and> map pb_txs (lk_queued k) = txss @ [request_txs rq]"

definition handled_txs :: "('ip, 'pk) locked_process \<Rightarrow> u8 list list list" where
  "handled_txs s = map (\<lambda>(i, rq, r). request_txs rq) (handled s)"

definition server_fits :: "('ip, 'pk) locked_process \<Rightarrow> bool" where
  "server_fits s \<longleftrightarrow> (let k = sh_locked (sv_handler s) in case sv_server s of
     Replying i rq \<Rightarrow> phase_fits rq (handled_txs s) (lk_request k) k
   | Server_Panicked \<Rightarrow> True
   | _ \<Rightarrow> lk_request k = Idle \<and> lk_answers k = [] \<and> map pb_txs (lk_queued k) = handled_txs s)"

text \<open>The stop flag, the drop and the thread; the thread holds the lock only within a turn.\<close>

definition owned_fits :: "('ip, 'pk) locked_process \<Rightarrow> bool" where
  "owned_fits s \<longleftrightarrow> (let h = sv_handler s in
     (sh_owner h \<noteq> Serving \<longrightarrow> server_ended (sv_server s)) \<and> (sv_server s = Server_Panicked \<longrightarrow> sh_owner h \<noteq> Serving) \<and>
     (sh_stop h \<longleftrightarrow> sh_owner h \<noteq> Serving) \<and> (sh_pc h = Stopped \<longrightarrow> sh_stop h) \<and>
     (sh_owner h = Dropped \<longrightarrow> \<not> bg_running (sh_pc h)) \<and>
     (sh_pc h = Refreshing \<longrightarrow> lk_retry (sh_locked h) \<noteq> Dead) \<and>
     (sh_pc h \<noteq> Refreshing \<and> sh_pc h \<noteq> Panicked \<longrightarrow> lk_retry (sh_locked h) = Waiting) \<and>
     (sh_pc h = Panicked \<longrightarrow> lk_retry (sh_locked h) = Dead))"

lemma lock_inv_answers [simp]: "lock_inv (k\<lparr>lk_answers := rs\<rparr>) = lock_inv k"
  by (simp add: lock_inv_def)

lemma accept_request_keeps:
  "lk_retry (accept_request rq k) = lk_retry k" "lk_queued (accept_request rq k) = lk_queued k"
  "lk_answers (accept_request rq k) = lk_answers k"
  by (simp_all add: accept_request_def split: option.splits)

lemma request_act_retry: "request_act p send now k = Some k' \<Longrightarrow> lk_retry k' = lk_retry k"
  by (auto simp: request_act_def Let_def split: request_at.splits list.splits option.splits if_splits)

lemma retry_act_keeps:
  "lk_request (retry_act answer now k) = lk_request k" "lk_queued (retry_act answer now k) = lk_queued k"
  "lk_answers (retry_act answer now k) = lk_answers k" "l_tx (lk_handler (retry_act answer now k)) = l_tx (lk_handler k)"
  by (auto simp: retry_act_def Let_def split: retry_at.splits list.splits option.splits sum.splits)

lemma phase_fits_accept:
  "lk_answers k = [] \<Longrightarrow> map pb_txs (lk_queued k) = txss \<Longrightarrow>
   phase_fits rq txss (lk_request (accept_request rq k)) (accept_request rq k)"
  by (auto simp: accept_request_def request_slices_eq)

lemma phase_fits_act:
  assumes "request_act p send now k = Some k'" and "phase_fits rq txss (lk_request k) k"
  shows "phase_fits rq txss (lk_request k') k'"
proof (cases "lk_request k")
  case (Sending ls)
  then show ?thesis using assms
    by (cases ls) (auto simp: request_act_def Let_def good_answer_def split: option.splits)
qed (use assms in \<open>auto simp: request_act_def Let_def split: if_splits\<close>)

lemma phase_fits_thread:
  "lk_request k' = lk_request k \<Longrightarrow> lk_queued k' = lk_queued k \<Longrightarrow> lk_answers k' = lk_answers k \<Longrightarrow>
   l_tx (lk_handler k') = l_tx (lk_handler k) \<Longrightarrow> phase_fits rq txss (lk_request k') k' = phase_fits rq txss (lk_request k) k"
  by (cases "lk_request k") simp_all

lemma thread_act_keeps:
  "lk_request (sh_locked (thread_act p parse rpc now s)) = lk_request (sh_locked s)"
  "lk_queued (sh_locked (thread_act p parse rpc now s)) = lk_queued (sh_locked s)"
  "lk_answers (sh_locked (thread_act p parse rpc now s)) = lk_answers (sh_locked s)"
  "l_tx (lk_handler (sh_locked (thread_act p parse rpc now s))) = l_tx (lk_handler (sh_locked s))"
  "sh_stop (thread_act p parse rpc now s) = sh_stop s" "sh_owner (thread_act p parse rpc now s) = sh_owner s"
  by (auto simp: thread_act_def Let_def retry_act_keeps split: bg_pc.splits nat.splits)

lemma thread_act_lock_inv:
  "lock_inv (sh_locked s) \<Longrightarrow> lk_clock (sh_locked s) \<le> now \<Longrightarrow> lock_inv (sh_locked (thread_act p parse rpc now s))"
  using lock_inv_later [of "sh_locked s" now] lock_inv_retry [of "(sh_locked s)\<lparr>lk_clock := now\<rparr>" now]
  by (auto simp: thread_act_def Let_def split: bg_pc.splits nat.splits)

text \<open>What the background thread does to its own position.\<close>

lemma thread_act_pc:
  assumes "bg_running (sh_pc s)" and "sh_pc s = Refreshing \<longrightarrow> lk_retry (sh_locked s) \<noteq> Dead"
    and "sh_pc s \<noteq> Refreshing \<longrightarrow> lk_retry (sh_locked s) = Waiting"
  shows "(sh_pc (thread_act p parse rpc now s) = Refreshing \<longrightarrow> lk_retry (sh_locked (thread_act p parse rpc now s)) \<noteq> Dead) \<and>
    (sh_pc (thread_act p parse rpc now s) \<noteq> Refreshing \<and> sh_pc (thread_act p parse rpc now s) \<noteq> Panicked \<longrightarrow>
       lk_retry (sh_locked (thread_act p parse rpc now s)) = Waiting) \<and>
    (sh_pc (thread_act p parse rpc now s) = Panicked \<longrightarrow> lk_retry (sh_locked (thread_act p parse rpc now s)) = Dead) \<and>
    (sh_pc (thread_act p parse rpc now s) = Stopped \<longrightarrow> sh_stop s)"
proof (cases "sh_pc s")
  case (Sleeping n)
  then show ?thesis using assms by (cases n) (auto simp: thread_act_def Let_def)
next
  case Refreshing
  then show ?thesis by (auto simp: thread_act_def Let_def split: retry_at.splits)
qed (use assms in \<open>auto simp: bg_running_def\<close>)

lemma handled_txs_handler [simp]:
  "handled_txs (s\<lparr>sv_handler := h\<rparr>) = handled_txs s" "handled_txs (s\<lparr>sv_server := sv\<rparr>) = handled_txs s"
  by (simp_all add: handled_txs_def)

lemma clients_fit_handler [simp]: "clients_fit ids (s\<lparr>sv_handler := h\<rparr>) = clients_fit ids s"
  by (simp add: clients_fit_def)

lemma unsent_fits_handler [simp]: "unsent_fits (s\<lparr>sv_handler := h\<rparr>) = unsent_fits s"
  by (simp add: unsent_fits_def)

lemma take_answer_cases:
  assumes "take_answer rq s = Some (r, t)"
  obtains q rs where "lk_answers (sh_locked s) = q # rs" "t = s\<lparr>sh_locked := (sh_locked s)\<lparr>lk_answers := rs\<rparr>\<rparr>"
    "r = (case q of Inr x \<Rightarrow> Inr x | Inl e \<Rightarrow> Inl (error_code e))"
  using assms by (auto simp: take_answer_def split: list.splits)

definition answered_fits :: "('ip, 'pk) locked_process \<Rightarrow> bool" where
  "answered_fits s \<longleftrightarrow> server_fits s \<and> (\<forall>e \<in> set (handled s). answered_well e)"

lemma answered_fits_cong:
  assumes "sv_server t = sv_server s" and "handled t = handled s" and "sv_handler t = sv_handler s"
  shows "answered_fits t = answered_fits s"
  unfolding answered_fits_def server_fits_def handled_txs_def assms ..

text \<open>Between two requests all is as after the last one.\<close>

lemma answered_fits_between:
  "handled t = handled s \<Longrightarrow> sv_handler t = sv_handler s \<Longrightarrow> answered_fits s \<Longrightarrow>
   sv_server s = Checking \<or> sv_server s = Receiving \<Longrightarrow> sv_server t \<noteq> Server_Panicked \<Longrightarrow> answered_fits t"
  by (cases "sv_server t") (auto simp: answered_fits_def server_fits_def handled_txs_def Let_def)

text \<open>Once the answer is taken, the request counts as handled.\<close>

lemma answered_fits_taken:
  assumes "take_answer rq (sv_handler s) = Some (r, sv_handler t)" and "sv_server s = Replying i rq"
    and "answered_fits s" and "handled t = handled s @ [(i, rq, r)]"
    and "sv_server t = Checking \<or> sv_server t = Receiving \<or> sv_server t = Server_Err"
  shows "answered_fits t"
  using assms(1)
proof (rule take_answer_cases)
  fix q rs assume ans: "lk_answers (sh_locked (sv_handler s)) = q # rs"
    and t: "sv_handler t = sv_handler s\<lparr>sh_locked := (sh_locked (sv_handler s))\<lparr>lk_answers := rs\<rparr>\<rparr>"
    and r: "r = (case q of Inr x \<Rightarrow> Inr x | Inl e \<Rightarrow> Inl (error_code e))"
  let ?k = "sh_locked (sv_handler s)"
  have phase: "phase_fits rq (handled_txs s) (lk_request ?k) ?k"
    using assms(2,3) by (simp add: answered_fits_def server_fits_def Let_def)
  have "lk_request ?k = Idle \<and> rs = [] \<and> good_answer q \<and> request_ok rq \<and> map pb_txs (lk_queued ?k) = handled_txs s @ [request_txs rq]"
    using phase ans by (cases "lk_request ?k") auto
  then show ?thesis using assms(3,4,5)
    by (auto simp: answered_fits_def server_fits_def handled_txs_def t r good_answer_def answered_well_def Let_def)
qed

lemma answered_fits_serves:
  "service_run take_answer None faulty s t \<Longrightarrow> answered_fits s \<Longrightarrow> unsent_fits s \<Longrightarrow> answered_fits t"
proof (induction rule: service_run.induct)
  case (replies s i q r h)
  show ?case
    by (rule answered_fits_taken [OF _ replies(1,3)]) (use replies in \<open>auto simp: handled_def unsent_fits_def enough_def\<close>)
next
  case (reply_fails s i q r h)
  show ?case
    by (rule answered_fits_taken [OF _ reply_fails(2,4)]) (use reply_fails in \<open>auto simp: handled_def unsent_fits_def\<close>)
next
  case (checks s)
  show ?case by (rule answered_fits_between [OF _ _ checks(2)]) (use checks in \<open>simp_all add: handled_def\<close>)
next
  case (picks s before i q behind)
  show ?case by (rule answered_fits_between [OF _ _ picks(3)]) (use picks in \<open>simp_all add: handled_def\<close>)
next
  case (idles s)
  show ?case by (rule answered_fits_between [OF _ _ idles(3)]) (use idles in \<open>simp_all add: handled_def\<close>)
next
  case (server_fails s)
  show ?case by (rule answered_fits_between [OF _ _ server_fails(3)]) (use server_fails in \<open>simp_all add: handled_def\<close>)
next
  case (handler_panics s i q)
  then show ?case by (simp add: answered_fits_def server_fits_def handled_def Let_def)
next
  case (sends i s q qs rs)
  then show ?case by (subst answered_fits_cong [of _ s]) (simp_all add: handled_def)
next
  case (send_lost i s q qs rs)
  then show ?case by (subst answered_fits_cong [of _ s]) (simp_all add: handled_def)
next
  case (returns i s rs)
  then show ?case by (subst answered_fits_cong [of _ s]) (simp_all add: handled_def)
next
  case (receives i s q qs rs r)
  then show ?case by (subst answered_fits_cong [of _ s]) (simp_all add: handled_def)
next
  case (client_fails i s)
  then show ?case by (subst answered_fits_cong [of _ s]) (simp_all add: handled_def)
next
  case (stops s)
  then show ?case by (subst answered_fits_cong [of _ s]) (simp_all add: handled_def)
qed

definition locked_fits :: "transaction_request list list \<Rightarrow> ('ip, 'pk) locked_process \<Rightarrow> bool" where
  "locked_fits ids s \<longleftrightarrow> clients_fit ids s \<and> unsent_fits s \<and> answered_fits s \<and>
     lock_inv (sh_locked (sv_handler s)) \<and> owned_fits s"

text \<open>The thread's side is untouched by the server's.\<close>

definition thread_side :: "('ip, 'pk) shared \<Rightarrow> owner \<times> bool \<times> bg_pc \<times> ('ip, 'pk) retry_at" where
  "thread_side h = (sh_owner h, sh_stop h, sh_pc h, lk_retry (sh_locked h))"

lemma owned_fits_same:
  "thread_side (sv_handler t) = thread_side (sv_handler s) \<Longrightarrow> owned_fits s \<Longrightarrow>
   server_ended (sv_server t) = server_ended (sv_server s) \<or> sh_owner (sv_handler s) = Serving \<Longrightarrow>
   (sv_server t = Server_Panicked) = (sv_server s = Server_Panicked) \<or> sv_server t \<noteq> Server_Panicked \<Longrightarrow> owned_fits t"
  by (auto simp: owned_fits_def thread_side_def Let_def)

lemma take_answer_side: "take_answer rq s = Some (r, t) \<Longrightarrow> thread_side t = thread_side s \<and> lock_inv (sh_locked t) = lock_inv (sh_locked s)"
  by (erule take_answer_cases) (simp add: thread_side_def)

lemma serves_side:
  assumes "service_run take_answer None faulty s t"
  shows "thread_side (sv_handler t) = thread_side (sv_handler s) \<and>
    lock_inv (sh_locked (sv_handler t)) = lock_inv (sh_locked (sv_handler s))"
  using assms by (cases rule: service_run_handler) (use take_answer_side in fastforce)+

lemma owned_fits_serves:
  assumes "service_run take_answer None faulty s t" and "sv_server t \<noteq> Server_Panicked \<or> sv_server s = Server_Panicked"
    and "owned_fits s"
  shows "owned_fits t"
proof (rule owned_fits_same [OF _ assms(3)])
  show "thread_side (sv_handler t) = thread_side (sv_handler s)" using serves_side [OF assms(1)] by simp
  have end_serving: "\<not> server_ended (sv_server s) \<Longrightarrow> sh_owner (sv_handler s) = Serving" using assms(3) by (auto simp: owned_fits_def Let_def)
  show "server_ended (sv_server t) = server_ended (sv_server s) \<or> sh_owner (sv_handler s) = Serving"
    using service_run_ended [OF assms(1)] end_serving by (cases "server_ended (sv_server s)") simp_all
  show "(sv_server t = Server_Panicked) = (sv_server s = Server_Panicked) \<or> sv_server t \<noteq> Server_Panicked"
    using assms(2) service_run_ended [OF assms(1)] by (cases "sv_server s = Server_Panicked") (simp_all add: server_ended_def)
qed

lemma answered_fits_request:
  "answered_fits s \<Longrightarrow> sv_server s = Replying i rq \<Longrightarrow> phase_fits rq (handled_txs s) (lk_request k) k \<Longrightarrow>
   answered_fits (s\<lparr>sv_handler := (sv_handler s)\<lparr>sh_locked := k\<rparr>\<rparr>)"
  by (simp add: answered_fits_def server_fits_def)

lemma answered_fits_phase:
  "answered_fits s \<Longrightarrow> sv_server s = Replying i rq \<Longrightarrow> sh_locked (sv_handler s) = k \<Longrightarrow> phase_fits rq (handled_txs s) (lk_request k) k"
  by (simp add: answered_fits_def server_fits_def Let_def)

lemma answered_fits_thread:
  assumes "answered_fits s"
  shows "answered_fits (s\<lparr>sv_handler := thread_act p parse rpc now (sv_handler s)\<rparr>)"
proof -
  let ?k = "sh_locked (thread_act p parse rpc now (sv_handler s))"
  have "phase_fits rq txss (lk_request ?k) ?k = phase_fits rq txss (lk_request (sh_locked (sv_handler s))) (sh_locked (sv_handler s))" for rq txss
    by (rule phase_fits_thread) (simp_all add: thread_act_keeps)
  then show ?thesis using assms
    by (cases "sv_server s") (simp_all add: answered_fits_def server_fits_def Let_def thread_act_keeps)
qed

lemma owned_fits_thread:
  assumes "owned_fits s" and "bg_running (sh_pc (sv_handler s))"
  shows "owned_fits (s\<lparr>sv_handler := thread_act p parse rpc now (sv_handler s)\<rparr>)"
proof -
  have "sh_pc (sv_handler s) = Refreshing \<longrightarrow> lk_retry (sh_locked (sv_handler s)) \<noteq> Dead"
    "sh_pc (sv_handler s) \<noteq> Refreshing \<longrightarrow> lk_retry (sh_locked (sv_handler s)) = Waiting"
    using assms by (auto simp: owned_fits_def bg_running_def Let_def)
  from thread_act_pc [OF assms(2) this] show ?thesis
    using assms by (auto simp: owned_fits_def Let_def thread_act_keeps)
qed

lemma answered_fits_ended:
  "answered_fits s \<Longrightarrow> sv_server s \<noteq> Server_Panicked \<Longrightarrow> answered_fits (s\<lparr>sv_handler := drop_shared (sv_handler s)\<rparr>)"
  by (cases "sv_server s") (simp_all add: answered_fits_def server_fits_def drop_shared_def Let_def)

lemma answered_fits_owner:
  "answered_fits s \<Longrightarrow> answered_fits (s\<lparr>sv_handler := (sv_handler s)\<lparr>sh_owner := ow\<rparr>\<rparr>)"
  by (cases "sv_server s") (simp_all add: answered_fits_def server_fits_def Let_def)

lemma locked_fits_step:
  "locked_process_step p parse faulty s t \<Longrightarrow> locked_fits ids s \<Longrightarrow> locked_fits ids t"
proof (induction rule: locked_process_step.induct)
  case (lk_serves s t)
  then show ?case using serves_side [OF lk_serves(1)] owned_fits_serves [OF lk_serves(1,2)]
    by (auto simp: locked_fits_def intro: clients_fit_step unsent_fits_step answered_fits_serves)
next
  case (lk_starts s i rq k now)
  let ?k = "accept_request rq (k\<lparr>lk_clock := now\<rparr>)"
  have fits: "answered_fits s" "lock_inv k" "owned_fits s" using lk_starts(2,6) by (auto simp: locked_fits_def)
  have "map pb_txs (lk_queued k) = handled_txs s" using answered_fits_phase [OF fits(1) lk_starts(1,2)] lk_starts(3,4) by simp
  then have "answered_fits (s\<lparr>sv_handler := (sv_handler s)\<lparr>sh_locked := ?k\<rparr>\<rparr>)"
    using lk_starts(4) by (intro answered_fits_request [OF fits(1) lk_starts(1)] phase_fits_accept) simp_all
  moreover have "lock_inv ?k" using fits(2) lk_starts(5) by (intro lock_inv_accept lock_inv_later)
  moreover have "owned_fits (s\<lparr>sv_handler := (sv_handler s)\<lparr>sh_locked := ?k\<rparr>\<rparr>)"
    by (rule owned_fits_same [OF _ fits(3)]) (use lk_starts(2) in \<open>simp_all add: thread_side_def accept_request_keeps\<close>)
  ultimately show ?case using lk_starts(6) by (simp add: locked_fits_def)
next
  case (lk_moves s i rq k now send k')
  have fits: "answered_fits s" "lock_inv k" "owned_fits s" using lk_moves(2,5) by (auto simp: locked_fits_def)
  have "phase_fits rq (handled_txs s) (lk_request k) k" by (rule answered_fits_phase [OF fits(1) lk_moves(1,2)])
  then have "phase_fits rq (handled_txs s) (lk_request (k\<lparr>lk_clock := now\<rparr>)) (k\<lparr>lk_clock := now\<rparr>)"
    by (subst phase_fits_thread [of _ k]) simp_all
  from phase_fits_act [OF lk_moves(4) this] have "answered_fits (s\<lparr>sv_handler := (sv_handler s)\<lparr>sh_locked := k'\<rparr>\<rparr>)"
    by (rule answered_fits_request [OF fits(1) lk_moves(1)])
  moreover have "lock_inv k'" using lock_inv_request [OF lk_moves(4)] fits(2) lk_moves(3) lock_inv_later by blast
  moreover have "owned_fits (s\<lparr>sv_handler := (sv_handler s)\<lparr>sh_locked := k'\<rparr>\<rparr>)"
    by (rule owned_fits_same [OF _ fits(3)]) (use lk_moves(2) request_act_retry [OF lk_moves(4)] in \<open>simp_all add: thread_side_def\<close>)
  ultimately show ?case using lk_moves(5) by (simp add: locked_fits_def)
next
  case (lk_panics s i rq)
  have "clients_fit ids (s\<lparr>sv_server := Server_Panicked\<rparr>)"
    using lk_panics(3) by (intro clients_fit_ended) (simp_all add: locked_fits_def server_ended_def)
  then have "clients_fit ids (s\<lparr>sv_server := Server_Panicked, sv_handler := drop_shared (sv_handler s)\<rparr>)" by (simp add: clients_fit_def)
  then show ?case using lk_panics
    by (auto simp: locked_fits_def unsent_fits_def answered_fits_def server_fits_def owned_fits_def drop_shared_def server_ended_def Let_def)
next
  case (lk_drops s)
  then show ?case using answered_fits_ended [of s]
    by (auto simp: locked_fits_def owned_fits_def drop_shared_def server_ended_def Let_def)
next
  case (lk_background s now rpc)
  then show ?case by (simp add: locked_fits_def answered_fits_thread owned_fits_thread thread_act_lock_inv)
next
  case (lk_joined s)
  then show ?case using answered_fits_owner [of s Dropped] by (auto simp: locked_fits_def owned_fits_def Let_def)
qed

abbreviation locked_init :: "transaction_request list list \<Rightarrow> ('ip, 'pk) locked_process \<Rightarrow> bool" where
  "locked_init ids s \<equiv> \<exists>now initial. s = locked_start ids now (start_handler initial)"

interpretation locked: invariant_system "locked_init ids" "locked_process_step p parse faulty" "locked_fits ids"
  for ids p parse faulty
proof unfold_locales
  fix s :: "('a, 'b) locked_process" assume "locked_init ids s"
  then obtain now initial where s: "s = locked_start ids now (start_handler initial)" by blast
  have h: "handled s = []" by (simp add: s locked_start_def handled_start)
  have k: "sh_locked (sv_handler s) = lock_start now (start_handler initial)" "sv_server s = Checking"
    by (simp_all add: s locked_start_def service_start_def)
  have "answered_fits s"
    by (simp add: answered_fits_def server_fits_def handled_txs_def h k lock_start_def) (simp add: start_handler_def)
  moreover have "lock_inv (sh_locked (sv_handler s))" unfolding k(1) by (rule lock_inv_start)
  moreover have "owned_fits s"
    by (simp add: owned_fits_def s locked_start_def service_start_def lock_start_def bg_running_def)
  moreover have "clients_fit ids s" "unsent_fits s" by (simp_all add: s locked_start_def clients_fit_start unsent_fits_start)
  ultimately show "locked_fits ids s" by (simp add: locked_fits_def)
next
  fix s t :: "('a, 'b) locked_process" assume "locked_fits ids s" and "locked_process_step p parse faulty s t"
  then show "locked_fits ids t" by (rule locked_fits_step [rotated])
qed

section \<open>A sample run\<close>

lemma request_act_clock: "request_act p send now k = Some k' \<Longrightarrow> lk_clock k' = lk_clock k"
  by (auto simp: request_act_def Let_def split: request_at.splits list.splits option.splits if_splits)

text \<open>The undisturbed actions of a request are steps of the process.\<close>

lemma acts_in_process:
  "request_acts_alone n p send now k = Some k' \<Longrightarrow> lk_clock k = now \<Longrightarrow> sv_server s = Replying i rq \<Longrightarrow>
   sh_locked (sv_handler s) = k \<Longrightarrow> reach init (locked_process_step p parse faulty) s \<Longrightarrow>
   reach init (locked_process_step p parse faulty) (s\<lparr>sv_handler := (sv_handler s)\<lparr>sh_locked := k'\<rparr>\<rparr>)"
proof (induction n arbitrary: k s)
  case 0
  then have "s\<lparr>sv_handler := (sv_handler s)\<lparr>sh_locked := k'\<rparr>\<rparr> = s" by (cases s; cases "sv_handler s") simp
  with 0(5) show ?case by (simp only:)
next
  case (Suc n)
  then obtain k1 where k1: "request_act p send now k = Some k1" "request_acts_alone n p send now k1 = Some k'"
    by (auto simp: Option.bind_eq_Some_conv)
  have "k\<lparr>lk_clock := now\<rparr> = k" using Suc.prems(2) by (cases k) simp
  then have "request_act p send now (k\<lparr>lk_clock := now\<rparr>) = Some k1" using k1(1) by simp
  from lk_moves [OF Suc.prems(3,4) _ this] Suc.prems(2)
  have "locked_process_step p parse faulty s (s\<lparr>sv_handler := (sv_handler s)\<lparr>sh_locked := k1\<rparr>\<rparr>)" by simp
  from reach_step [OF Suc.prems(5) this] Suc.IH [OF k1(2), of "s\<lparr>sv_handler := (sv_handler s)\<lparr>sh_locked := k1\<rparr>\<rparr>"]
  show ?case using Suc.prems request_act_clock [OF k1(1)] by simp
qed

lemma sample_locked_process:
  defines "rq \<equiv> \<lparr>rq_count = 1, rq_list = [2], rq_data = [7, 8, 9]\<rparr>"
  shows "\<exists>s :: (unit, unit) locked_process. reach (locked_init [[rq]]) (locked_process_step Debug parse faulty) s \<and>
     sv_stop s \<and> sv_clients s = [Awaiting rq [] []] \<and> sv_mail s = [Some (Inr 1)] \<and> sv_log s = [(0, rq, Inr 1)] \<and> sv_unsent s = [] \<and>
     sv_server s = Receiving \<and> sh_owner (sv_handler s) = Serving \<and>
     pending (lk_handler (sh_locked (sv_handler s))) = [\<lparr>pb_txs = [[7, 8]], pb_sent_at = 5\<rparr>]"
proof -
  let ?h = "start_handler (Inr [\<lparr>li_pubkey = (), li_slot = 1, li_addr = \<lparr>sa_ip = (), sa_port = 8006\<rparr>\<rparr>])"
  let ?R = "reach (locked_init [[rq]]) (locked_process_step Debug parse faulty)"
  let ?send = "\<lambda>_ _ _. True"
  let ?k = "lock_start 5 ?h"
  define x where "x = \<lparr>sh_locked = ?k, sh_stop = False, sh_pc = Sleeping (unat (sleep_steps ?h)), sh_owner = Serving\<rparr>"
  let ?S = "\<lambda>c ws m sv y log b. \<lparr>sv_clients = [c], sv_waiting = ws, sv_mail = [m], sv_server = sv, sv_handler = y,
    sv_log = log, sv_unsent = [], sv_stop = b\<rparr>"
  have ok: "request_ok rq" "request_txs rq = [[7, 8]]"
    by (simp_all add: rq_def request_ok_def request_txs_def request_ends_def)
  have h: "length (l_leader ?h) < 2 ^ 16" by (simp add: start_handler_def)
  from on_request_eq [OF h, of Debug ?send 5 rq] ok obtain h' where
    h': "on_request Debug ?send 5 rq ?h = Some (Inr 1, h')" "pending h' = [\<lparr>pb_txs = [[7, 8]], pb_sent_at = 5\<rparr>]"
    by (simp add: start_handler_def Let_def)
  have k: "lk_request ?k = Idle" "\<not> holds_pending (lk_retry ?k)" "lk_handler ?k = ?h" "lk_answers ?k = []" "lk_clock ?k = 5"
    by (simp_all add: lock_start_def holds_pending_def)
  from request_alone [OF k(1,2), of Debug ?send 5 rq] h'(1) k(3,4) obtain n k' where
    run: "request_acts_alone n Debug ?send 5 (accept_request rq ?k) = Some k'" "lk_handler k' = h'" "lk_answers k' = [Inr 1]"
    by auto
  have "?R (?S (Requesting [rq] []) [] None Checking x [] False)"
    by (rule reach_init) (auto simp: locked_start_def service_start_def x_def)
  from reach_step [OF this lk_serves [OF checks]] have "?R (?S (Requesting [rq] []) [] None Receiving x [] False)"
    by (simp add: enough_def)
  from reach_step [OF this lk_serves [OF sends [of 0]]] have "?R (?S (Awaiting rq [] []) [(0, rq)] None Receiving x [] False)" by simp
  from reach_step [OF this lk_serves [OF picks [of _ "[]"]]]
  have "?R (?S (Awaiting rq [] []) [] None (Replying 0 rq) x [] False)" by simp
  from reach_step [OF this lk_starts [of _ 0 rq ?k 5]] k
  have "?R (?S (Awaiting rq [] []) [] None (Replying 0 rq) (x\<lparr>sh_locked := accept_request rq (?k\<lparr>lk_clock := 5\<rparr>)\<rparr>) [] False)"
    by (simp add: x_def)
  moreover have "?k\<lparr>lk_clock := 5\<rparr> = ?k" by (simp add: lock_start_def)
  moreover have "lk_clock (accept_request rq ?k) = 5" by (simp add: accept_request_def k(5) split: option.splits)
  ultimately have "?R (?S (Awaiting rq [] []) [] None (Replying 0 rq) (x\<lparr>sh_locked := k'\<rparr>) [] False)"
    using acts_in_process [OF run(1), of "?S (Awaiting rq [] []) [] None (Replying 0 rq) (x\<lparr>sh_locked := accept_request rq ?k\<rparr>) [] False" 0 rq]
    by simp
  from reach_step [OF this lk_serves [OF replies [of _ 0 rq take_answer "Inr 1" "x\<lparr>sh_locked := k'\<lparr>lk_answers := []\<rparr>\<rparr>"]]] run(3)
  have "?R (?S (Awaiting rq [] []) [] (Some (Inr 1)) Receiving (x\<lparr>sh_locked := k'\<lparr>lk_answers := []\<rparr>\<rparr>) [(0, rq, Inr 1)] False)"
    by (simp add: enough_def take_answer_def)
  from reach_step [OF this lk_serves [OF stops]]
  have "?R (?S (Awaiting rq [] []) [] (Some (Inr 1)) Receiving (x\<lparr>sh_locked := k'\<lparr>lk_answers := []\<rparr>\<rparr>) [(0, rq, Inr 1)] True)"
    by simp
  then show ?thesis using run(2) h'(2) by (intro exI conjI) (assumption, simp_all add: x_def)
qed

section \<open>What every run keeps\<close>

text \<open>
  C15: At every interleaving of the threads at their locks, whatever the network, the RPC server and the
  shared-memory service do: a client that returned normally got the answers to its requests in
  order; a request that was answered was well-formed, and its answer is a number of leaders that is not
  0, or code 5; unless the server has panicked, the batches queued so far are those of the requests the
  handler is through with, in order, and at most the one in service; each stays queued for at
  least 30 s, and nothing else is queued or was ever sent.
\<close>

theorem locked_process_keeps_requests:
  assumes "reach (locked_init ids) (locked_process_step p parse faulty) s"
  shows "(\<forall>i < length ids. \<forall>rs. sv_clients s ! i = Client_Ok rs \<longrightarrow>
      length rs = length (ids ! i) \<and> log_of i (sv_log s) = zip (ids ! i) rs) \<and>
    (\<forall>(i, rq, r) \<in> set (sv_log s @ sv_unsent s). request_ok rq \<and> (r = Inl 5 \<or> (\<exists>k. k \<noteq> 0 \<and> r = Inr k))) \<and>
    (sv_server s \<noteq> Server_Panicked \<longrightarrow> (let k = sh_locked (sv_handler s) in
      (\<exists>served. map pb_txs (lk_queued k) = map (\<lambda>(i, rq, r). request_txs rq) (sv_log s @ sv_unsent s) @ served \<and>
        (served = [] \<or> (\<exists>i rq. sv_server s = Replying i rq \<and> served = [request_txs rq]))) \<and>
      subseq (pending (lk_handler k)) (lk_queued k) \<and>
      (\<forall>b \<in> set (lk_queued k). b \<in> set (pending (lk_handler k)) \<or> pb_sent_at b + 30000 \<le> lk_clock k) \<and>
      snd ` set (wire (lk_handler k)) \<subseteq> pb_txs ` set (lk_queued k)))"
proof -
  let ?k = "sh_locked (sv_handler s)"
  have inv: "locked_fits ids s" by (rule locked.inv_reach [OF assms])
  then have clients: "clients_fit ids s" and ans: "answered_fits s" and locks: "lock_inv ?k"
    by (simp_all add: locked_fits_def)
  have "\<exists>served. map pb_txs (lk_queued ?k) = handled_txs s @ served \<and>
      (served = [] \<or> (\<exists>i rq. sv_server s = Replying i rq \<and> served = [request_txs rq]))" if "sv_server s \<noteq> Server_Panicked"
  proof (cases "sv_server s")
    case (Replying i rq)
    from answered_fits_phase [OF ans Replying refl] show ?thesis
      by (cases "lk_request ?k") (auto simp: Replying)
  qed (use ans that in \<open>simp_all add: answered_fits_def server_fits_def Let_def\<close>)
  moreover have "\<forall>(i, rq, r) \<in> set (handled s). request_ok rq \<and> (r = Inl 5 \<or> (\<exists>k. k \<noteq> 0 \<and> r = Inr k))"
    using ans by (auto simp: answered_fits_def answered_well_def)
  ultimately show ?thesis using locks clients_fit_returned [OF clients]
    unfolding handled_txs_def handled_def lock_inv_def queue_kept_def wire_fits_def PENDING_TX_TTL_def Let_def by blast
qed

theorem locked_process_keeps_requests_witness:
  "\<exists>s :: (unit, unit) locked_process. sv_mail s = [Some (Inr 1)] \<and> sv_server s = Receiving \<and>
     map pb_txs (lk_queued (sh_locked (sv_handler s))) = [[[7, 8]]] \<and>
     subseq (pending (lk_handler (sh_locked (sv_handler s)))) (lk_queued (sh_locked (sv_handler s)))"
proof -
  let ?rq = "\<lparr>rq_count = 1, rq_list = [2], rq_data = [7, 8, 9]\<rparr>"
  obtain s :: "(unit, unit) locked_process" where s: "reach (locked_init [[?rq]]) (locked_process_step Debug (\<lambda>_. None) False) s"
    "sv_mail s = [Some (Inr 1)]" "sv_log s = [(0, ?rq, Inr 1)]" "sv_unsent s = []" "sv_server s = Receiving"
    using sample_locked_process by blast
  have "request_txs ?rq = [[7, 8]]" by (simp add: request_txs_def request_ends_def)
  with locked_process_keeps_requests [OF s(1)] s(2-5) show ?thesis by (intro exI [of _ s]) (simp add: Let_def)
qed

section \<open>Shutdown\<close>

text \<open>
  What is left to do, most significant first: of the clients and the server, of the drop, of the request
  in service and its sends, of the background thread and its retry pass.  No bound can be given
  in advance for the sends, whose number the query decides, so the order is lexicographic.
\<close>

fun request_left :: "('ip, 'pk) locked \<Rightarrow> ('ip, 'pk) request_at \<Rightarrow> nat" where
  "request_left k Idle = (if lk_answers k = [] then 5 else 0)"
| "request_left k Queueing = 4"
| "request_left k Snapshotting = 3"
| "request_left k (Sending ls) = 2"
| "request_left k Broken = 1"

fun sends_left :: "('ip, 'pk) request_at \<Rightarrow> nat" where
  "sends_left (Sending ls) = length ls"
| "sends_left _ = 0"

fun turn_left :: "('ip, 'pk) retry_at \<Rightarrow> nat" where
  "turn_left Waiting = 7"
| "turn_left (Publishing ls) = 6"
| "turn_left (Stamping ls) = 5"
| "turn_left (Locking ls t) = 4"
| "turn_left (Retrying ms) = 3"
| "turn_left Dead = 0"

fun pass_left :: "('ip, 'pk) retry_at \<Rightarrow> nat" where
  "pass_left (Retrying ms) = length ms"
| "pass_left _ = 0"

fun pc_left :: "bg_pc \<Rightarrow> ('ip, 'pk) retry_at \<Rightarrow> nat" where
  "pc_left (Sleeping 0) r = 8"
| "pc_left Refreshing r = turn_left r"
| "pc_left (Sleeping (Suc n)) r = 1"
| "pc_left _ r = 0"

definition request_order :: "(('ip, 'pk) locked \<times> ('ip, 'pk) locked) set" where
  "request_order = measures [\<lambda>k. request_left k (lk_request k), \<lambda>k. sends_left (lk_request k)]"

definition thread_order :: "(('ip, 'pk) shared \<times> ('ip, 'pk) shared) set" where
  "thread_order = measures [\<lambda>h. pc_left (sh_pc h) (lk_retry (sh_locked h)), \<lambda>h. pass_left (lk_retry (sh_locked h))]"

definition shutdown_order :: "(('ip, 'pk) locked_process \<times> ('ip, 'pk) locked_process) set" where
  "shutdown_order = measures [server_left, \<lambda>s. owner_left (sh_owner (sv_handler s)),
     \<lambda>s. request_left (sh_locked (sv_handler s)) (lk_request (sh_locked (sv_handler s))),
     \<lambda>s. sends_left (lk_request (sh_locked (sv_handler s))),
     \<lambda>s. pc_left (sh_pc (sv_handler s)) (lk_retry (sh_locked (sv_handler s))),
     \<lambda>s. pass_left (lk_retry (sh_locked (sv_handler s)))]"

lemma server_left_handler [simp]: "server_left (s\<lparr>sv_handler := h\<rparr>) = server_left s"
  by (simp add: server_left_def service_work_def)

text \<open>Every action of a request brings it nearer to its end.\<close>

lemma request_act_left:
  "request_act p send now k = Some k' \<Longrightarrow> (k', k) \<in> request_order"
  by (cases "lk_request k"; cases "lk_request k' = Broken")
    (auto simp: request_act_def request_order_def Let_def split: list.splits option.splits if_splits)

lemma accept_request_left:
  "lk_request k = Idle \<Longrightarrow> lk_answers k = [] \<Longrightarrow> (accept_request rq k, k) \<in> request_order"
  by (simp add: accept_request_def request_order_def split: option.splits)

text \<open>An action of the thread, unless it goes on sleeping, brings its turn nearer to the end.\<close>

lemma retry_act_left:
  assumes "lk_retry k \<noteq> Dead" and "lk_retry k \<noteq> Waiting"
  shows "lk_retry (retry_act answer now k) = Waiting \<and> (\<exists>ms. lk_retry k = Retrying ms) \<or>
    turn_left (lk_retry (retry_act answer now k)) < turn_left (lk_retry k) \<and> lk_retry (retry_act answer now k) \<noteq> Waiting \<or>
    (\<exists>m ms. lk_retry k = Retrying (m # ms) \<and> lk_retry (retry_act answer now k) = Retrying ms)"
  using assms by (cases "lk_retry k") (auto simp: retry_act_def Let_def split: list.splits)

lemma query_left:
  "lk_retry k = Waiting \<Longrightarrow> turn_left (lk_retry (retry_act answer now k)) < 7 \<or> lk_retry (retry_act answer now k) = Waiting"
  by (auto simp: retry_act_def Let_def split: option.splits sum.splits)

lemma pc_left_sleep: "pc_left (Sleeping (unat (sleep_steps h))) r = 1"
  using sleep_steps_pos [of h] by auto

lemma thread_act_left:
  assumes "bg_running (sh_pc h)" and "sh_pc h = Refreshing \<longrightarrow> lk_retry (sh_locked h) \<noteq> Dead"
    and "sh_stop h \<or> sh_pc h = Refreshing"
  shows "(thread_act p parse rpc now h, h) \<in> thread_order"
proof (cases "sh_pc h")
  case (Sleeping n)
  show ?thesis
  proof (cases n)
    case 0
    then show ?thesis using Sleeping assms(3) by (cases "lk_retry (sh_locked h)") (simp_all add: thread_act_def thread_order_def Let_def)
  next
    case (Suc m)
    then show ?thesis using Sleeping assms(3) by (simp add: thread_act_def thread_order_def Let_def)
  qed
next
  case Refreshing
  let ?k = "(sh_locked h)\<lparr>lk_clock := now\<rparr>"
  let ?k' = "retry_act (get_leader_tpu_addresses p parse rpc (Some 8)) now ?k"
  have t: "thread_act p parse rpc now h = h\<lparr>sh_locked := ?k', sh_pc := (case lk_retry ?k' of
      Waiting \<Rightarrow> Sleeping (unat (sleep_steps (lk_handler ?k'))) | Dead \<Rightarrow> Panicked | _ \<Rightarrow> Refreshing)\<rparr>"
    using Refreshing by (simp add: thread_act_def Let_def)
  show ?thesis
  proof (cases "lk_retry (sh_locked h) = Waiting")
    case True
    then have "turn_left (lk_retry ?k') < 7 \<or> lk_retry ?k' = Waiting" by (intro query_left) simp
    then show ?thesis using Refreshing True
      by (cases "lk_retry ?k'") (auto simp: t thread_order_def pc_left_sleep)
  next
    case False
    have "lk_retry ?k \<noteq> Dead" "lk_retry ?k \<noteq> Waiting" using assms(2) Refreshing False by simp_all
    from retry_act_left [OF this, of "get_leader_tpu_addresses p parse rpc (Some 8)" now] show ?thesis using Refreshing False
      by (cases "lk_retry ?k'") (auto simp: t thread_order_def pc_left_sleep)
  qed
qed (use assms(1) in \<open>simp_all add: bg_running_def\<close>)

lemma shutdown_request:
  "(k', sh_locked (sv_handler s)) \<in> request_order \<Longrightarrow> (s\<lparr>sv_handler := (sv_handler s)\<lparr>sh_locked := k'\<rparr>\<rparr>, s) \<in> shutdown_order"
  by (auto simp: request_order_def shutdown_order_def)

lemma shutdown_thread:
  assumes "(thread_act p parse rpc now (sv_handler s), sv_handler s) \<in> thread_order"
  shows "(s\<lparr>sv_handler := thread_act p parse rpc now (sv_handler s)\<rparr>, s) \<in> shutdown_order"
proof -
  let ?k = "sh_locked (sv_handler s)" and ?k' = "sh_locked (thread_act p parse rpc now (sv_handler s))"
  have "request_left ?k' (lk_request ?k') = request_left ?k (lk_request ?k)"
    by (cases "lk_request ?k") (simp_all add: thread_act_keeps)
  then show ?thesis using assms by (auto simp: thread_order_def shutdown_order_def thread_act_keeps)
qed

text \<open>A step brings the end nearer, changes nothing, or is a turn of the thread that need not stop yet.\<close>

lemma locked_step_left:
  "locked_process_step p parse faulty s t \<Longrightarrow> sv_stop s \<Longrightarrow> locked_fits ids s \<Longrightarrow>
   sv_stop t \<and> ((t, s) \<in> shutdown_order \<or> t = s \<or> sh_owner (sv_handler s) = Serving \<and>
     (\<exists>rpc now. t = s\<lparr>sv_handler := thread_act p parse rpc now (sv_handler s)\<rparr>))"
proof (induction rule: locked_process_step.induct)
  case (lk_serves s t)
  have "sv_stop t" using lk_serves(1,3) by (induction rule: service_run.induct) simp_all
  then show ?case using service_run_left [OF lk_serves(1,3)] by (auto simp: shutdown_order_def)
next
  case (lk_starts s i rq k now)
  have "(accept_request rq (k\<lparr>lk_clock := now\<rparr>), k\<lparr>lk_clock := now\<rparr>) \<in> request_order"
    by (rule accept_request_left) (simp_all add: lk_starts(3,4))
  then have "(accept_request rq (k\<lparr>lk_clock := now\<rparr>), sh_locked (sv_handler s)) \<in> request_order"
    using lk_starts(2,3) by (simp add: request_order_def)
  from shutdown_request [OF this] show ?case using lk_starts(6) by simp
next
  case (lk_moves s i rq k now send k')
  have "request_left (k\<lparr>lk_clock := now\<rparr>) (lk_request k) = request_left k (lk_request k)" by (cases "lk_request k") simp_all
  then have "(k', sh_locked (sv_handler s)) \<in> request_order"
    using request_act_left [OF lk_moves(4)] lk_moves(2) by (simp add: request_order_def)
  from shutdown_request [OF this] show ?case using lk_moves(5) by simp
next
  case (lk_panics s i rq)
  then show ?case by (simp add: shutdown_order_def server_left_def service_work_def)
next
  case (lk_drops s)
  then show ?case by (simp add: shutdown_order_def drop_shared_def)
next
  case (lk_background s now rpc)
  have fits: "sh_pc (sv_handler s) = Refreshing \<longrightarrow> lk_retry (sh_locked (sv_handler s)) \<noteq> Dead"
    "sh_owner (sv_handler s) \<noteq> Serving \<longrightarrow> sh_stop (sv_handler s)"
    using lk_background(4) by (auto simp: locked_fits_def owned_fits_def Let_def)
  show ?case
  proof (cases "sh_owner (sv_handler s) = Serving")
    case True
    then show ?thesis using lk_background(3) by auto
  next
    case False
    then show ?thesis using shutdown_thread [OF thread_act_left [OF lk_background(1) fits(1)]] fits(2) lk_background(3) by simp
  qed
next
  case (lk_joined s)
  then show ?case by (simp add: shutdown_order_def)
qed

text \<open>
  No deadlock: as long as the handler is not gone, some thread can bring the end nearer.  A request that
  waits for the lock is brought nearer by the thread that holds it.
\<close>

lemma owner_can_go_on:
  assumes inv: "locked_fits ids s" and "server_ended (sv_server s)" and "sh_owner (sv_handler s) \<noteq> Dropped"
  shows "\<exists>t. locked_process_step p parse faulty s t \<and> (t, s) \<in> shutdown_order"
proof (cases "sh_owner (sv_handler s)")
  case Serving
  then have "sv_server s = Server_Ok \<or> sv_server s = Server_Err"
    using inv assms(2) by (auto simp: locked_fits_def owned_fits_def server_ended_def Let_def)
  from lk_drops [OF this Serving, of p parse faulty] show ?thesis using Serving
    by (fastforce simp: shutdown_order_def drop_shared_def)
next
  case Dropping
  show ?thesis
  proof (cases "bg_running (sh_pc (sv_handler s))")
    case True
    have "sh_pc (sv_handler s) = Refreshing \<longrightarrow> lk_retry (sh_locked (sv_handler s)) \<noteq> Dead" "sh_stop (sv_handler s)"
      using inv Dropping by (auto simp: locked_fits_def owned_fits_def Let_def)
    with thread_act_left [OF True, of p parse undefined "lk_clock (sh_locked (sv_handler s))"] shutdown_thread
      lk_background [OF True le_refl, of p parse faulty] show ?thesis by blast
  next
    case False
    from lk_joined [OF Dropping False, of p parse faulty] Dropping show ?thesis
      by (fastforce simp: shutdown_order_def)
  qed
qed (use assms(3) in simp)

lemma request_can_go_on:
  assumes inv: "locked_fits ids s" and stop: "sv_stop s" and at: "sv_server s = Replying i rq"
  shows "\<exists>t. locked_process_step p parse faulty s t \<and> (t, s) \<in> shutdown_order"
proof -
  let ?k = "sh_locked (sv_handler s)" and ?send = "\<lambda>_ _ _. True"
  let ?now = "lk_clock ?k"
  have clock: "?k\<lparr>lk_clock := ?now\<rparr> = ?k" by (cases ?k) simp
  consider "lk_request ?k = Broken" | "lk_request ?k = Idle" "lk_answers ?k = []" | r rs where "lk_answers ?k = r # rs"
    | k' where "request_act p ?send ?now ?k = Some k'" | "lk_request ?k = Queueing" "holds_pending (lk_retry ?k)"
  proof (cases "lk_request ?k")
    case (Sending ls)
    then have "request_act p ?send ?now ?k \<noteq> None" by (cases ls) (auto simp: request_act_def Let_def split: option.splits)
    then show ?thesis using that(4) by blast
  next
    case Idle
    then show ?thesis using that(2,3) by (cases "lk_answers ?k") auto
  next
    case Queueing
    then have "holds_pending (lk_retry ?k) \<or> request_act p ?send ?now ?k \<noteq> None" by (simp add: request_act_def Let_def)
    then show ?thesis using that(4,5) Queueing by blast
  qed (use that(1,4) in \<open>auto simp: request_act_def Let_def\<close>)
  then show ?thesis
  proof cases
    case 1
    from lk_panics [OF at this, of p parse faulty] show ?thesis
      by (fastforce simp: shutdown_order_def server_left_def service_work_def at)
  next
    case 2
    from lk_starts [OF at refl 2 le_refl, of p parse faulty] show ?thesis
      using shutdown_request [of "accept_request rq ?k" s] accept_request_left [OF 2] unfolding clock by blast
  next
    case (3 r rs)
    then obtain q h where "take_answer rq (sv_handler s) = Some (q, h)" by (simp add: take_answer_def)
    note run = replies [of s i rq take_answer q h None faulty, OF at this]
    have "locked_process_step p parse faulty s (s\<lparr>sv_handler := h, sv_log := sv_log s @ [(i, rq, q)], sv_mail := (sv_mail s)[i := Some q],
        sv_server := Receiving\<rparr>)"
      using lk_serves [OF run] by (simp add: enough_def)
    moreover have "server_left (s\<lparr>sv_handler := h, sv_log := sv_log s @ [(i, rq, q)], sv_mail := (sv_mail s)[i := Some q],
        sv_server := Receiving\<rparr>) < server_left s"
      by (simp add: server_left_def service_work_def at)
    ultimately show ?thesis unfolding shutdown_order_def measures_def by fastforce
  next
    case (4 k')
    then have "request_act p ?send ?now (?k\<lparr>lk_clock := ?now\<rparr>) = Some k'" unfolding clock .
    from lk_moves [OF at refl le_refl this, of parse faulty] show ?thesis
      using shutdown_request [OF request_act_left [OF 4]] by blast
  next
    case 5
    have "sh_pc (sv_handler s) = Refreshing"
      using inv 5(2) by (auto simp: locked_fits_def owned_fits_def holds_pending_def Let_def split: retry_at.splits)
    then have "bg_running (sh_pc (sv_handler s))" "(thread_act p parse undefined ?now (sv_handler s), sv_handler s) \<in> thread_order"
      using 5(2) by (auto simp: bg_running_def holds_pending_def intro: thread_act_left)
    then show ?thesis using shutdown_thread lk_background [OF _ le_refl] by blast
  qed
qed

lemma server_can_go_on:
  assumes inv: "locked_fits ids s" and stop: "sv_stop s" and running: "\<not> server_ended (sv_server s)"
  shows "\<exists>t. locked_process_step p parse faulty s t \<and> (t, s) \<in> shutdown_order"
proof -
  have turn: ?thesis if "service_run take_answer None faulty s t" "sv_server t \<noteq> sv_server s" "sv_server t \<noteq> Server_Panicked" for t
  proof -
    have "server_left t < server_left s" using service_run_left [OF that(1) stop] that(2) by auto
    then show ?thesis using lk_serves [OF that(1), of p parse] that(3) by (auto simp: shutdown_order_def)
  qed
  show ?thesis
  proof (cases "sv_server s")
    case Checking
    then show ?thesis using turn [OF checks] stop by simp
  next
    case Receiving
    show ?thesis
    proof (cases "sv_waiting s")
      case Nil
      then show ?thesis using turn [OF idles] Receiving by simp
    next
      case (Cons e ws)
      then show ?thesis using turn [OF picks [of s "[]" "fst e" "snd e" ws]] Receiving by simp
    qed
  next
    case (Replying i rq)
    from request_can_go_on [OF inv stop this] show ?thesis .
  qed (use running in \<open>simp_all add: server_ended_def\<close>)
qed

lemma wf_shutdown_order: "wf (shutdown_order :: (('ip, 'pk) locked_process \<times> ('ip, 'pk) locked_process) set)"
  unfolding shutdown_order_def by (rule wf_measures)

lemma locked_process_can_end:
  "locked_fits ids s \<Longrightarrow> sv_stop s \<Longrightarrow> \<exists>t. (locked_process_step p parse faulty)\<^sup>*\<^sup>* s t \<and> sh_owner (sv_handler t) = Dropped"
proof (induction s rule: wf_induct_rule [OF wf_shutdown_order])
  case (1 s)
  show ?case
  proof (cases "sh_owner (sv_handler s) = Dropped")
    case False
    then obtain u where u: "locked_process_step p parse faulty s u" "(u, s) \<in> shutdown_order"
      using owner_can_go_on [OF 1(2)] server_can_go_on [OF 1(2,3)] by blast
    have "locked_fits ids u" "sv_stop u"
      using locked_fits_step [OF u(1) 1(2)] locked_step_left [OF u(1) 1(3,2)] by simp_all
    from 1(1) [OF u(2) this] u(1) show ?thesis by (meson converse_rtranclp_into_rtranclp)
  qed blast
qed

text \<open>
  C16: Told to shut down, the process ends, and its locks cannot keep it from it: in a well-founded order every
  step that is not an action of the background thread of a handler still in use brings the end
  nearer or changes nothing; until the handler is gone some thread can bring it nearer, whoever waits
  for which lock; then the server has returned or panicked and the background thread has ended.
\<close>

theorem locked_process_shuts_down:
  fixes s :: "('ip, 'pk) locked_process"
  assumes "reach (locked_init ids) (locked_process_step p parse faulty) s" and "sv_stop s"
  shows "wf (shutdown_order :: (('ip, 'pk) locked_process \<times> ('ip, 'pk) locked_process) set) \<and>
    (\<forall>t. locked_process_step p parse faulty s t \<longrightarrow> sv_stop t \<and> ((t, s) \<in> shutdown_order \<or> t = s \<or>
      sh_owner (sv_handler s) = Serving \<and> (\<exists>rpc now. t = s\<lparr>sv_handler := thread_act p parse rpc now (sv_handler s)\<rparr>))) \<and>
    (sh_owner (sv_handler s) \<noteq> Dropped \<longrightarrow> (\<exists>t. locked_process_step p parse faulty s t \<and> (t, s) \<in> shutdown_order)) \<and>
    (\<exists>t. (locked_process_step p parse faulty)\<^sup>*\<^sup>* s t \<and> sh_owner (sv_handler t) = Dropped) \<and>
    (sh_owner (sv_handler s) = Dropped \<longrightarrow> server_ended (sv_server s) \<and>
      (sh_pc (sv_handler s) = Stopped \<or> sh_pc (sv_handler s) = Panicked))"
proof (intro conjI)
  have inv: "locked_fits ids s" by (rule locked.inv_reach [OF assms(1)])
  show "wf (shutdown_order :: (('ip, 'pk) locked_process \<times> ('ip, 'pk) locked_process) set)"
    by (rule wf_shutdown_order)
  show "\<forall>t. locked_process_step p parse faulty s t \<longrightarrow> sv_stop t \<and> ((t, s) \<in> shutdown_order \<or> t = s \<or>
      sh_owner (sv_handler s) = Serving \<and> (\<exists>rpc now. t = s\<lparr>sv_handler := thread_act p parse rpc now (sv_handler s)\<rparr>))"
    using locked_step_left [OF _ assms(2) inv] by blast
  show "sh_owner (sv_handler s) \<noteq> Dropped \<longrightarrow> (\<exists>t. locked_process_step p parse faulty s t \<and> (t, s) \<in> shutdown_order)"
    using owner_can_go_on [OF inv] server_can_go_on [OF inv assms(2)] by blast
  show "\<exists>t. (locked_process_step p parse faulty)\<^sup>*\<^sup>* s t \<and> sh_owner (sv_handler t) = Dropped"
    by (rule locked_process_can_end [OF inv assms(2)])
  show "sh_owner (sv_handler s) = Dropped \<longrightarrow> server_ended (sv_server s) \<and>
      (sh_pc (sv_handler s) = Stopped \<or> sh_pc (sv_handler s) = Panicked)"
    using inv by (auto simp: locked_fits_def owned_fits_def bg_running_def Let_def)
qed

theorem locked_process_shuts_down_witness:
  "\<exists>s t :: (unit, unit) locked_process. sv_stop s \<and> sv_server s = Receiving \<and> sh_owner (sv_handler s) = Serving \<and>
     (locked_process_step Debug (\<lambda>_. None) False)\<^sup>*\<^sup>* s t \<and> sh_owner (sv_handler t) = Dropped"
proof -
  obtain ids and s :: "(unit, unit) locked_process" where s: "reach (locked_init ids) (locked_process_step Debug (\<lambda>_. None) False) s"
    "sv_stop s" "sv_server s = Receiving" "sh_owner (sv_handler s) = Serving"
    using sample_locked_process by blast
  from locked_process_shuts_down [OF s(1,2)] s(2-4) show ?thesis by blast
qed

end
