(* ===== verification/Logger.thy ===== *)
theory Logger
  imports Prelude
begin

text \<open>
  \<open>src/plugin.rs\<close>: \<open>init_logger\<close>.  A \<open>Once\<close> runs its closure at the first call; if the closure panics it
  is poisoned and every later call panics.  Installing a logger panics if the process has one.
\<close>

datatype once = Not_Run | Completed | Poisoned

record logging =
  INIT :: once
  global_logger :: bool

text \<open>\<open>env_logger::Builder::init\<close>, and \<open>Once::call_once\<close> with it: whether the call returns, and the state after it.\<close>

definition builder_init :: "logging \<Rightarrow> bool \<times> logging" where
  "builder_init s = (\<not> global_logger s, s\<lparr>global_logger := True\<rparr>)"

definition init_logger :: "logging \<Rightarrow> bool \<times> logging" where
  "init_logger s = (case INIT s of
     Completed \<Rightarrow> (True, s)
   | Poisoned \<Rightarrow> (False, s)
   | Not_Run \<Rightarrow> (case builder_init s of (ok, s) \<Rightarrow> (ok, s\<lparr>INIT := if ok then Completed else Poisoned\<rparr>)))"

primrec init_calls :: "nat \<Rightarrow> logging \<Rightarrow> bool list \<times> logging" where
  "init_calls 0 s = ([], s)"
| "init_calls (Suc n) s = (case init_logger s of (ok, s) \<Rightarrow> (case init_calls n s of (oks, s) \<Rightarrow> (ok # oks, s)))"

lemma init_calls_settled:
  "INIT s = Completed \<Longrightarrow> init_calls n s = (replicate n True, s)"
  "INIT s = Poisoned \<Longrightarrow> init_calls n s = (replicate n False, s)"
  by (induction n) (simp_all add: init_logger_def)

text \<open>
  Called any number of times, \<open>init_logger\<close> installs one logger and always returns; but if somebody else
  installed a logger first, every call of it panics.
\<close>

lemma init_logger_once:
  "init_calls (Suc n) \<lparr>INIT = Not_Run, global_logger = b\<rparr> =
     (replicate (Suc n) (\<not> b), \<lparr>INIT = if b then Poisoned else Completed, global_logger = True\<rparr>)"
  by (cases b) (simp_all add: init_logger_def builder_init_def init_calls_settled)

end
