(* ===== verification/Debug_Text.thy ===== *)
theory Debug_Text
  imports Error_Text Transaction Accounts
begin

text \<open>
  \<open>src/store.rs\<close>, \<open>src/read.rs\<close>: the text of accounts, instructions, transactions and state windows, as
  \<open>{:?}\<close> prints it.  The text of a signature is another crate's, a parameter.
\<close>

section \<open>Numbers, lists and fields\<close>

definition digit :: "nat \<Rightarrow> char" where
  "digit n = ''0123456789'' ! n"

fun decimal :: "nat \<Rightarrow> string" where
  "decimal n = (if n < 10 then [digit n] else decimal (n div 10) @ [digit (n mod 10)])"

declare decimal.simps [simp del]

fun separated :: "string list \<Rightarrow> string" where
  "separated [] = []"
| "separated [x] = x"
| "separated (x # y # xs) = x @ '', '' @ separated (y # xs)"

definition debug_list :: "string list \<Rightarrow> string" where
  "debug_list xs = ''['' @ separated xs @ '']''"

definition debug_set :: "string list \<Rightarrow> string" where
  "debug_set xs = [CHR 0x7B] @ separated xs @ [CHR 0x7D]"

text \<open>\<open>f.debug_struct(name)\<close> with its fields: the name alone when there is none.\<close>

definition debug_struct :: "string \<Rightarrow> (string \<times> string) list \<Rightarrow> string" where
  "debug_struct name entries = name @ (if entries = [] then []
     else '' '' @ [CHR 0x7B] @ '' '' @ separated (map (\<lambda>(f, v). f @ '': '' @ v) entries) @ '' '' @ [CHR 0x7D])"

section \<open>The impls\<close>

definition account_debug :: "solana_account \<Rightarrow> string" where
  "account_debug a = debug_struct ''SolanaAccount'' []"

definition instruction_debug :: "catscope_instruction \<Rightarrow> string" where
  "instruction_debug ix = debug_struct ''CatscopeInstructionFull'' []"

definition transaction_debug :: "(u8 list \<Rightarrow> string) \<Rightarrow> catscope_transaction \<Rightarrow> string" where
  "transaction_debug signature_debug tx = debug_struct ''CatscopeTransaction''
     [(''signature'', signature_debug (signature tx)), (''index'', decimal (unat (tx_index tx))),
      (''account'', debug_list (map (decimal \<circ> unat) (account tx)))]"

text \<open>A window's set and map are hashed: \<open>hs_intersect\<close> lists the set in the order of its iteration.\<close>

record 'r state_window =
  hs_intersect :: "account_id list"
  m_tx :: "u8 list \<Rightarrow> 'r option"
  sw_account :: "solana_account list"
  sw_tx :: "u8 list list"

definition window_debug :: "(u8 list \<Rightarrow> string) \<Rightarrow> 'r state_window \<Rightarrow> string" where
  "window_debug signature_debug w = debug_struct ''StateWindow''
     [(''hs_intersect'', debug_set (map (decimal \<circ> unat) (hs_intersect w))),
      (''l_account'', debug_list (map account_debug (sw_account w))),
      (''l_tx'', debug_list (map signature_debug (sw_tx w)))]"

section \<open>What a text tells\<close>

definition undigit :: "char \<Rightarrow> nat" where
  "undigit c = of_char c - 48"

definition undecimal :: "string \<Rightarrow> nat" where
  "undecimal s = foldl (\<lambda>n c. 10 * n + undigit c) 0 s"

lemma digit_cases: "n < 10 \<Longrightarrow> n \<in> {0, 1, 2, 3, 4, 5, 6, 7, 8, 9 :: nat}"
  by simp presburger

lemma undigit_digit: "n < 10 \<Longrightarrow> undigit (digit n) = n \<and> digit n \<noteq> CHR '','' \<and> digit n \<noteq> CHR '']'' \<and> digit n \<noteq> CHR 0x7D"
  by (drule digit_cases) (auto simp: undigit_def digit_def)

lemma undecimal_decimal: "undecimal (decimal n) = n"
proof (induction n rule: decimal.induct)
  case (1 n)
  then show ?case by (subst decimal.simps) (simp add: undecimal_def undigit_digit)
qed

lemma decimal_inject [simp]: "decimal m = decimal n \<longleftrightarrow> m = n"
  by (metis undecimal_decimal)

definition word_text :: "string \<Rightarrow> bool" where
  "word_text s \<longleftrightarrow> s \<noteq> [] \<and> CHR '','' \<notin> set s \<and> CHR '']'' \<notin> set s \<and> CHR 0x7D \<notin> set s"

lemma word_text_decimal: "word_text (decimal n)"
proof (induction n rule: decimal.induct)
  case (1 n)
  then show ?case using undigit_digit [of n] undigit_digit [of "n mod 10"]
    by (subst decimal.simps) (auto simp: word_text_def)
qed

text \<open>A text up to its first comma or bracket.\<close>

lemma word_cut:
  assumes "word_text x" and "word_text y" and "x @ c # r = y @ d # t"
    and "c \<in> {CHR '','', CHR '']'', CHR 0x7D}" and "d \<in> {CHR '','', CHR '']'', CHR 0x7D}"
  shows "x = y \<and> c = d \<and> r = t"
proof -
  let ?plain = "\<lambda>a. a \<notin> {CHR '','', CHR '']'', CHR 0x7D}"
  have "takeWhile ?plain (x @ c # r) = x" "takeWhile ?plain (y @ d # t) = y"
    using assms(1,2,4,5) by (subst takeWhile_append2; auto simp: word_text_def)+
  then have "x = y" using assms(3) by simp
  then show ?thesis using assms(3) by simp
qed

lemma separated_inject:
  "list_all word_text xs \<Longrightarrow> list_all word_text ys \<Longrightarrow> c \<in> {CHR '']'', CHR 0x7D} \<Longrightarrow>
   separated xs @ c # r = separated ys @ c # t \<Longrightarrow> xs = ys \<and> r = t"
proof (induction xs arbitrary: ys rule: separated.induct)
  case 1
  then show ?case by (cases ys rule: separated.cases) (auto simp: word_text_def Cons_eq_append_conv)
next
  case (2 x)
  then show ?case
  proof (cases ys rule: separated.cases)
    case 1
    then show ?thesis using 2 by (auto simp: word_text_def append_eq_Cons_conv)
  next
    case (2 y)
    then show ?thesis using \<open>separated [x] @ _ = _\<close> \<open>list_all word_text [x]\<close> \<open>list_all word_text ys\<close> \<open>c \<in> _\<close>
        word_cut [of x y c r c t] by auto
  next
    case (3 y z zs)
    then show ?thesis using \<open>separated [x] @ _ = _\<close> \<open>list_all word_text [x]\<close> \<open>list_all word_text ys\<close> \<open>c \<in> _\<close>
        word_cut [of x y c r "CHR '',''"] by auto
  qed
next
  case (3 x y xs)
  show ?case
  proof (cases ys rule: separated.cases)
    case 1
    then show ?thesis using 3 by (auto simp: word_text_def append_eq_Cons_conv)
  next
    case (2 z)
    then show ?thesis using 3 word_cut [of x z "CHR '',''" _ c t] by auto
  next
    case (3 z w zs)
    have "x = z \<and> separated (y # xs) @ c # r = separated (w # zs) @ c # t"
      using \<open>separated (x # y # xs) @ _ = _\<close> \<open>list_all word_text (x # y # xs)\<close> \<open>list_all word_text ys\<close> 3
        word_cut [of x z "CHR '',''" _ "CHR '',''"] by auto
    then show ?thesis using "3.IH" [of "w # zs"] \<open>list_all word_text (x # y # xs)\<close> \<open>list_all word_text ys\<close> \<open>c \<in> _\<close> 3 by simp
  qed
qed

text \<open>
  The text of a transaction tells its signature, its index and the accounts it touched, when the text of
  a signature tells the signature and has no comma or bracket in it, and nothing else of it.
\<close>

lemma transaction_debug_tells:
  assumes "inj sig" and "\<And>s. word_text (sig s)"
  shows "transaction_debug sig tx = transaction_debug sig tx' \<longleftrightarrow>
    signature tx = signature tx' \<and> tx_index tx = tx_index tx' \<and> account tx = account tx'"
proof
  let ?accounts = "\<lambda>tx. separated (map (decimal \<circ> unat) (account tx)) @ CHR '']'' # '' '' @ [CHR 0x7D]"
  assume "transaction_debug sig tx = transaction_debug sig tx'"
  then have eq: "sig (signature tx) @ CHR '','' # '' index: '' @ decimal (unat (tx_index tx)) @ CHR '','' # '' account: ['' @ ?accounts tx =
      sig (signature tx') @ CHR '','' # '' index: '' @ decimal (unat (tx_index tx')) @ CHR '','' # '' account: ['' @ ?accounts tx'"
    by (simp add: transaction_debug_def debug_struct_def debug_list_def)
  from word_cut [OF assms(2,2) eq] have sig: "sig (signature tx) = sig (signature tx')"
    and eq: "decimal (unat (tx_index tx)) @ CHR '','' # '' account: ['' @ ?accounts tx =
      decimal (unat (tx_index tx')) @ CHR '','' # '' account: ['' @ ?accounts tx'" by auto
  from word_cut [OF word_text_decimal word_text_decimal eq] have index: "unat (tx_index tx) = unat (tx_index tx')"
    and eq: "?accounts tx = ?accounts tx'" by auto
  have words: "list_all word_text (map (decimal \<circ> unat) xs)" for xs :: "account_id list"
    by (simp add: list_all_iff word_text_decimal)
  have "map (decimal \<circ> unat) (account tx) = map (decimal \<circ> unat) (account tx')"
    using separated_inject [OF words words _ eq] by simp
  moreover have "inj (decimal \<circ> (unat :: account_id \<Rightarrow> nat))" by (rule injI) (simp add: word_unat_eq_iff)
  ultimately have "account tx = account tx'" by (simp add: inj_map_eq_map)
  moreover have "signature tx = signature tx'" by (rule injD [OF assms(1) sig])
  moreover have "tx_index tx = tx_index tx'" using index by (rule word_unat_eq_iff [THEN iffD2])
  ultimately show "signature tx = signature tx' \<and> tx_index tx = tx_index tx' \<and> account tx = account tx'" by blast
qed (simp add: transaction_debug_def)

text \<open>The text of a state window tells how many accounts it has, and nothing about them.\<close>

lemma window_debug_hides_accounts:
  "length as = length bs \<Longrightarrow> window_debug sig (w\<lparr>sw_account := as, m_tx := m\<rparr>) = window_debug sig (w\<lparr>sw_account := bs, m_tx := m'\<rparr>)"
proof -
  assume "length as = length bs"
  moreover have "map account_debug xs = replicate (length xs) ''SolanaAccount''" for xs
    by (induction xs) (simp_all add: account_debug_def debug_struct_def)
  ultimately show ?thesis by (simp add: window_debug_def)
qed

end
