(* ===== verification/Spec2Isabelle.thy ===== *)
theory Spec2Isabelle
  imports Tx_Result Slot_Status Delivery Ring_Race Queue_Race Shard_Panic Catfwd Error_Text Background Relay Accounts Delete_Notifier Token Forwarder Unit_Tests
    Service_Tests Queue_Test Process_Locks Logger Debug_Text
begin

text \<open>
  The crate catscope-zerohop: the interface between a Solana validator and the programs that run
  beside it without a network hop.  This development models the parts of the crate that have
  behaviour of their own and proves what makes each correct, or states exactly how it is not.

  \<^bold>\<open>The program.\<close>  A validator plugin records what it executes in a
  \<open>CatscopeTransaction\<close>, built through write handles and kept as flat tables
  (\<open>src/store.rs\<close>); it travels between processes in a wire format that the reader views without
  copying, next to its outcome in 16 bytes.  Accounts travel as snapshots: a header and data in
  one blob, graph edges in another.  Finished transactions are broadcast to the consumers of one
  process over a lossy ring (\<open>src/buffer.rs\<close>); account keys pass through queues of batches
  (\<open>src/queue.rs\<close>) and a deduplicating thread pipeline (\<open>src/shard.rs\<close>).  Towards the validator, a
  client fills a request with transactions and sends it over shared memory to the server
  (\<open>src/txfwd.rs\<close>), whose handler sends them to the coming leaders over QUIC and retries them in
  the background (\<open>src/quic.rs\<close>); the binary \<open>src/bin/catfwd.rs\<close> is that server as a process.  A
  relay streams how much capacity is idle to remote clients (\<open>src/relay/server.rs\<close>).

  \<^bold>\<open>The theories\<close>, in the order they build on each other:

  \<^item> \<open>Prelude\<close>: machine types, panics (\<open>exec\<close>: \<open>None\<close> is a panic) and results (\<open>Inl\<close> is \<open>Err\<close>), the
    two build profiles, indexing and slicing with Rust's checks, collections \<open>slice_simps\<close> and
    \<open>codec_simps\<close>.
  \<^item> \<open>Errors\<close> (\<open>src/err.rs\<close>): the error type and its codes; the locale \<open>discriminant_codec\<close>.
    \<open>Error_Text\<close>: what \<open>Debug\<close> and \<open>Display\<close> print, with the escapes of a quoted string;
    \<open>Debug_Text\<close>: the texts of accounts, transactions and state windows.
  \<^item> \<open>Bytes\<close> (\<open>src/util.rs\<close>): little-endian numbers, raw images of arrays; the locale
    \<open>fixed_codec\<close>, interpreted on bytes and on 16, 32 and 64-bit words.
  \<^item> \<open>Transitions\<close>: runs of a step relation and the locale \<open>invariant_system\<close>.
  \<^item> \<open>Tx_Result\<close>, \<open>Slot_Status\<close> (\<open>src/store.rs\<close>): the 16-byte outcome and the slot status byte; their
    matches are interpretations of \<open>discriminant_codec\<close>.
  \<^item> \<open>Sorted_Insert\<close>: binary search and insertion, as the touched accounts use them.
  \<^item> \<open>Transaction\<close> (\<open>src/store.rs\<close>): the tables, \<open>append_outer\<close> and \<open>append_inner\<close>, the methods and
    the drop of a write handle, the readers and iterators.  \<open>push_outer\<close> and \<open>push_inner\<close> are one
    whole use of a handle; \<open>built\<close> are the transactions made of such uses.
  \<^item> \<open>Wire\<close> (\<open>src/store.rs\<close>): the header, \<open>write_to\<close>, \<open>try_from\<close> and the accessors of the view.
    \<open>Delivery\<close>: a transaction from the write handles to the view of another process.
  \<^item> \<open>Accounts\<close> (\<open>src/store.rs\<close>, \<open>src/edge.rs\<close>): blobs, snapshots, headers, edges, weights; edge
    keys are an instance of \<open>linorder\<close>.
  \<^item> \<open>Delete_Notifier\<close> (\<open>src/read.rs\<close>), \<open>Token\<close> (\<open>src/util.rs\<close>): single-component theories.
  \<^item> \<open>Queue\<close> (\<open>src/queue.rs\<close>): the locale \<open>fifo\<close> of a first-in-first-out queue, \<open>LocklessQueue\<close> over
    any such queue (again a \<open>fifo\<close>, by interpretation), \<open>QueueRing\<close> and its iterator, method by
    method, with others between the retries of \<open>next\<close> (\<open>next_during\<close>), and as the step relation
    \<open>ring_step\<close> of atomic actions.  \<open>Queue_Race\<close>: the atomic
    actions of \<open>LocklessQueue\<close> interleaved (\<open>queue_act\<close>).
  \<^item> \<open>Ring\<close> (\<open>src/buffer.rs\<close>): producers and consumers of the broadcast ring, method by method.
    \<open>Ring_Race\<close>: producers interleaved between claim and write (\<open>race_step\<close>), consumers between the
    check of the cursor and the read of the slot (\<open>pop_load\<close>, \<open>pop_look\<close>).
  \<^item> \<open>Shard\<close> (\<open>src/shard.rs\<close>): readers, workers and completion as the step relation
    \<open>pipeline_step\<close>, over the locale \<open>pipeline_queues\<close> of two \<open>fifo\<close>s.  \<open>Shard_Panic\<close>: the same
    threads with their ends, panics of \<open>on_key\<close> and the coordinator (\<open>pool_step\<close>).
  \<^item> \<open>Quic\<close> (\<open>src/quic.rs\<close>): the leader query, the request, the handler and a turn of the background
    loop, which \<open>service_step\<close> interleaves.  \<open>Quic_Locks\<close>: requests and background turns cut into the actions
    between which their locks let the other thread run (\<open>lock_step\<close>), a retry pass being the steps
    while the background thread holds the lock (\<open>pass_step\<close>).  \<open>Background\<close>: the thread of the loop
    with its stop flag, and the drop of the handler (\<open>quic_step\<close>).  \<open>Quic_Client\<close>: the client behind the
    handler's sends.
  \<^item> \<open>Float32\<close>, \<open>Relay\<close> (\<open>src/relay/server.rs\<close>): the comparison and subtraction of \<open>f32\<close> on its bits,
    the idle ratio and the two tasks of a capacity stream.
  \<^item> \<open>Forwarder\<close> (\<open>src/txfwd.rs\<close>, \<open>src/write.rs\<close>): the server loop and the default batch.
    \<open>Service\<close>: the same server and its clients as threads over a shared-memory service that may reorder,
    lose and fail (\<open>service_run\<close>).
  \<^item> \<open>Catfwd\<close> (\<open>src/bin/catfwd.rs\<close>, \<open>src/txfwd.rs\<close>): the construction of the service and \<open>main\<close>.
    \<open>Process\<close>: the running process, \<open>service_run\<close> over the handler and thread of \<open>quic_step\<close>
    (\<open>process_step\<close>).  \<open>Process_Locks\<close>: the same with the actions of \<open>Quic_Locks\<close> in place of whole requests and
    turns (\<open>locked_process_step\<close>).  \<open>Logger\<close> (\<open>src/plugin.rs\<close>): \<open>init_logger\<close>.
  \<^item> \<open>Unit_Tests\<close>, \<open>Queue_Test\<close>, \<open>Service_Tests\<close>: every test of the crate on the model; all pass, in every
    interleaving of their threads, but \<open>test_append_inner\<close>, which drops an unfinished write handle.
  \<^item> This theory joins the server with the QUIC handler, and the process with the QUIC client.

  \<^bold>\<open>What the lemmas show.\<close>  Codecs: round trips of the wire format, the outcome, the snapshot, the
  token account and the slot status, and what the decoders accept and reject.  The transaction:
  which pushes panic, the invariant of the tables, that the touched accounts are a set, what the
  readers return.  Two results state defects as the code has them: every instruction reads the chunk
  of the first (\<open>every_instruction_reads_first\<close>), and an accepted view panics when its chunk ends
  are out of order or range (\<open>accepted_view_typed\<close>).  Queues: what a batch yields, late pushes
  included, conservation under every interleaving, how far the counter may be off, and that resets
  under interleaving can leave it wrong with no call in progress (\<open>counter_drifts\<close>).  The ring: order, no duplicates, no gaps while the
  consumer keeps up, and what the races between claim and write and with a lap can do.  The pipeline:
  once per key, nothing lost, and completion of every run, by a measure that each step reduces; with
  panics, that the completion value is never sent for a run that lost a worker.  The handler: what is
  sent, queued, retried and answered, that the bytes a client appends are never among it
  (\<open>appended_bytes_never_sent\<close>), and that its drop returns.  The process: what it needs to start, what
  it sends and answers, when it returns.  Over time: that requests and
  background turns lose no batch between their locks (\<open>queue_kept_under_locks\<close>), that a retry pass sends
  the queue it found (\<open>retry_pass_sends_its_queue\<close>) and that a request waits for it
  (\<open>request_waits_for_retries\<close>), that each client gets its own answers and, over a service
  without faults, all of them, and that the process as a whole, interleaved at its locks, keeps these
  promises and ends when told to (\<open>locked_process_keeps_requests\<close>, \<open>locked_process_shuts_down\<close>).  The relay: the bounds of the idle ratio and its rounding.

  \<^bold>\<open>Assumptions and bounds.\<close>  \<open>usize\<close> has 64 bits.  Lengths of vectors are natural numbers; where the
  code narrows them to 16, 32 or 64 bits the model does so too, and a theorem that needs a length
  to fit says so (\<open>fits_header\<close>, fewer than 65536 elements, fewer than \<open>2 ^ 64\<close> pushes or
  \<open>2 ^ 63\<close> queue calls).  Every loop is structural recursion or a step relation, so no fuel is
  used; where no bound on the steps exists (a retry pass is as long as the query makes it) the end is
  shown in a well-founded order (\<open>shutdown_order\<close>).  Code of other crates is a parameter: the queues and channels (\<open>fifo\<close>, satisfied by lists
  and by \<open>LocklessQueue\<close>), the hash, the public key parser, RPC answers, the QUIC stack, keys
  and serialiser, the shared-memory service, environment and key file, the gRPC channels, the clock.  Atomic operations are sequentially consistent; padding bytes
  that the code copies uninitialised are arbitrary arguments (\<open>mem_o\<close>, \<open>mem_i\<close>).

  \<^bold>\<open>Not modelled.\<close>  Traits and plain types implemented by the host (\<open>src/read.rs\<close>, \<open>src/plugin.rs\<close>,
  \<open>src/state.rs\<close>, \<open>src/usage.rs\<close>, \<open>src/relay/handler.rs\<close>), the configuration record, the module
  list and the build script: they have no behaviour of this crate.  The runtime of the
  gRPC server, logging, and the failure of the system to create a thread.  Weak memory orderings.
  The signal thread of \<open>catfwd\<close> is the shutdown flag the server reads each turn.  What is left of the source are
  imports, type and trait declarations and the arguments of log calls; nothing of it computes.
\<close>

section \<open>The forwarder service\<close>

text \<open>
  What \<open>catfwd\<close> runs: the server with the QUIC handler, a request \<open>(now, rq)\<close> being a request
  with its time of arrival.  The answer of a good request, and the handler after it.
\<close>

definition request_answer ::
    "'ip sender \<Rightarrow> ('ip socket_addr \<times> u8 list list) list \<Rightarrow> ('ip, 'pk) leader_tpu_info list \<Rightarrow>
     transaction_request \<Rightarrow> u8 + u16" where
  "request_answer send w leaders rq =
     (let k = reached send w (request_txs rq) leaders in if k = 0 then Inl 5 else Inr (word_of_nat k))"

definition served :: "'ip sender \<Rightarrow> nat \<times> transaction_request \<Rightarrow> ('ip, 'pk) handler \<Rightarrow> ('ip, 'pk) handler" where
  "served send x h = (case x of (now, rq) \<Rightarrow>
     h\<lparr>l_tx := request_txs rq, sent_count := word_of_nat (reached send (wire h) (request_txs rq) (l_leader h)),
       pending := pending h @ [\<lparr>pb_txs = request_txs rq, pb_sent_at = now\<rparr>],
       wire := wire h @ map (\<lambda>l. (li_addr l, request_txs rq)) (l_leader h)\<rparr>)"

text \<open>What the requests \<open>xs\<close> put on the wire.\<close>

definition requests_wire ::
    "('ip, 'pk) leader_tpu_info list \<Rightarrow> (nat \<times> transaction_request) list \<Rightarrow> ('ip socket_addr \<times> u8 list list) list" where
  "requests_wire leaders xs = concat (map (\<lambda>(now, rq). map (\<lambda>l. (li_addr l, request_txs rq)) leaders) xs)"

lemma served_fields [simp]:
  "l_leader (served send x h) = l_leader h"
  "pending (served send x h) = pending h @ [\<lparr>pb_txs = request_txs (snd x), pb_sent_at = fst x\<rparr>]"
  "wire (served send x h) = wire h @ map (\<lambda>l. (li_addr l, request_txs (snd x))) (l_leader h)"
  by (simp_all add: served_def split_beta)

lemma fold_served:
  "l_leader (fold (served send) xs h) = l_leader h"
  "pending (fold (served send) xs h) = pending h @ map (\<lambda>(now, rq). \<lparr>pb_txs = request_txs rq, pb_sent_at = now\<rparr>) xs"
  "wire (fold (served send) xs h) = wire h @ requests_wire (l_leader h) xs"
  by (induction xs arbitrary: h) (simp_all add: split_beta requests_wire_def)

text \<open>The answers, each after the sends of the requests before it.\<close>

definition request_answers ::
    "'ip sender \<Rightarrow> ('ip, 'pk) handler \<Rightarrow> (nat \<times> transaction_request) list \<Rightarrow> (u8 + u16) list" where
  "request_answers send h xs = map (\<lambda>i. request_answer send (wire h @ requests_wire (l_leader h) (take i xs))
     (l_leader h) (snd (xs ! i))) [0..<length xs]"

lemma request_answers_Cons:
  "request_answers send h (x # xs) =
     request_answer send (wire h) (l_leader h) (snd x) # request_answers send (served send x h) xs"
  by (simp add: request_answers_def requests_wire_def map_upt_Suc split_beta del: upt_Suc)

lemma answer_all_requests:
  "length (l_leader h) < 2 ^ 16 \<Longrightarrow>
   answer_all (\<lambda>(now, rq). on_request p send now rq) xs h =
     (if \<forall>x \<in> set xs. request_ok (snd x)
      then Some (request_answers send h xs, fold (served send) xs h) else None)"
proof (induction xs arbitrary: h)
  case (Cons x xs)
  obtain now rq where x: "x = (now, rq)" by fastforce
  have "answer_request (\<lambda>(now, rq). on_request p send now rq) x h =
      (if request_ok rq then Some (request_answer send (wire h) (l_leader h) rq, served send x h) else None)"
    using on_request_eq [OF Cons.prems, of p send now rq]
    by (simp add: x answer_request_def request_answer_def served_def Let_def)
  then show ?case using Cons x by (simp add: request_answers_Cons)
qed (simp add: request_answers_def)

lemma forwarder_run:
  assumes "length (l_leader h) < 2 ^ 16"
  shows "server_loop (\<lambda>(now, rq). on_request p send now rq) (map good_turn xss @ (True, ds) # turns) h =
    (if \<forall>(now, rq) \<in> set (concat xss). request_ok rq
     then Some (Some (Inr ()), request_answers send h (concat xss), fold (served send) (concat xss) h) else None)"
  using answer_all_requests [OF assms, of p send "concat xss"]
  by (simp add: server_loop_good split_beta)

text \<open>
  The forwarder as a whole: until it is shut down it answers every request, in order, with
  the number of leaders reached or code 5 when there was none, has handed the transactions of every
  request once to every leader, in order, and has queued every request for retry; a single
  malformed request panics it instead.
\<close>

lemma forwarder_serves_requests:
  assumes "length (l_leader h) < 2 ^ 16"
  shows "if \<forall>(now, rq) \<in> set (concat xss). request_ok rq
    then \<exists>h'. server_loop (\<lambda>(now, rq). on_request p send now rq) (map good_turn xss @ (True, ds) # turns) h =
        Some (Some (Inr ()), map (\<lambda>i. request_answer send
            (wire h @ requests_wire (l_leader h) (take i (concat xss))) (l_leader h) (snd (concat xss ! i)))
          [0..<length (concat xss)], h') \<and>
      l_leader h' = l_leader h \<and>
      pending h' = pending h @ map (\<lambda>(now, rq). \<lparr>pb_txs = request_txs rq, pb_sent_at = now\<rparr>) (concat xss) \<and>
      wire h' = wire h @ requests_wire (l_leader h) (concat xss)
    else server_loop (\<lambda>(now, rq). on_request p send now rq) (map good_turn xss @ (True, ds) # turns) h = None"
  by (simp add: forwarder_run [OF assms] fold_served split_beta request_answers_def)

lemma forwarder_serves_requests_witness:
  "\<exists>h'. server_loop (\<lambda>(now, rq). on_request Debug (\<lambda>_ _ _. True) now rq)
      [good_turn [(5, \<lparr>rq_count = 1, rq_list = [2], rq_data = [7, 8, 9]\<rparr>)], (True, [])]
      (start_handler (Inr [\<lparr>li_pubkey = (), li_slot = 1, li_addr = \<lparr>sa_ip = (), sa_port = 8006\<rparr>\<rparr>])) =
    Some (Some (Inr ()), [Inr 1], h') \<and> wire h' = [(\<lparr>sa_ip = (), sa_port = 8006\<rparr>, [[7, 8]])]"
proof -
  let ?rq = "\<lparr>rq_count = 1, rq_list = [2], rq_data = [7, 8, 9]\<rparr>"
  let ?h = "start_handler (Inr [\<lparr>li_pubkey = (), li_slot = 1, li_addr = \<lparr>sa_ip = (), sa_port = 8006\<rparr>\<rparr>])"
  have ok: "request_ok ?rq" "request_txs ?rq = [[7, 8]]"
    by (simp_all add: request_ok_def request_txs_def request_ends_def)
  have h: "length (l_leader ?h) < 2 ^ 16" by (simp add: start_handler_def)
  from forwarder_serves_requests [OF h, of "[[(5, ?rq)]]" Debug "\<lambda>_ _ _. True" "[]" "[]"] ok
  show ?thesis by (auto simp: start_handler_def request_answer_def requests_wire_def)
qed

text \<open>
  C18: The forwarder and its clients together: in every interleaving and whatever fails, a client of
  the forwarder that returns normally sent only well-formed requests, and the requests of it that the
  server answered, with the answers, are its requests in the order it sent them with the responses it
  returns.  The answer to each request served, of this client or another, is the number of leaders
  reached after the sends of the requests served before it, or code 5 for none; the wire holds
  one message for each request served and each leader, in order, and nothing else.
\<close>

theorem forwarder_clients_served:
  assumes leaders: "length (l_leader h) < 2 ^ 16"
    and run: "reach (\<lambda>s. s = service_start ids h)
      (service_run (answer_request (\<lambda>(now, rq). on_request p send now rq)) limit faulty) s"
    and client: "i < length ids" "sv_clients s ! i = Client_Ok rs"
  shows "length rs = length (ids ! i) \<and> log_of i (sv_log s) = zip (ids ! i) rs \<and>
    (\<forall>(now, rq) \<in> set (ids ! i). request_ok rq) \<and>
    (let es = sv_log s @ sv_unsent s; rqs = map (fst \<circ> snd) es in
       (\<forall>j < length es. snd (snd (es ! j)) =
          (let k = reached send (wire h @ requests_wire (l_leader h) (take j rqs)) (request_txs (snd (rqs ! j))) (l_leader h)
           in if k = 0 then Inl 5 else Inr (word_of_nat k))) \<and>
       wire (sv_handler s) = wire h @ concat (map (\<lambda>(now, rq). [(li_addr l, request_txs rq). l \<leftarrow> l_leader h]) rqs))"
proof -
  let ?served = "map (fst \<circ> snd) (handled s)"
  note fits = service_reach_fits [OF run, unfolded clients_fit_def answers_fit_def answers_answer_request]
  from fits(2) have ok: "\<forall>x \<in> set ?served. request_ok (snd x)"
    and resp: "map (snd \<circ> snd) (handled s) = request_answers send h ?served"
    and after: "sv_handler s = fold (served send) ?served h"
    by (auto simp: answer_all_requests [OF leaders] split: if_splits)
  note returned = clients_fit_returned [OF service_reach_fits(1) [OF run] client]
  then have log: "map fst (log_of i (sv_log s)) = ids ! i" by simp
  have "set (map fst (log_of i (sv_log s))) \<subseteq> set ?served" by (auto simp: log_of_def handled_def image_iff)
  then have "\<forall>(now, rq) \<in> set (ids ! i). request_ok rq" using ok log by fastforce
  moreover have "snd (snd (handled s ! j)) = request_answer send (wire h @ requests_wire (l_leader h) (take j ?served))
      (l_leader h) (snd (?served ! j))" if "j < length (handled s)" for j
    using arg_cong [OF resp, of "\<lambda>xs. xs ! j"] that by (simp add: request_answers_def)
  ultimately show ?thesis using returned unfolding handled_def [symmetric]
    by (simp add: after fold_served Let_def request_answer_def requests_wire_def)
qed

theorem forwarder_clients_served_witness:
  "\<exists>s :: (nat \<times> transaction_request, u8 + u16, (unit, unit) handler) service.
     sv_clients s = [Client_Ok [Inr 1]] \<and> wire (sv_handler s) = [(\<lparr>sa_ip = (), sa_port = 8006\<rparr>, [[7, 8]])] \<and>
     log_of 0 (sv_log s) = zip [(5, \<lparr>rq_count = 1, rq_list = [2], rq_data = [7, 8, 9]\<rparr>)] [Inr 1]"
proof -
  let ?rq = "\<lparr>rq_count = 1, rq_list = [2], rq_data = [7, 8, 9]\<rparr>"
  let ?h = "start_handler (Inr [\<lparr>li_pubkey = (), li_slot = 1, li_addr = \<lparr>sa_ip = (), sa_port = 8006\<rparr>\<rparr>])"
  let ?f = "\<lambda>(now, rq). on_request Debug (\<lambda>_ _ _. True) now rq"
  have ok: "request_ok ?rq" "request_txs ?rq = [[7, 8]]"
    by (simp_all add: request_ok_def request_txs_def request_ends_def)
  have h: "length (l_leader ?h) < 2 ^ 16" by (simp add: start_handler_def)
  from on_request_eq [OF h, of Debug "\<lambda>_ _ _. True" 5 ?rq] ok obtain h' where
    "answer_request ?f (5, ?rq) ?h = Some (Inr 1, h')"
    by (auto simp: answer_request_def start_handler_def Let_def)
  from single_client_run [of "answer_request ?f" "(5, ?rq)" ?h "Inr 1" h' True, OF this] obtain s where
    s: "reach (\<lambda>s. s = service_start [[(5, ?rq)]] ?h) (service_run (answer_request ?f) None True) s"
      "sv_clients s = [Client_Ok [Inr 1]]" "sv_log s = [(0, (5, ?rq), Inr 1)]" "sv_unsent s = []"
    by blast
  from forwarder_clients_served [OF h s(1), of 0 "[Inr 1]"] s(2-4) ok
  have "wire (sv_handler s) = [(\<lparr>sa_ip = (), sa_port = 8006\<rparr>, [[7, 8]])] \<and>
      log_of 0 (sv_log s) = zip [(5, ?rq)] [Inr 1]"
    by (simp add: start_handler_def Let_def)
  with s(2) show ?thesis by blast
qed

text \<open>
  C21: The process end to end: with its configuration in order, \<open>catfwd\<close> sends every transaction of
  every request over the QUIC client of its key to every leader the RPC server named at the start,
  in order, answers each request with the number of leaders reached or code 5, and returns once it
  is told to shut down; one malformed request panics it.
\<close>

theorem catfwd_serves:
  assumes "register_signals env = Inr ()" and "env_var env ''RPC_URL'' = Some url"
    and "env_var env ''KEYPAIR'' = Some key_path" and "read_key env key_path = Inr key"
    and "quic_new lib key (Some catfwd_config) = Inr c" and "quic_new retry_lib key (Some catfwd_config) = Inr c'"
    and "get_leader_tpu_addresses p parse (rpc url) (Some 8) = Some (Inr leaders)" and "length leaders < 2 ^ 16"
    and "env_var env ''BUFFER_PATH'' = Some path" and "max_clients (env_var env ''MAX_CLIENT'') = Some n"
    and "server_setup ipc (Some path) n = Some (Inr srv)"
  shows "if \<forall>(now, rq) \<in> set (concat xss). request_ok rq
    then \<exists>h. catfwd_main p parse rpc lib retry_lib ipc env (map good_turn xss @ (True, ds) # turns) =
        Some (Some (Inr ()), map (\<lambda>i. request_answer (client_sender lib c)
            (requests_wire leaders (take i (concat xss))) leaders (snd (concat xss ! i))) [0..<length (concat xss)], h) \<and>
      wire h = requests_wire leaders (concat xss)
    else catfwd_main p parse rpc lib retry_lib ipc env (map good_turn xss @ (True, ds) # turns) = None"
proof -
  let ?h = "start_handler (Inr leaders)"
  have c: "qc_keypair c = key" "qc_config c = catfwd_config"
    using assms(5) by (auto simp: quic_new_def rbind_eq_Inr)
  have h: "l_leader ?h = leaders" "wire ?h = []" by (simp_all add: start_handler_def)
  then have len: "length (l_leader ?h) < 2 ^ 16" using assms(8) by simp
  have "catfwd_main p parse rpc lib retry_lib ipc env (map good_turn xss @ (True, ds) # turns) =
      server_loop (\<lambda>(now, rq). on_request p (client_sender lib c) now rq) (map good_turn xss @ (True, ds) # turns) ?h"
    by (simp add: catfwd_main_def assms(1-7,9-11) c new_handler_def server_def)
  then show ?thesis
    by (simp add: forwarder_run [OF len] fold_served h request_answers_def)
qed

theorem catfwd_serves_witness:
  "\<exists>h. catfwd_main Debug (\<lambda>_. Some ()) (\<lambda>_. demo_rpc) open_lib open_lib demo_ipc demo_env
      [good_turn [(5, \<lparr>rq_count = 1, rq_list = [2], rq_data = [7, 8, 9]\<rparr>)], (True, [])] =
    Some (Some (Inr ()), [Inr 1], h) \<and> wire h = [(\<lparr>sa_ip = (), sa_port = 8006\<rparr>, [[7, 8]])]"
proof -
  let ?rq = "\<lparr>rq_count = 1, rq_list = [2], rq_data = [7, 8, 9]\<rparr>"
  have ok: "request_ok ?rq" "request_txs ?rq = [[7, 8]]"
    by (simp_all add: request_ok_def request_txs_def request_ends_def)
  have env: "register_signals demo_env = Inr ()" "env_var demo_env ''RPC_URL'' = Some ''RPC_URL''"
    "env_var demo_env ''KEYPAIR'' = Some ''KEYPAIR''" "read_key demo_env ''KEYPAIR'' = Inr ()"
    "env_var demo_env ''BUFFER_PATH'' = Some ''BUFFER_PATH''" "max_clients (env_var demo_env ''MAX_CLIENT'') = Some 6"
    by (simp_all add: demo_env_def max_clients_def)
  let ?l = "[\<lparr>li_pubkey = (), li_slot = 7, li_addr = \<lparr>sa_ip = (), sa_port = 8006\<rparr>\<rparr>]"
  have len: "length ?l < 2 ^ 16" by simp
  from catfwd_serves [where rpc = "\<lambda>_. demo_rpc", OF env(1-4) demo_facts(1,1) demo_leaders len env(5,6) demo_facts(2), of "[[(5, ?rq)]]" "[]" "[]"] ok
  show ?thesis by (auto simp: request_answer_def requests_wire_def client_sender_def send_wire_transactions_batch_def
      open_lib_def rpc_result_def)
qed

end
